(* ===== verification/Prelude.thy ===== *)
theory Prelude
  imports Main "HOL-Library.Word"
begin

text \<open>
  Shared vocabulary of the development: the machine integers of the sources, Rust's
  \<open>Result\<close> with panics made explicit, slices, loops, iterators, and the generic lemmas the
  component theories use.

  Integers.  \<open>u8\<close>, \<open>u32\<close> and \<open>u64\<close> are words.  In the device-tree crate a \<open>usize\<close> counts
  bytes of a slice and is a natural number, with the bound of the 64-bit target written out in
  \<open>checked_add_usize\<close> and \<open>checked_mul_usize\<close>; in the kernel crate a \<open>usize\<close> is an
  address and is a 64-bit word.

  Panics.  \<open>Panic\<close> is an outcome of its own: a failed \<open>expect\<close>, an \<open>unreachable!\<close>, an
  out-of-range index.  \<open>Diverge\<close> is the outcome of a loop that makes no progress.  A theorem
  that some operation returns \<open>Ok\<close> therefore excludes both.
\<close>

section \<open>Types and collections of lemmas\<close>

type_synonym u8 = "8 word"
type_synonym u32 = "32 word"
type_synonym u64 = "64 word"
type_synonym usize = nat
type_synonym bytes = "u8 list"

text \<open>The error type of operations that return no error (they may still panic).\<close>

type_synonym infallible = unit

named_theorems res_simps \<open>simplification of results, binds and error maps\<close>
named_theorems slice_simps \<open>sub-slices as take and drop\<close>
named_theorems checked_simps \<open>checked arithmetic\<close>

section \<open>Results\<close>

datatype ('a, 'e) res = Ok 'a | Err 'e | Panic | Diverge

text \<open>The question-mark operator: continue with the value, or return the failure.\<close>

definition bind_res :: "('a, 'e) res \<Rightarrow> ('a \<Rightarrow> ('b, 'e) res) \<Rightarrow> ('b, 'e) res" where
  "bind_res m f = (case m of Ok a \<Rightarrow> f a | Err e \<Rightarrow> Err e | Panic \<Rightarrow> Panic | Diverge \<Rightarrow> Diverge)"

definition map_err :: "('e \<Rightarrow> 'f) \<Rightarrow> ('a, 'e) res \<Rightarrow> ('a, 'f) res" where
  "map_err g m = (case m of Ok a \<Rightarrow> Ok a | Err e \<Rightarrow> Err (g e) | Panic \<Rightarrow> Panic | Diverge \<Rightarrow> Diverge)"

text \<open>\<open>ok_or\<close> turns an option into a result, \<open>expect\<close> an error into a panic.\<close>

definition ok_or :: "'e \<Rightarrow> 'a option \<Rightarrow> ('a, 'e) res" where
  "ok_or e x = (case x of None \<Rightarrow> Err e | Some a \<Rightarrow> Ok a)"

definition expect :: "('a, 'e) res \<Rightarrow> ('a, 'f) res" where
  "expect m = (case m of Ok a \<Rightarrow> Ok a | Err e \<Rightarrow> Panic | Panic \<Rightarrow> Panic | Diverge \<Rightarrow> Diverge)"

definition expect_some :: "'a option \<Rightarrow> ('a, 'e) res" where
  "expect_some x = (case x of None \<Rightarrow> Panic | Some a \<Rightarrow> Ok a)"

lemma bind_res_simps [simp, res_simps]:
  "bind_res (Ok a) f = f a" "bind_res (Err e) f = Err e"
  "bind_res Panic f = Panic" "bind_res Diverge f = Diverge"
  by (simp_all add: bind_res_def)

text \<open>For evaluation a bind is a case distinction, so its continuation waits for the value.\<close>

declare bind_res_def [code_unfold]

lemma map_err_simps [simp, res_simps]:
  "map_err g (Ok a) = Ok a" "map_err g (Err e) = Err (g e)"
  "map_err g Panic = Panic" "map_err g Diverge = Diverge"
  by (simp_all add: map_err_def)

lemma ok_or_simps [simp, res_simps]: "ok_or e None = Err e" "ok_or e (Some a) = Ok a"
  by (simp_all add: ok_or_def)

lemma expect_simps [simp, res_simps]:
  "expect (Ok a) = Ok a" "expect (Err e) = Panic" "expect Panic = Panic" "expect Diverge = Diverge"
  "expect_some None = Panic" "expect_some (Some a) = Ok a"
  by (simp_all add: expect_def expect_some_def)

lemma bind_res_eq_Ok [res_simps]: "bind_res m f = Ok b \<longleftrightarrow> (\<exists>a. m = Ok a \<and> f a = Ok b)"
  by (cases m) auto

lemma bind_res_OkE [elim!]:
  assumes "bind_res m f = Ok b" obtains a where "m = Ok a" "f a = Ok b"
  using assms by (cases m) auto

lemma map_err_eq_Ok [simp, res_simps]: "map_err g m = Ok a \<longleftrightarrow> m = Ok a"
  by (cases m) auto

lemma ok_or_eq_Ok [simp, res_simps]: "ok_or e x = Ok a \<longleftrightarrow> x = Some a"
  by (cases x) auto

lemma expect_eq_Ok [simp, res_simps]: "expect m = Ok a \<longleftrightarrow> m = Ok a"
  by (cases m) auto

lemma expect_some_eq_Ok [simp, res_simps]: "expect_some x = Ok a \<longleftrightarrow> x = Some a"
  by (cases x) auto

text \<open>A chain of guards returns \<open>Ok\<close> exactly when every guard passes.\<close>

lemma guard_eq_Ok [res_simps]:
  "(if c then Err e else x) = Ok a \<longleftrightarrow> \<not> c \<and> x = Ok a"
  "(if c then x else Err e) = Ok a \<longleftrightarrow> c \<and> x = Ok a"
  "(case q of None \<Rightarrow> x | Some (y, z) \<Rightarrow> Err (g y z)) = Ok a \<longleftrightarrow> q = None \<and> x = Ok a"
  "(case q of None \<Rightarrow> Err e | Some y \<Rightarrow> f y) = Ok a \<longleftrightarrow> (\<exists>y. q = Some y \<and> f y = Ok a)"
  by (auto split: option.split)

lemma bind_res_assoc: "bind_res (bind_res m f) g = bind_res m (\<lambda>a. bind_res (f a) g)"
  by (cases m) auto

lemma bind_res_ignore: "bind_res m (\<lambda>_. k) = bind_res (bind_res m (\<lambda>(f, _). Ok f)) (\<lambda>_. k)"
  by (cases m) auto

text \<open>A result that is neither a panic nor a divergence.\<close>

definition returns :: "('a, 'e) res \<Rightarrow> bool" where
  "returns m \<longleftrightarrow> m \<noteq> Panic \<and> m \<noteq> Diverge"

lemma returns_simps [simp]:
  "returns (Ok a)" "returns (Err e)" "\<not> returns Panic" "\<not> returns Diverge"
  by (simp_all add: returns_def)

lemma returns_bind:
  "returns m \<Longrightarrow> (\<And>a. m = Ok a \<Longrightarrow> returns (f a)) \<Longrightarrow> returns (bind_res m f)"
  by (cases m) auto

lemma returns_map_err [simp]: "returns (map_err g m) = returns m"
  by (cases m) auto

lemma returns_ok_or [simp]: "returns (ok_or e x)"
  by (cases x) auto

lemma returnsE:
  assumes "returns m" obtains (Ok) a where "m = Ok a" | (Err) e where "m = Err e"
  using assms by (cases m) auto

lemma returns_Err:
  assumes "returns m" "\<And>a. m \<noteq> Ok a" shows "\<exists>e. m = Err e"
  using assms by (cases m) auto

section \<open>Checked arithmetic\<close>

lemma unat_lt2p: "unat (w :: 'l::len word) < 2 ^ LENGTH('l)"
  by (rule unsigned_less)

definition USIZE_LIMIT :: nat where
  "USIZE_LIMIT = 2 ^ 64"

definition checked_add_usize :: "usize \<Rightarrow> usize \<Rightarrow> usize option" where
  "checked_add_usize a b = (if a + b < USIZE_LIMIT then Some (a + b) else None)"

definition checked_mul_usize :: "usize \<Rightarrow> usize \<Rightarrow> usize option" where
  "checked_mul_usize a b = (if a * b < USIZE_LIMIT then Some (a * b) else None)"

definition checked_add :: "'l::len word \<Rightarrow> 'l word \<Rightarrow> 'l word option" where
  "checked_add a b = (if unat a + unat b < 2 ^ LENGTH('l) then Some (a + b) else None)"

definition checked_sub :: "'l::len word \<Rightarrow> 'l word \<Rightarrow> 'l word option" where
  "checked_sub a b = (if unat b \<le> unat a then Some (a - b) else None)"

definition checked_mul :: "'l::len word \<Rightarrow> 'l word \<Rightarrow> 'l word option" where
  "checked_mul a b = (if unat a * unat b < 2 ^ LENGTH('l) then Some (a * b) else None)"

lemma checked_add_SomeD [checked_simps]:
  fixes a b c :: "'l::len word"
  shows "checked_add a b = Some c \<longleftrightarrow> unat c = unat a + unat b"
  by (auto simp: checked_add_def unat_word_ariths word_unat_eq_iff split: if_splits) (metis unat_lt2p)

lemma checked_add_None [checked_simps]:
  fixes a b :: "'l::len word"
  shows "checked_add a b = None \<longleftrightarrow> 2 ^ LENGTH('l) \<le> unat a + unat b"
  by (auto simp: checked_add_def)

lemma checked_mul_SomeD [checked_simps]:
  fixes a b c :: "'l::len word"
  shows "checked_mul a b = Some c \<longleftrightarrow> unat c = unat a * unat b"
  by (auto simp: checked_mul_def unat_word_ariths word_unat_eq_iff split: if_splits) (metis unat_lt2p)

lemma checked_mul_None [checked_simps]:
  fixes a b :: "'l::len word"
  shows "checked_mul a b = None \<longleftrightarrow> 2 ^ LENGTH('l) \<le> unat a * unat b"
  by (auto simp: checked_mul_def)

lemma checked_sub_SomeD [checked_simps]:
  fixes a b c :: "'l::len word"
  shows "checked_sub a b = Some c \<longleftrightarrow> unat a = unat c + unat b"
  by (auto simp: checked_sub_def unat_sub word_le_nat_alt word_unat_eq_iff
      split: if_splits)

lemma checked_sub_None [checked_simps]:
  fixes a b :: "'l::len word"
  shows "checked_sub a b = None \<longleftrightarrow> unat a < unat b"
  by (auto simp: checked_sub_def)

text \<open>
  Code equations over binary integers, so that concrete runs of the model never count to
  \<open>2 ^ 64\<close> in unary.
\<close>

lemma checked_usize_code [code]:
  "checked_add_usize a b = (if int a + int b < 18446744073709551616 then Some (a + b) else None)"
  "checked_mul_usize a b = (if int a * int b < 18446744073709551616 then Some (a * b) else None)"
proof -
  have "int a + int b < 18446744073709551616 \<longleftrightarrow> a + b < 18446744073709551616"
    "int a * int b < 18446744073709551616 \<longleftrightarrow> a * b < 18446744073709551616"
    by (simp_all flip: of_nat_add of_nat_mult)
  then show "checked_add_usize a b = (if int a + int b < 18446744073709551616 then Some (a + b) else None)"
    "checked_mul_usize a b = (if int a * int b < 18446744073709551616 then Some (a * b) else None)"
    by (simp_all add: checked_add_usize_def checked_mul_usize_def USIZE_LIMIT_def)
qed

lemma checked_word_code [code]:
  fixes a b :: "'l::len word"
  shows "checked_add a b = (if uint a + uint b < 2 ^ LENGTH('l) then Some (a + b) else None)"
    and "checked_sub a b = (if uint b \<le> uint a then Some (a - b) else None)"
    and "checked_mul a b = (if uint a * uint b < 2 ^ LENGTH('l) then Some (a * b) else None)"
proof -
  have "uint a + uint b < 2 ^ LENGTH('l) \<longleftrightarrow> unat a + unat b < 2 ^ LENGTH('l)"
    "uint a * uint b < 2 ^ LENGTH('l) \<longleftrightarrow> unat a * unat b < 2 ^ LENGTH('l)"
    unfolding uint_nat of_nat_add [symmetric] of_nat_mult [symmetric]
    by (simp_all only: of_nat_less_numeral_power_cancel_iff)
  then show "checked_add a b = (if uint a + uint b < 2 ^ LENGTH('l) then Some (a + b) else None)"
    "checked_mul a b = (if uint a * uint b < 2 ^ LENGTH('l) then Some (a * b) else None)"
    by (simp_all add: checked_add_def checked_mul_def)
  show "checked_sub a b = (if uint b \<le> uint a then Some (a - b) else None)"
    unfolding uint_nat checked_sub_def by (simp only: of_nat_le_iff)
qed

text \<open>\<open>usize_from_u32\<close> of \<open>fdt/src/helpers.rs\<close>: a lossless widening.\<close>

definition usize_from_u32 :: "u32 \<Rightarrow> usize" where
  "usize_from_u32 value = unat value"

lemma usize_from_u32_lt: "usize_from_u32 w < 4294967296"
  using unat_lt2p [of w] by (simp add: usize_from_u32_def)

section \<open>Slices and bytes\<close>

definition slice_range :: "'a list \<Rightarrow> nat \<Rightarrow> nat \<Rightarrow> 'a list option" where
  "slice_range xs a b = (if a \<le> b \<and> b \<le> length xs then Some (take (b - a) (drop a xs)) else None)"

definition slice_from :: "'a list \<Rightarrow> nat \<Rightarrow> 'a list option" where
  "slice_from xs a = (if a \<le> length xs then Some (drop a xs) else None)"

lemma slice_range_Some [slice_simps]:
  "slice_range xs a b = Some ys \<longleftrightarrow> a \<le> b \<and> b \<le> length xs \<and> ys = take (b - a) (drop a xs)"
  by (auto simp: slice_range_def)

lemma slice_from_Some [slice_simps]:
  "slice_from xs a = Some ys \<longleftrightarrow> a \<le> length xs \<and> ys = drop a xs"
  by (auto simp: slice_from_def)

text \<open>\<open>iter().position(p)\<close> and \<open>iter().enumerate().find(p)\<close>.\<close>

fun position :: "('a \<Rightarrow> bool) \<Rightarrow> 'a list \<Rightarrow> nat option" where
  "position p [] = None"
| "position p (x # xs) = (if p x then Some 0 else map_option Suc (position p xs))"

definition find_enumerated :: "('a \<Rightarrow> bool) \<Rightarrow> 'a list \<Rightarrow> (nat \<times> 'a) option" where
  "find_enumerated p xs = map_option (\<lambda>i. (i, xs ! i)) (position p xs)"

lemma position_None: "position p xs = None \<longleftrightarrow> (\<forall>x\<in>set xs. \<not> p x)"
  by (induction xs) auto

lemma position_Some:
  "position p xs = Some i \<longleftrightarrow> i < length xs \<and> p (xs ! i) \<and> (\<forall>j<i. \<not> p (xs ! j))"
proof (induction xs arbitrary: i)
  case (Cons x xs)
  show ?case
  proof (cases i)
    case 0
    then show ?thesis by auto
  next
    case (Suc j)
    then show ?thesis using Cons.IH [of j] by (auto simp: nth_Cons' less_Suc_eq_0_disj)
  qed
qed simp

lemma position_append_hit:
  "\<forall>x\<in>set xs. \<not> p x \<Longrightarrow> p y \<Longrightarrow> position p (xs @ y # ys) = Some (length xs)"
  by (induction xs) auto

lemma position_split:
  assumes "position p xs = Some i"
  shows "xs = take i xs @ xs ! i # drop (Suc i) xs" "\<forall>x\<in>set (take i xs). \<not> p x" "p (xs ! i)"
  using assms by (auto simp: position_Some id_take_nth_drop in_set_conv_nth)

lemma find_enumerated_None: "find_enumerated p xs = None \<longleftrightarrow> (\<forall>x\<in>set xs. \<not> p x)"
  by (simp add: find_enumerated_def position_None)

lemma find_enumerated_SomeD: "find_enumerated p xs = Some (i, x) \<Longrightarrow> x \<in> set xs \<and> p x"
  by (auto simp: find_enumerated_def position_Some)

text \<open>Big-endian decoding.\<close>

definition be_value :: "bytes \<Rightarrow> nat" where
  "be_value bs = foldl (\<lambda>a b. a * 256 + unat b) 0 bs"

definition u32_from_be_bytes :: "bytes \<Rightarrow> u32" where
  "u32_from_be_bytes bs = word_of_nat (be_value bs)"

definition u64_from_be_bytes :: "bytes \<Rightarrow> u64" where
  "u64_from_be_bytes bs = word_of_nat (be_value bs)"

lemma of_nat_be_fold:
  "word_of_nat (foldl (\<lambda>a b. a * 256 + unat b) n bs) =
     foldl (\<lambda>a b. a * 256 + ucast (b :: u8)) (word_of_nat n :: 'l::len word) bs"
proof (induction bs arbitrary: n)
  case (Cons b bs)
  then show ?case using Cons [of "n * 256 + unat b"] by simp
qed simp

lemma from_be_bytes_code [code]:
  "u32_from_be_bytes bs = foldl (\<lambda>a b. a * 256 + ucast b) 0 bs"
  "u64_from_be_bytes bs = foldl (\<lambda>a b. a * 256 + ucast b) 0 bs"
  by (simp_all add: u32_from_be_bytes_def u64_from_be_bytes_def be_value_def of_nat_be_fold)

lemma be_value_snoc: "be_value (bs @ [b]) = be_value bs * 256 + unat b"
  by (simp add: be_value_def)

lemma be_value_lt: "be_value bs < 256 ^ length bs"
proof (induction bs rule: rev_induct)
  case Nil
  show ?case by (simp add: be_value_def)
next
  case (snoc b bs)
  then show ?case using unat_lt2p [of b] by (simp add: be_value_snoc)
qed

lemma unat_u32_from_be_bytes: "length bs = 4 \<Longrightarrow> unat (u32_from_be_bytes bs) = be_value bs"
  using be_value_lt [of bs] by (simp add: u32_from_be_bytes_def unat_of_nat)

lemma unat_u64_from_be_bytes: "length bs = 8 \<Longrightarrow> unat (u64_from_be_bytes bs) = be_value bs"
  using be_value_lt [of bs] by (simp add: u64_from_be_bytes_def unat_of_nat)

text \<open>Big-endian encoding in \<open>n\<close> bytes, the inverse of decoding.\<close>

fun to_be_bytes :: "nat \<Rightarrow> nat \<Rightarrow> bytes" where
  "to_be_bytes 0 v = []"
| "to_be_bytes (Suc n) v = to_be_bytes n (v div 256) @ [word_of_nat v]"

lemma length_to_be_bytes [simp]: "length (to_be_bytes n v) = n"
  by (induction n arbitrary: v) auto

lemma be_value_to_be_bytes: "be_value (to_be_bytes n v) = v mod 256 ^ n"
proof (induction n arbitrary: v)
  case 0
  show ?case by (simp add: be_value_def)
next
  case (Suc n)
  then show ?case
    by (simp add: be_value_snoc unat_of_nat mod_mult2_eq)
qed

lemma to_be_bytes_be_value: "to_be_bytes (length bs) (be_value bs) = bs"
proof (induction bs rule: rev_induct)
  case (snoc b bs)
  have "unat b < 256" using unat_lt2p [of b] by simp
  moreover have "(word_of_nat (be_value bs * 256 + unat b) :: u8) = b"
    using \<open>unat b < 256\<close> by (simp add: word_unat_eq_iff unat_of_nat del: of_nat_add of_nat_mult)
  ultimately show ?case using snoc by (simp add: be_value_snoc)
qed simp

definition u32_to_be_bytes :: "u32 \<Rightarrow> bytes" where
  "u32_to_be_bytes w = to_be_bytes 4 (unat w)"

definition u64_to_be_bytes :: "u64 \<Rightarrow> bytes" where
  "u64_to_be_bytes w = to_be_bytes 8 (unat w)"

lemma length_u32_to_be_bytes [simp]: "length (u32_to_be_bytes w) = 4"
  by (simp add: u32_to_be_bytes_def)

lemma length_u64_to_be_bytes [simp]: "length (u64_to_be_bytes w) = 8"
  by (simp add: u64_to_be_bytes_def)

lemma u32_from_to_be_bytes [simp]: "u32_from_be_bytes (u32_to_be_bytes w) = w"
  using unat_lt2p [of w]
  by (simp add: u32_from_be_bytes_def u32_to_be_bytes_def be_value_to_be_bytes)

lemma u64_from_to_be_bytes [simp]: "u64_from_be_bytes (u64_to_be_bytes w) = w"
  using unat_lt2p [of w]
  by (simp add: u64_from_be_bytes_def u64_to_be_bytes_def be_value_to_be_bytes)

lemma u32_to_from_be_bytes: "length bs = 4 \<Longrightarrow> u32_to_be_bytes (u32_from_be_bytes bs) = bs"
  using to_be_bytes_be_value [of bs] by (simp add: u32_to_be_bytes_def unat_u32_from_be_bytes)

lemma u64_to_from_be_bytes: "length bs = 8 \<Longrightarrow> u64_to_be_bytes (u64_from_be_bytes bs) = bs"
  using to_be_bytes_be_value [of bs] by (simp add: u64_to_be_bytes_def unat_u64_from_be_bytes)

section \<open>Loops\<close>

text \<open>
  One iteration of a loop either goes on with a new state or breaks with a value.  \<open>loop_fuel\<close>
  runs at most \<open>n\<close> iterations; \<open>run m step s\<close> gives it as many as the measure \<open>m\<close> of the
  start state allows.  For a step that decreases the measure, from every state or from those that
  satisfy an invariant it keeps, this is the loop itself (\<open>run_unfold\<close>), and it never returns
  \<open>Diverge\<close> of its own.
\<close>

datatype ('s, 'b) flow = Continue 's | Break 'b

fun loop_fuel :: "nat \<Rightarrow> ('s \<Rightarrow> (('s, 'b) flow, 'e) res) \<Rightarrow> 's \<Rightarrow> ('b, 'e) res" where
  "loop_fuel 0 step s = Diverge"
| "loop_fuel (Suc n) step s =
     bind_res (step s) (\<lambda>f. case f of Continue s' \<Rightarrow> loop_fuel n step s' | Break b \<Rightarrow> Ok b)"

definition run :: "('s \<Rightarrow> nat) \<Rightarrow> ('s \<Rightarrow> (('s, 'b) flow, 'e) res) \<Rightarrow> 's \<Rightarrow> ('b, 'e) res" where
  "run m step s = loop_fuel (Suc (m s)) step s"

text \<open>The same loop with its fuel in binary, for the evaluation of loops with a large measure.\<close>

function loop_int :: "int \<Rightarrow> ('s \<Rightarrow> (('s, 'b) flow, 'e) res) \<Rightarrow> 's \<Rightarrow> ('b, 'e) res" where
  "loop_int i step s =
     (if i \<le> 0 then Diverge else
      case step s of
        Ok f \<Rightarrow> (case f of Continue s' \<Rightarrow> loop_int (i - 1) step s' | Break b \<Rightarrow> Ok b)
      | Err e \<Rightarrow> Err e | Panic \<Rightarrow> Panic | Diverge \<Rightarrow> Diverge)"
  by pat_completeness auto
termination by (relation "measure (\<lambda>(i, _). nat i)") auto

declare loop_int.simps [simp del]

lemma loop_int_eq: "loop_int (int n) step s = loop_fuel n step s"
proof (induction n arbitrary: s)
  case (Suc n)
  then show ?case by (subst loop_int.simps) (auto split: res.split flow.split)
qed (simp add: loop_int.simps)

lemma run_loop_int: "run m step s = loop_int (int (m s) + 1) step s"
  using loop_int_eq [of "Suc (m s)" step s] by (simp add: run_def add.commute)

locale invariant_loop =
  fixes I :: "'s \<Rightarrow> bool"
    and m :: "'s \<Rightarrow> nat"
    and step :: "'s \<Rightarrow> (('s, 'b) flow, 'e) res"
  assumes inv_step: "I s \<Longrightarrow> step s = Ok (Continue s') \<Longrightarrow> I s' \<and> m s' < m s"
begin

lemma loop_fuel_enough:
  "I s \<Longrightarrow> m s < n \<Longrightarrow> m s < n' \<Longrightarrow> loop_fuel n step s = loop_fuel n' step s"
proof (induction n arbitrary: s n')
  case (Suc n)
  from Suc.prems(3) obtain k where n': "n' = Suc k" by (cases n') auto
  show ?case
  proof (cases "step s")
    case (Ok f)
    show ?thesis
    proof (cases f)
      case (Continue s')
      with Ok inv_step [OF Suc.prems(1)] have "I s'" "m s' < m s" by auto
      with Suc.prems n' have "m s' < n" "m s' < k" by simp_all
      then show ?thesis using Suc.IH [OF \<open>I s'\<close>, of k] Ok Continue n' by simp
    qed (simp add: Ok n')
  qed (simp_all add: n')
qed simp

lemma run_unfold:
  assumes "I s"
  shows "run m step s =
     bind_res (step s) (\<lambda>f. case f of Continue s' \<Rightarrow> run m step s' | Break b \<Rightarrow> Ok b)"
proof (cases "step s")
  case (Ok f)
  show ?thesis
  proof (cases f)
    case (Continue s')
    with Ok inv_step [OF assms] have "I s'" "m s' < m s" by auto
    then have "loop_fuel (m s) step s' = loop_fuel (Suc (m s')) step s'"
      by (intro loop_fuel_enough) auto
    with Ok Continue show ?thesis by (simp add: run_def)
  qed (simp add: run_def Ok)
qed (simp_all add: run_def)

lemma run_induct [consumes 1, case_names step]:
  assumes "I s" and "\<And>s. I s \<Longrightarrow> (\<And>s'. step s = Ok (Continue s') \<Longrightarrow> P s') \<Longrightarrow> P s"
  shows "P s"
  using assms(1)
proof (induction "m s" arbitrary: s rule: less_induct)
  case less
  show ?case by (rule assms(2) [OF less.prems]) (use inv_step [OF less.prems] less.hyps in blast)
qed

end

text \<open>Most loops decrease their measure in every state.\<close>

locale decreasing_loop =
  fixes m :: "'s \<Rightarrow> nat"
    and step :: "'s \<Rightarrow> (('s, 'b) flow, 'e) res"
  assumes decreases: "step s = Ok (Continue s') \<Longrightarrow> m s' < m s"

sublocale decreasing_loop \<subseteq> always: invariant_loop "\<lambda>_. True" m step
  by unfold_locales (simp add: decreases)

context decreasing_loop
begin

lemmas run_unfold = always.run_unfold [OF TrueI]

lemma run_induct [case_names step]:
  assumes "\<And>s. (\<And>s'. step s = Ok (Continue s') \<Longrightarrow> P s') \<Longrightarrow> P s"
  shows "P s"
  using always.run_induct [OF TrueI, of P s] assms by blast

text \<open>A bound every break respects holds of the whole loop.\<close>

lemma run_break_bound:
  assumes "\<And>s b. step s = Ok (Break b) \<Longrightarrow> stop b \<or> g b < m s" and "run m step s = Ok b"
  shows "stop b \<or> g b < m s"
  using assms(2)
proof (induction s rule: run_induct)
  case (step s)
  from step.prems obtain f where f: "step s = Ok f"
      "(case f of Continue s' \<Rightarrow> run m step s' | Break b \<Rightarrow> Ok b) = Ok b"
    by (subst (asm) run_unfold) auto
  then show ?case using step.IH assms(1) decreases by (cases f) fastforce+
qed

lemma run_returns:
  assumes "I s" and "\<And>s. I s \<Longrightarrow> returns (step s)"
    and "\<And>s s'. I s \<Longrightarrow> step s = Ok (Continue s') \<Longrightarrow> I s'"
  shows "returns (run m step s)"
  using assms(1)
proof (induction s rule: run_induct)
  case (step s)
  show ?case
    by (subst run_unfold) (auto intro!: returns_bind assms(2) step split: flow.split intro: assms(3))
qed

end

section \<open>Iterators\<close>

text \<open>
  An iterator is a state and a \<open>next\<close> operation.  \<open>yields nxt s xs\<close> says that, started in
  \<open>s\<close>, it produces exactly the items \<open>xs\<close> without failing, and stays exhausted after them.  A \<open>for\<close> loop over it is
  \<open>for_in\<close>, which also returns the iterator's final state, as \<open>by_ref\<close> needs it;
  \<open>fold_flow\<close> is the same loop over the list of items.
\<close>

type_synonym ('s, 'a, 'e) iter_next = "'s \<Rightarrow> ('a option \<times> 's, 'e) res"

inductive yields :: "('s, 'a, 'e) iter_next \<Rightarrow> 's \<Rightarrow> 'a list \<Rightarrow> bool" for nxt where
  yields_done: "nxt s = Ok (None, s') \<Longrightarrow> nxt s' = Ok (None, s') \<Longrightarrow> yields nxt s []"
| yields_more: "nxt s = Ok (Some x, s') \<Longrightarrow> yields nxt s' xs \<Longrightarrow> yields nxt s (x # xs)"

inductive_cases yields_NilE: "yields nxt s []"
inductive_cases yields_ConsE: "yields nxt s (x # xs)"

definition for_step ::
    "('s, 'a, 'e) iter_next \<Rightarrow> ('a \<Rightarrow> 'c \<Rightarrow> (('c, 'b) flow, 'e) res)
      \<Rightarrow> 's \<times> 'c \<Rightarrow> (('s \<times> 'c, ('c, 'b) flow \<times> 's) flow, 'e) res" where
  "for_step nxt body = (\<lambda>(s, acc).
     bind_res (nxt s) (\<lambda>(item, s'). case item of
         None \<Rightarrow> Ok (Break (Continue acc, s'))
       | Some x \<Rightarrow> bind_res (body x acc) (\<lambda>f. case f of
             Continue acc' \<Rightarrow> Ok (Continue (s', acc'))
           | Break b \<Rightarrow> Ok (Break (Break b, s')))))"

definition for_in ::
    "('s \<Rightarrow> nat) \<Rightarrow> ('s, 'a, 'e) iter_next \<Rightarrow> ('a \<Rightarrow> 'c \<Rightarrow> (('c, 'b) flow, 'e) res)
      \<Rightarrow> 's \<Rightarrow> 'c \<Rightarrow> (('c, 'b) flow \<times> 's, 'e) res" where
  "for_in m nxt body s acc = run (\<lambda>(s, acc). m s) (for_step nxt body) (s, acc)"

fun fold_flow :: "('a \<Rightarrow> 'c \<Rightarrow> (('c, 'b) flow, 'e) res) \<Rightarrow> 'a list \<Rightarrow> 'c \<Rightarrow> (('c, 'b) flow, 'e) res" where
  "fold_flow body [] acc = Ok (Continue acc)"
| "fold_flow body (x # xs) acc =
     bind_res (body x acc) (\<lambda>f. case f of
         Continue acc' \<Rightarrow> fold_flow body xs acc'
       | Break b \<Rightarrow> Ok (Break b))"

definition iter_find :: "('s \<Rightarrow> nat) \<Rightarrow> ('s, 'a, 'e) iter_next \<Rightarrow> ('a \<Rightarrow> bool) \<Rightarrow> 's
    \<Rightarrow> ('a option \<times> 's, 'e) res" where
  "iter_find m nxt p s =
     bind_res (for_in m nxt (\<lambda>x (_::unit). Ok (if p x then Break x else Continue ())) s ())
       (\<lambda>(f, s'). Ok (case f of Continue _ \<Rightarrow> None | Break x \<Rightarrow> Some x, s'))"

text \<open>A \<open>for\<close> loop that only checks: it stops at the first error.\<close>

definition for_each :: "('s \<Rightarrow> nat) \<Rightarrow> ('s, 'a, 'e) iter_next \<Rightarrow> ('a \<Rightarrow> (unit, 'e) res) \<Rightarrow> 's \<Rightarrow> (unit, 'e) res" where
  "for_each m nxt f s =
     bind_res (for_in m nxt (\<lambda>x (_::unit). bind_res (f x) (\<lambda>_. Ok (Continue () :: (unit, unit) flow))) s ())
       (\<lambda>_. Ok ())"

lemma fold_flow_each:
  "(\<exists>g. fold_flow (\<lambda>x (_::unit). bind_res (f x) (\<lambda>_. Ok (Continue () :: (unit, unit) flow))) xs () = Ok g) \<longleftrightarrow>
     (\<forall>x\<in>set xs. f x = Ok ())"
  "(\<forall>x\<in>set xs. returns (f x)) \<Longrightarrow>
     returns (fold_flow (\<lambda>x (_::unit). bind_res (f x) (\<lambda>_. Ok (Continue () :: (unit, unit) flow))) xs ())"
proof (induction xs)
  case (Cons x xs)
  { case 1 then show ?case using Cons.IH(1) by (cases "f x") auto }
  { case 2 then show ?case using Cons.IH(2) by (cases "f x") auto }
qed simp_all

text \<open>The same loop over a list, also giving the items it left.\<close>

fun fold_flow_rest ::
    "('a \<Rightarrow> 'c \<Rightarrow> (('c, 'b) flow, 'e) res) \<Rightarrow> 'a list \<Rightarrow> 'c \<Rightarrow> (('c, 'b) flow \<times> 'a list, 'e) res" where
  "fold_flow_rest body [] acc = Ok (Continue acc, [])"
| "fold_flow_rest body (x # xs) acc =
     bind_res (body x acc) (\<lambda>f. case f of
         Continue acc' \<Rightarrow> fold_flow_rest body xs acc'
       | Break b \<Rightarrow> Ok (Break b, xs))"

lemma fold_flow_rest_fst: "bind_res (fold_flow_rest body xs acc) (\<lambda>(f, _). Ok f) = fold_flow body xs acc"
proof (induction xs arbitrary: acc)
  case (Cons x xs)
  then show ?case by (cases "body x acc") (auto split: flow.split)
qed simp

text \<open>
  For any iterator, fuel for as many rounds as there are items is enough.
\<close>

lemma loop_fuel_for_rest:
  assumes "yields nxt s xs" "length xs < n"
  shows "case fold_flow_rest body xs acc of
      Ok (f, zs) \<Rightarrow> \<exists>s'. loop_fuel n (for_step nxt body) (s, acc) = Ok (f, s') \<and> yields nxt s' zs
    | Err e \<Rightarrow> loop_fuel n (for_step nxt body) (s, acc) = Err e
    | Panic \<Rightarrow> loop_fuel n (for_step nxt body) (s, acc) = Panic
    | Diverge \<Rightarrow> loop_fuel n (for_step nxt body) (s, acc) = Diverge"
  using assms
proof (induction arbitrary: acc n rule: yields.induct)
  case (yields_done s s')
  then obtain k where "n = Suc k" by (cases n) auto
  with yields_done show ?case by (auto simp: for_step_def intro: yields.yields_done)
next
  case (yields_more s x s' xs)
  then obtain k where n: "n = Suc k" "length xs < k" by (cases n) auto
  show ?case
  proof (cases "body x acc")
    case (Ok f)
    show ?thesis
    proof (cases f)
      case (Continue acc')
      with Ok yields_more.hyps(1) n have eq: "loop_fuel n (for_step nxt body) (s, acc) = loop_fuel k (for_step nxt body) (s', acc')"
        by (simp add: for_step_def)
      show ?thesis unfolding eq using Ok Continue yields_more.IH [OF n(2), of acc'] by simp
    qed (use Ok yields_more n in \<open>auto simp: for_step_def\<close>)
  qed (use yields_more n in \<open>simp_all add: for_step_def\<close>)
qed

lemma for_in_rest:
  assumes "yields nxt s xs" "length xs \<le> m s" "fold_flow_rest body xs acc = Ok (f, zs)"
  shows "\<exists>s'. for_in m nxt body s acc = Ok (f, s') \<and> yields nxt s' zs"
  using loop_fuel_for_rest [OF assms(1), of "Suc (m s)" body acc] assms(2,3)
  by (simp add: for_in_def run_def del: loop_fuel.simps)

lemma for_in_fold:
  assumes "yields nxt s xs" "length xs \<le> m s"
  shows "bind_res (for_in m nxt body s acc) (\<lambda>(f, _). Ok f) = fold_flow body xs acc"
  using loop_fuel_for_rest [OF assms(1), of "Suc (m s)" body acc] assms(2) fold_flow_rest_fst [of body xs acc]
  unfolding for_in_def run_def
  by (cases "fold_flow_rest body xs acc") (auto simp del: loop_fuel.simps)

text \<open>
  A search loop: \<open>first_split h xs\<close> is the first hit of \<open>h\<close> and the items after it.
\<close>

fun first_split :: "('a \<Rightarrow> 'b option) \<Rightarrow> 'a list \<Rightarrow> ('b \<times> 'a list) option" where
  "first_split h [] = None"
| "first_split h (x # xs) = (case h x of None \<Rightarrow> first_split h xs | Some b \<Rightarrow> Some (b, xs))"

lemma for_in_first:
  assumes "yields nxt s xs" "length xs \<le> m s"
    "\<And>x. x \<in> set xs \<Longrightarrow> body x () = Ok (case h x of None \<Rightarrow> Continue () | Some b \<Rightarrow> Break b)"
  shows "\<exists>s'. for_in m nxt body s () =
      Ok (case first_split h xs of None \<Rightarrow> Continue () | Some (b, _) \<Rightarrow> Break b, s') \<and>
    yields nxt s' (case first_split h xs of None \<Rightarrow> [] | Some (_, zs) \<Rightarrow> zs)"
proof (rule for_in_rest [where m = m, OF assms(1,2)])
  show "fold_flow_rest body xs () =
      Ok (case first_split h xs of None \<Rightarrow> Continue () | Some (b, _) \<Rightarrow> Break b,
          case first_split h xs of None \<Rightarrow> [] | Some (_, zs) \<Rightarrow> zs)"
    using assms(3) by (induction xs) (auto split: option.splits)
qed

lemma first_split_find:
  "map_option fst (first_split (\<lambda>x. if p x then Some (g x) else None) xs) = map_option g (List.find p xs)"
  by (induction xs) auto

text \<open>\<open>Iterator::skip\<close>, and the items an iterator still has.\<close>

fun iter_nth :: "('s, 'a, 'e) iter_next \<Rightarrow> nat \<Rightarrow> 's \<Rightarrow> ('a option \<times> 's, 'e) res" where
  "iter_nth nxt 0 s = nxt s"
| "iter_nth nxt (Suc n) s =
     bind_res (nxt s) (\<lambda>(x, s'). case x of None \<Rightarrow> Ok (None, s') | Some _ \<Rightarrow> iter_nth nxt n s')"

definition skip_next :: "('s, 'a, 'e) iter_next \<Rightarrow> (nat \<times> 's, 'a, 'e) iter_next" where
  "skip_next nxt = (\<lambda>(n, s). bind_res (iter_nth nxt n s) (\<lambda>(x, s'). Ok (x, (0, s'))))"

fun collect :: "nat \<Rightarrow> ('s, 'a, 'e) iter_next \<Rightarrow> 's \<Rightarrow> 'a list" where
  "collect 0 nxt s = []"
| "collect (Suc n) nxt s = (case nxt s of Ok (Some x, s') \<Rightarrow> x # collect n nxt s' | _ \<Rightarrow> [])"

lemma collect_yields: "yields nxt s xs \<Longrightarrow> length xs \<le> n \<Longrightarrow> collect n nxt s = xs"
proof (induction arbitrary: n rule: yields.induct)
  case (yields_done s s')
  then show ?case by (cases n) auto
next
  case (yields_more s x s' xs)
  then show ?case by (cases n) auto
qed

lemma skip_next_0: "yields nxt s xs \<Longrightarrow> yields (skip_next nxt) (0, s) xs"
  by (induction rule: yields.induct) (auto simp: skip_next_def intro: yields.intros)

lemma skip_next_yields: "yields nxt s xs \<Longrightarrow> yields (skip_next nxt) (n, s) (drop n xs)"
proof (induction arbitrary: n rule: yields.induct)
  case (yields_done s s')
  then show ?case by (cases n) (auto simp: skip_next_def intro!: yields.yields_done)
next
  case (yields_more s x s' xs)
  show ?case
  proof (cases n)
    case 0
    with yields_more skip_next_0 [of nxt s "x # xs"] show ?thesis by (auto intro: yields.yields_more)
  next
    case (Suc k)
    have "skip_next nxt (n, s) = skip_next nxt (k, s')" using yields_more.hyps(1) Suc by (simp add: skip_next_def)
    with yields_more.IH [of k] Suc show ?thesis by (subst yields.simps) (simp add: yields.simps [of _ "(k, s')"])
  qed
qed

locale iterator =
  fixes m :: "'s \<Rightarrow> nat"
    and nxt :: "('s, 'a, 'e) iter_next"
  assumes next_decreases: "nxt s = Ok (Some x, s') \<Longrightarrow> m s' < m s"
begin

lemma for_decreasing: "decreasing_loop (\<lambda>(s, acc). m s) (for_step nxt body)"
proof
  fix s s'
  assume "for_step nxt body s = Ok (Continue s')"
  then obtain x where "nxt (fst s) = Ok (Some x, fst s')"
    by (auto simp: for_step_def bind_res_def split: prod.splits res.splits option.splits flow.splits)
  then show "(case s' of (s, acc) \<Rightarrow> m s) < (case s of (s, acc) \<Rightarrow> m s)"
    using next_decreases by (auto split: prod.split)
qed

lemma for_in_unfold:
  "for_in m nxt body s acc =
     bind_res (nxt s) (\<lambda>(item, s'). case item of
         None \<Rightarrow> Ok (Continue acc, s')
       | Some x \<Rightarrow> bind_res (body x acc) (\<lambda>f. case f of
             Continue acc' \<Rightarrow> for_in m nxt body s' acc'
           | Break b \<Rightarrow> Ok (Break b, s')))"
  unfolding for_in_def
  by (subst decreasing_loop.run_unfold [OF for_decreasing])
    (auto simp: for_step_def bind_res_assoc bind_res_def split: res.splits option.splits flow.splits)

text \<open>A loop over a well-behaved iterator is the loop over its items.\<close>

lemma for_in_yields:
  assumes "yields nxt s xs"
  shows "bind_res (for_in m nxt body s acc) (\<lambda>(f, _). Ok f) = fold_flow body xs acc"
  using assms
proof (induction arbitrary: acc rule: yields.induct)
  case (yields_done s s')
  then show ?case by (simp add: for_in_unfold)
next
  case (yields_more s x s' xs)
  then show ?case
    by (subst for_in_unfold)
      (cases "body x acc", auto simp: bind_res_assoc split: flow.split)
qed

lemma for_each_yields:
  assumes "yields nxt s xs"
  shows "for_each m nxt f s = Ok () \<longleftrightarrow> (\<forall>x\<in>set xs. f x = Ok ())"
    and "(\<forall>x\<in>set xs. returns (f x)) \<Longrightarrow> returns (for_each m nxt f s)"
proof -
  let ?body = "\<lambda>x (_::unit). bind_res (f x) (\<lambda>_. Ok (Continue () :: (unit, unit) flow))"
  let ?for = "for_in m nxt ?body s ()"
  have eq: "bind_res ?for (\<lambda>(f, _). Ok f) = fold_flow ?body xs ()" by (rule for_in_yields [OF assms])
  have "for_each m nxt f s = Ok () \<longleftrightarrow> (\<exists>g. bind_res ?for (\<lambda>(f, _). Ok f) = Ok g)"
    unfolding for_each_def by (cases ?for) auto
  then show "for_each m nxt f s = Ok () \<longleftrightarrow> (\<forall>x\<in>set xs. f x = Ok ())"
    unfolding eq fold_flow_each(1) .
  have "returns (for_each m nxt f s) \<longleftrightarrow> returns (bind_res ?for (\<lambda>(f, _). Ok f))"
    unfolding for_each_def by (cases ?for) auto
  then show "(\<forall>x\<in>set xs. returns (f x)) \<Longrightarrow> returns (for_each m nxt f s)"
    unfolding eq using fold_flow_each(2) by blast
qed

lemma iter_find_unfold:
  "iter_find m nxt p s =
     bind_res (nxt s) (\<lambda>(item, s'). case item of
         None \<Rightarrow> Ok (None, s')
       | Some x \<Rightarrow> if p x then Ok (Some x, s') else iter_find m nxt p s')"
  unfolding iter_find_def
  by (subst for_in_unfold)
    (auto simp: bind_res_def split: res.splits option.splits flow.splits)

lemma iter_find_decreases: "iter_find m nxt p s = Ok (Some x, s') \<Longrightarrow> m s' < m s"
proof (induction "m s" arbitrary: s rule: less_induct)
  case less
  from less.prems obtain y s1 where y: "nxt s = Ok (Some y, s1)"
      "(if p y then Ok (Some y, s1) else iter_find m nxt p s1) = Ok (Some x, s')"
    by (subst (asm) iter_find_unfold) (auto split: option.splits)
  with next_decreases [OF y(1)] less.hyps [of s1] show ?case by (force split: if_splits)
qed

lemma iter_find_miss:
  assumes "yields nxt s xs" "\<forall>x\<in>set xs. \<not> p x"
  shows "\<exists>s'. iter_find m nxt p s = Ok (None, s')"
  using assms
proof (induction rule: yields.induct)
  case (yields_done s s')
  then show ?case by (simp add: iter_find_unfold)
next
  case (yields_more s x s' xs)
  then show ?case by (subst iter_find_unfold) simp
qed

lemma iter_find_hit:
  assumes "yields nxt s (xs @ y # ys)" "\<forall>x\<in>set xs. \<not> p x" "p y"
  shows "\<exists>s'. iter_find m nxt p s = Ok (Some y, s') \<and> yields nxt s' ys"
  using assms
proof (induction xs arbitrary: s)
  case Nil
  then show ?case by (subst iter_find_unfold) (auto elim!: yields_ConsE)
next
  case (Cons x xs)
  then obtain s' where "nxt s = Ok (Some x, s')" "yields nxt s' (xs @ y # ys)"
    by (auto elim!: yields_ConsE)
  with Cons show ?case by (subst iter_find_unfold) simp
qed

lemma iter_find_yields:
  assumes "yields nxt s xs"
  shows "\<exists>s'. iter_find m nxt p s = Ok (List.find p xs, s')"
proof (cases "List.find p xs")
  case None
  with assms iter_find_miss [of s xs p] show ?thesis by (metis find_None_iff)
next
  case (Some y)
  then obtain i where "i < length xs" "p (xs ! i)" "y = xs ! i" "\<forall>j<i. \<not> p (xs ! j)"
    by (auto simp: find_Some_iff)
  then have "xs = take i xs @ y # drop (Suc i) xs" "\<forall>x\<in>set (take i xs). \<not> p x" "p y"
    by (auto simp: id_take_nth_drop in_set_conv_nth)
  with assms iter_find_hit [of s "take i xs" y "drop (Suc i) xs" p] Some show ?thesis by auto
qed

end

end
