(* ===== verification/Header.thy ===== *)
theory Header
  imports Prelude
begin

text \<open>
  The fixed-size header of \<open>fdt/src/header.rs\<close>.  \<open>header_new\<close> follows the checks of
  \<open>Header::new\<close> in their order.  \<open>header_new_eq_Ok\<close> characterises acceptance exactly, and
  \<open>header_wf\<close> collects the layout guarantees the other modules index slices with.
\<close>

section \<open>Model\<close>

definition HEADER_SIZE :: usize where "HEADER_SIZE = 40"
definition FDT_MAGIC :: u32 where "FDT_MAGIC = 0xd00dfeed"
definition SUPPORTED_VERSION :: u32 where "SUPPORTED_VERSION = 17"
definition EXPECTED_LAST_COMPATIBLE_VERSION :: u32 where "EXPECTED_LAST_COMPATIBLE_VERSION = 16"

datatype HeaderField =
    Magic | TotalSize | StructureOffset | StringsOffset | ReservationOffset | Version
  | LastCompatibleVersion | BootCpuIdPhys | StringsSize | StructureSize

fun field_offset :: "HeaderField \<Rightarrow> usize" where
  "field_offset Magic = 0"
| "field_offset TotalSize = 4"
| "field_offset StructureOffset = 8"
| "field_offset StringsOffset = 12"
| "field_offset ReservationOffset = 16"
| "field_offset Version = 20"
| "field_offset LastCompatibleVersion = 24"
| "field_offset BootCpuIdPhys = 28"
| "field_offset StringsSize = 32"
| "field_offset StructureSize = 36"

datatype BlockKind = MemoryReservationBlock | StructureBlock | StringsBlock

datatype HeaderError =
    InvalidMagic u32
  | TotalSizeTooSmall usize usize
  | UnsupportedVersion u32 u32
  | MisalignedBlock BlockKind usize usize
  | BlockOffsetInsideHeader BlockKind usize usize
  | BlockOffsetOutOfBounds BlockKind usize usize
  | BlockOutOfBounds BlockKind usize usize usize
  | BlocksOverlap BlockKind BlockKind
  | BlockOffsetInsideBlock BlockKind BlockKind usize

text \<open>A half-open \<open>Range<usize>\<close>: start and end.\<close>

type_synonym urange = "usize \<times> usize"

record header =
  hd_total_size :: usize
  hd_structure_range :: urange
  hd_strings_range :: urange
  hd_off_mem_rsvmap :: usize
  hd_version :: u32
  hd_last_comp_version :: u32
  hd_boot_cpuid_phys :: u32

definition read_be_u32 :: "bytes \<Rightarrow> HeaderField \<Rightarrow> u32" where
  "read_be_u32 bs field = (let offset = field_offset field in
     u32_from_be_bytes [bs ! offset, bs ! (offset + 1), bs ! (offset + 2), bs ! (offset + 3)])"

definition read_be_u32_as_usize :: "bytes \<Rightarrow> HeaderField \<Rightarrow> usize" where
  "read_be_u32_as_usize bs field = usize_from_u32 (read_be_u32 bs field)"

definition block_range :: "BlockKind \<Rightarrow> usize \<Rightarrow> usize \<Rightarrow> usize \<Rightarrow> (urange, HeaderError) res" where
  "block_range block offset sz total_size =
     (case checked_add_usize offset sz of
        None \<Rightarrow> Err (BlockOutOfBounds block offset sz total_size)
      | Some stop \<Rightarrow>
          if stop > total_size then Err (BlockOutOfBounds block offset sz total_size)
          else Ok (offset, stop))"

definition range_contains :: "urange \<Rightarrow> usize \<Rightarrow> bool" where
  "range_contains r x \<longleftrightarrow> fst r \<le> x \<and> x < snd r"

definition header_new :: "bytes \<Rightarrow> (header, HeaderError) res" where
  "header_new bs = (
     let magic = read_be_u32 bs Magic in
     if magic \<noteq> FDT_MAGIC then Err (InvalidMagic magic) else
     let total_size = read_be_u32_as_usize bs TotalSize;
         off_dt_struct = read_be_u32_as_usize bs StructureOffset;
         off_dt_strings = read_be_u32_as_usize bs StringsOffset;
         off_mem_rsvmap = read_be_u32_as_usize bs ReservationOffset;
         version = read_be_u32 bs Version;
         last_comp_version = read_be_u32 bs LastCompatibleVersion;
         boot_cpuid_phys = read_be_u32 bs BootCpuIdPhys;
         size_dt_strings = read_be_u32_as_usize bs StringsSize;
         size_dt_struct = read_be_u32_as_usize bs StructureSize in
     if total_size < HEADER_SIZE then Err (TotalSizeTooSmall total_size HEADER_SIZE) else
     if version \<noteq> SUPPORTED_VERSION \<or> last_comp_version \<noteq> EXPECTED_LAST_COMPATIBLE_VERSION
     then Err (UnsupportedVersion version last_comp_version) else
     if off_mem_rsvmap mod 8 \<noteq> 0 then Err (MisalignedBlock MemoryReservationBlock off_mem_rsvmap 8) else
     if off_dt_struct mod 4 \<noteq> 0 then Err (MisalignedBlock StructureBlock off_dt_struct 4) else
     case List.find (\<lambda>(block, offset). offset < HEADER_SIZE)
            [(MemoryReservationBlock, off_mem_rsvmap), (StructureBlock, off_dt_struct),
             (StringsBlock, off_dt_strings)] of
       Some (block, offset) \<Rightarrow> Err (BlockOffsetInsideHeader block offset HEADER_SIZE)
     | None \<Rightarrow>
         if off_mem_rsvmap > total_size
         then Err (BlockOffsetOutOfBounds MemoryReservationBlock off_mem_rsvmap total_size) else
         bind_res (block_range StructureBlock off_dt_struct size_dt_struct total_size) (\<lambda>structure_range.
         bind_res (block_range StringsBlock off_dt_strings size_dt_strings total_size) (\<lambda>strings_range.
         if fst structure_range < snd strings_range \<and> fst strings_range < snd structure_range
         then Err (BlocksOverlap StructureBlock StringsBlock) else
         case List.find (\<lambda>(containing, rng). range_contains rng off_mem_rsvmap)
                [(StructureBlock, structure_range), (StringsBlock, strings_range)] of
           Some (containing, rng) \<Rightarrow>
             Err (BlockOffsetInsideBlock MemoryReservationBlock containing off_mem_rsvmap)
         | None \<Rightarrow>
             Ok \<lparr>hd_total_size = total_size, hd_structure_range = structure_range,
                 hd_strings_range = strings_range, hd_off_mem_rsvmap = off_mem_rsvmap,
                 hd_version = version, hd_last_comp_version = last_comp_version,
                 hd_boot_cpuid_phys = boot_cpuid_phys\<rparr>)))"

section \<open>What an accepted header guarantees\<close>

definition header_wf :: "header \<Rightarrow> bool" where
  "header_wf h \<longleftrightarrow>
     HEADER_SIZE \<le> hd_total_size h \<and> hd_total_size h < 2 ^ 32 \<and>
     hd_version h = SUPPORTED_VERSION \<and>
     hd_last_comp_version h = EXPECTED_LAST_COMPATIBLE_VERSION \<and>
     HEADER_SIZE \<le> hd_off_mem_rsvmap h \<and> hd_off_mem_rsvmap h \<le> hd_total_size h \<and>
     hd_off_mem_rsvmap h mod 8 = 0 \<and>
     HEADER_SIZE \<le> fst (hd_structure_range h) \<and> fst (hd_structure_range h) mod 4 = 0 \<and>
     fst (hd_structure_range h) \<le> snd (hd_structure_range h) \<and>
     snd (hd_structure_range h) \<le> hd_total_size h \<and>
     HEADER_SIZE \<le> fst (hd_strings_range h) \<and>
     fst (hd_strings_range h) \<le> snd (hd_strings_range h) \<and>
     snd (hd_strings_range h) \<le> hd_total_size h \<and>
     (snd (hd_structure_range h) \<le> fst (hd_strings_range h) \<or>
      snd (hd_strings_range h) \<le> fst (hd_structure_range h)) \<and>
     \<not> range_contains (hd_structure_range h) (hd_off_mem_rsvmap h) \<and>
     \<not> range_contains (hd_strings_range h) (hd_off_mem_rsvmap h)"

text \<open>The header record the ten decoded fields describe, before any check.\<close>

definition header_of :: "bytes \<Rightarrow> header" where
  "header_of bs = (let f = read_be_u32_as_usize bs in
     \<lparr>hd_total_size = f TotalSize,
      hd_structure_range = (f StructureOffset, f StructureOffset + f StructureSize),
      hd_strings_range = (f StringsOffset, f StringsOffset + f StringsSize),
      hd_off_mem_rsvmap = f ReservationOffset,
      hd_version = read_be_u32 bs Version,
      hd_last_comp_version = read_be_u32 bs LastCompatibleVersion,
      hd_boot_cpuid_phys = read_be_u32 bs BootCpuIdPhys\<rparr>)"

lemma read_be_u32_as_usize_lt: "read_be_u32_as_usize bs f < 4294967296"
  by (simp add: read_be_u32_as_usize_def usize_from_u32_lt)

lemma block_range_eq:
  assumes "offset < 4294967296" "sz < 4294967296"
  shows "block_range block offset sz n =
    (if offset + sz \<le> n then Ok (offset, offset + sz)
     else Err (BlockOutOfBounds block offset sz n))"
  using assms by (simp add: block_range_def checked_add_usize_def USIZE_LIMIT_def)

lemma find_outside_header_None:
  "List.find (\<lambda>(block, offset). offset < (n::nat)) [(b1, x), (b2, y), (b3, z)] = None
     \<longleftrightarrow> n \<le> x \<and> n \<le> y \<and> n \<le> z"
  by auto

lemma find_containing_None:
  "List.find (\<lambda>(containing, rng). range_contains rng n) [(b1, x), (b2, y)] = None
     \<longleftrightarrow> \<not> range_contains x n \<and> \<not> range_contains y n"
  by simp

text \<open>
  Acceptance, exactly: the magic value is there and the decoded layout is well formed; the
  returned record is then the decoded one.
\<close>

lemma header_new_eq_Ok:
  "header_new bs = Ok h \<longleftrightarrow>
     read_be_u32 bs Magic = FDT_MAGIC \<and> h = header_of bs \<and> header_wf (header_of bs)"
proof -
  note lt = read_be_u32_as_usize_lt [of bs]
  have "header_new bs = Ok h \<longleftrightarrow>
     read_be_u32 bs Magic = FDT_MAGIC \<and> header_wf (header_of bs) \<and> header_of bs = h"
    unfolding header_new_def Let_def
    by (simp only: guard_eq_Ok find_outside_header_None find_containing_None block_range_eq [OF lt lt]
        bind_res_eq_Ok res.inject ex_simps simp_thms header_wf_def header_of_def Let_def
        header.simps fst_conv snd_conv de_Morgan_disj not_not not_less not_le)
      (use lt in auto)
  then show ?thesis by auto
qed

lemma header_new_returns: "returns (header_new bs)"
  unfolding header_new_def Let_def
  by (auto simp: block_range_def split: option.split intro!: returns_bind)

end
