(* ===== verification/Reader.thy ===== *)
theory Reader
  imports Prelude
begin

text \<open>
  The bounded sequential reader of \<open>fdt/src/reader.rs\<close>.  A successful read returns the value
  and the advanced reader; a failed read returns only the error, so the caller still holds the
  old reader, as \<open>&mut self\<close> is left unchanged by the source.  The slice indexing and the
  \<open>expect\<close> calls of the source are kept as possible panics; the lemmas show that none occurs
  from a reader that satisfies the invariant \<open>reader_ok\<close>, and give every operation as an
  equation on the unread suffix \<open>remaining_bytes\<close>.
\<close>

section \<open>Model\<close>

datatype ReadError =
    Truncated usize usize usize   \<comment> \<open>offset, requested, remaining\<close>
  | MissingNulTerminator usize    \<comment> \<open>offset\<close>

record reader =
  rd_bytes :: bytes
  rd_offset :: usize

definition reader_new :: "bytes \<Rightarrow> reader" where
  "reader_new bs = \<lparr>rd_bytes = bs, rd_offset = 0\<rparr>"

definition reader_position :: "reader \<Rightarrow> usize" where
  "reader_position r = rd_offset r"

definition reader_remaining :: "reader \<Rightarrow> usize" where
  "reader_remaining r = length (rd_bytes r) - rd_offset r"

definition read_bytes :: "reader \<Rightarrow> usize \<Rightarrow> (bytes \<times> reader, ReadError) res" where
  "read_bytes r len = (
     let start = rd_offset r; remaining = reader_remaining r in
     bind_res (ok_or (Truncated start len remaining) (checked_add_usize start len)) (\<lambda>stop.
     bind_res (ok_or (Truncated start len remaining) (slice_range (rd_bytes r) start stop)) (\<lambda>bs.
     Ok (bs, r\<lparr>rd_offset := stop\<rparr>))))"

definition read_u8 :: "reader \<Rightarrow> (u8 \<times> reader, ReadError) res" where
  "read_u8 r = bind_res (read_bytes r 1) (\<lambda>(bs, r').
     case bs of [] \<Rightarrow> Panic | b # _ \<Rightarrow> Ok (b, r'))"

definition read_u32 :: "reader \<Rightarrow> (u32 \<times> reader, ReadError) res" where
  "read_u32 r = bind_res (read_bytes r 4) (\<lambda>(bs, r').
     if length bs = 4 then Ok (u32_from_be_bytes bs, r') else Panic)"

definition read_u64 :: "reader \<Rightarrow> (u64 \<times> reader, ReadError) res" where
  "read_u64 r = bind_res (read_bytes r 8) (\<lambda>(bs, r').
     if length bs = 8 then Ok (u64_from_be_bytes bs, r') else Panic)"

definition align_to_4 :: "reader \<Rightarrow> (bytes \<times> reader, ReadError) res" where
  "align_to_4 r = (let padding = (4 - rd_offset r mod 4) mod 4 in read_bytes r padding)"

definition read_nul_terminated :: "reader \<Rightarrow> (bytes \<times> reader, ReadError) res" where
  "read_nul_terminated r = (
     let start = rd_offset r in
     bind_res (expect_some (slice_from (rd_bytes r) start)) (\<lambda>remaining.
     bind_res (ok_or (MissingNulTerminator start) (position (\<lambda>b. b = 0) remaining)) (\<lambda>len.
     let consumed = len + 1 in
     bind_res (read_bytes r consumed) (\<lambda>(bs, r').
     bind_res (expect_some (slice_range bs 0 len)) (\<lambda>name.
     Ok (name, r'))))))"

definition remaining_bytes :: "reader \<Rightarrow> bytes" where
  "remaining_bytes r = drop (rd_offset r) (rd_bytes r)"

section \<open>The invariant and the suffix view\<close>

text \<open>
  The offset lies within the slice, and the slice has a length a \<open>usize\<close> can hold (every Rust
  slice has one below \<open>isize::MAX\<close>).
\<close>

definition reader_ok :: "reader \<Rightarrow> bool" where
  "reader_ok r \<longleftrightarrow> rd_offset r \<le> length (rd_bytes r) \<and> length (rd_bytes r) < USIZE_LIMIT"

text \<open>The reader after \<open>n\<close> more bytes.\<close>

definition skip :: "nat \<Rightarrow> reader \<Rightarrow> reader" where
  "skip n r = r\<lparr>rd_offset := rd_offset r + n\<rparr>"

named_theorems reader_simps \<open>reader operations on the unread suffix\<close>

lemma reader_ok_new [simp]: "length bs < USIZE_LIMIT \<Longrightarrow> reader_ok (reader_new bs)"
  by (simp add: reader_ok_def reader_new_def)

lemma reader_new_sel [simp]:
  "rd_bytes (reader_new bs) = bs" "rd_offset (reader_new bs) = 0" "reader_position (reader_new bs) = 0"
  "remaining_bytes (reader_new bs) = bs"
  by (simp_all add: reader_new_def reader_position_def remaining_bytes_def)

lemma reader_ok_skip [simp]:
  "reader_ok r \<Longrightarrow> n \<le> length (remaining_bytes r) \<Longrightarrow> reader_ok (skip n r)"
  by (auto simp: reader_ok_def skip_def remaining_bytes_def)

lemma skip_sel [simp]:
  "rd_bytes (skip n r) = rd_bytes r" "rd_offset (skip n r) = rd_offset r + n"
  "reader_position (skip n r) = reader_position r + n"
  "remaining_bytes (skip n r) = drop n (remaining_bytes r)"
  by (simp_all add: skip_def reader_position_def remaining_bytes_def add.commute)

lemma skip_skip [simp]: "skip a (skip b r) = skip (b + a) r"
  by (simp add: skip_def)

lemma skip_0 [simp]: "skip 0 r = r"
  by (simp add: skip_def)

lemma reader_remaining_eq: "reader_remaining r = length (remaining_bytes r)"
  by (simp add: reader_remaining_def remaining_bytes_def)

lemma read_bytes_eq [reader_simps]:
  assumes "reader_ok r"
  shows "read_bytes r n =
    (if n \<le> length (remaining_bytes r) then Ok (take n (remaining_bytes r), skip n r)
     else Err (Truncated (rd_offset r) n (length (remaining_bytes r))))"
  using assms
  by (auto simp: read_bytes_def checked_add_usize_def slice_range_def reader_ok_def skip_def Let_def
      remaining_bytes_def reader_remaining_def)

lemma read_u8_eq [reader_simps]:
  assumes "reader_ok r"
  shows "read_u8 r =
    (case remaining_bytes r of [] \<Rightarrow> Err (Truncated (rd_offset r) 1 0) | b # _ \<Rightarrow> Ok (b, skip 1 r))"
  using assms by (auto simp: read_u8_def read_bytes_eq split: list.split)

lemma read_u32_eq [reader_simps]:
  assumes "reader_ok r"
  shows "read_u32 r =
    (if 4 \<le> length (remaining_bytes r)
     then Ok (u32_from_be_bytes (take 4 (remaining_bytes r)), skip 4 r)
     else Err (Truncated (rd_offset r) 4 (length (remaining_bytes r))))"
  using assms by (simp add: read_u32_def read_bytes_eq)

lemma read_u64_eq [reader_simps]:
  assumes "reader_ok r"
  shows "read_u64 r =
    (if 8 \<le> length (remaining_bytes r)
     then Ok (u64_from_be_bytes (take 8 (remaining_bytes r)), skip 8 r)
     else Err (Truncated (rd_offset r) 8 (length (remaining_bytes r))))"
  using assms by (simp add: read_u64_def read_bytes_eq)

text \<open>The padding the source computes, as a function of a length read from an aligned start.\<close>

definition pad4 :: "nat \<Rightarrow> nat" where
  "pad4 n = (4 - n mod 4) mod 4"

lemma pad4_aligned: "(n + pad4 n) mod 4 = 0"
proof -
  have "n mod 4 = 0 \<or> n mod 4 = 1 \<or> n mod 4 = 2 \<or> n mod 4 = 3" by arith
  then have "(n mod 4 + pad4 n) mod 4 = 0" by (auto simp: pad4_def)
  then show ?thesis by (simp add: mod_add_left_eq)
qed

lemma pad4_lt: "pad4 n < 4"
  by (simp add: pad4_def)

lemma pad4_shift:
  assumes "k mod 4 = 0" shows "pad4 (k + n) = pad4 n"
proof -
  have "(k + n) mod 4 = (k mod 4 + n) mod 4" by (rule mod_add_left_eq [symmetric])
  then show ?thesis unfolding pad4_def assms by simp
qed

lemma align_to_4_eq [reader_simps]:
  assumes "reader_ok r"
  shows "align_to_4 r =
    (let p = pad4 (rd_offset r) in
     if p \<le> length (remaining_bytes r) then Ok (take p (remaining_bytes r), skip p r)
     else Err (Truncated (rd_offset r) p (length (remaining_bytes r))))"
  unfolding align_to_4_def pad4_def Let_def using assms by (rule read_bytes_eq)

lemma read_nul_terminated_eq [reader_simps]:
  assumes "reader_ok r"
  shows "read_nul_terminated r =
    (case position (\<lambda>b. b = 0) (remaining_bytes r) of
       None \<Rightarrow> Err (MissingNulTerminator (rd_offset r))
     | Some n \<Rightarrow> Ok (take n (remaining_bytes r), skip (Suc n) r))"
proof (cases "position (\<lambda>b. b = 0) (remaining_bytes r)")
  case None
  with assms show ?thesis
    by (simp add: read_nul_terminated_def slice_from_def remaining_bytes_def reader_ok_def Let_def)
next
  case (Some n)
  then have "n < length (remaining_bytes r)" by (simp add: position_Some)
  with assms Some show ?thesis
    by (simp add: read_nul_terminated_def slice_from_def slice_range_def reader_ok_def
        read_bytes_eq Let_def remaining_bytes_def [symmetric])
qed

lemma read_success_skips:
  "reader_ok r \<Longrightarrow> read_bytes r n = Ok (bs, r') \<Longrightarrow> r' = skip n r \<and> bs = take n (remaining_bytes r) \<and> reader_ok r'"
  by (auto simp: read_bytes_eq split: if_splits)

section \<open>Progress\<close>

text \<open>Successful reads keep the slice and only move forward; the loops' measures rest on it.\<close>

definition unread :: "reader \<Rightarrow> nat" where
  "unread r = length (rd_bytes r) - rd_offset r"

lemma read_bytes_progress:
  "read_bytes r n = Ok (bs, r') \<Longrightarrow> rd_bytes r' = rd_bytes r \<and> unread r' + n = unread r"
  by (auto simp: read_bytes_def Let_def res_simps slice_simps checked_add_usize_def unread_def
      split: if_splits)

lemma read_u32_progress:
  "read_u32 r = Ok (v, r') \<Longrightarrow> rd_bytes r' = rd_bytes r \<and> unread r' + 4 = unread r"
  by (auto simp: read_u32_def res_simps split: if_splits dest: read_bytes_progress)

lemma read_u64_progress:
  "read_u64 r = Ok (v, r') \<Longrightarrow> rd_bytes r' = rd_bytes r \<and> unread r' + 8 = unread r"
  by (auto simp: read_u64_def res_simps split: if_splits dest: read_bytes_progress)

lemma read_u8_progress:
  "read_u8 r = Ok (v, r') \<Longrightarrow> rd_bytes r' = rd_bytes r \<and> unread r' + 1 = unread r"
  by (cases "read_bytes r 1") (auto simp: read_u8_def split: list.splits dest!: read_bytes_progress)

lemma align_to_4_progress:
  "align_to_4 r = Ok (bs, r') \<Longrightarrow> rd_bytes r' = rd_bytes r \<and> unread r' \<le> unread r"
  by (auto simp: align_to_4_def Let_def dest: read_bytes_progress)

lemma read_nul_terminated_progress:
  "read_nul_terminated r = Ok (bs, r') \<Longrightarrow> rd_bytes r' = rd_bytes r \<and> unread r' < unread r"
  by (auto simp: read_nul_terminated_def Let_def res_simps dest!: read_bytes_progress)

lemmas read_progress = read_bytes_progress read_u8_progress read_u32_progress read_u64_progress
  align_to_4_progress read_nul_terminated_progress

end
