(* ===== verification/Reservation.thy ===== *)
theory Reservation
  imports Reader
begin

text \<open>
  The memory reservation block, \<open>fdt/src/reservation.rs\<close>: the scan for the terminating entry,
  the quadratic overlap check, and the iterator over the entries.  The lemmas relate all three
  to the list of encoded entries: a block is accepted exactly when it starts with the encoding of
  a list of representable, pairwise disjoint regions and a terminator, and the iterator yields
  that list.
\<close>

section \<open>Model\<close>

datatype ReservationError =
    ReservationRead ReadError
  | RangeEndOverflow u64 u64
  | ReservationOverlap u64 u64 u64 u64

record reservations =
  rsv_bytes :: bytes

record memory_reservation =
  mr_address :: u64
  mr_size :: u64

record memory_reservations =
  mrs_bytes :: bytes

definition reservation_end :: "u64 \<Rightarrow> u64 \<Rightarrow> (u64, ReservationError) res" where
  "reservation_end address sz = ok_or (RangeEndOverflow address sz) (checked_add address sz)"

definition reservations_iter :: "reservations \<Rightarrow> memory_reservations" where
  "reservations_iter rs = \<lparr>mrs_bytes = rsv_bytes rs\<rparr>"

definition split_first_chunk :: "nat \<Rightarrow> 'a list \<Rightarrow> ('a list \<times> 'a list) option" where
  "split_first_chunk n xs = (if n \<le> length xs then Some (take n xs, drop n xs) else None)"

definition memory_reservations_next ::
    "memory_reservations \<Rightarrow> (memory_reservation option \<times> memory_reservations, 'e) res" where
  "memory_reservations_next it =
     (case split_first_chunk 8 (mrs_bytes it) of
        None \<Rightarrow> Ok (None, it)
      | Some (address_bytes, remaining) \<Rightarrow>
     (case split_first_chunk 8 remaining of
        None \<Rightarrow> Ok (None, it)
      | Some (size_bytes, remaining) \<Rightarrow>
          let it' = it\<lparr>mrs_bytes := remaining\<rparr>;
              address = u64_from_be_bytes address_bytes;
              sz = u64_from_be_bytes size_bytes in
          if address = 0 \<and> sz = 0 then Ok (None, it'\<lparr>mrs_bytes := []\<rparr>)
          else Ok (Some \<lparr>mr_address = address, mr_size = sz\<rparr>, it')))"

definition mrs_measure :: "memory_reservations \<Rightarrow> nat" where
  "mrs_measure it = length (mrs_bytes it)"

text \<open>The inner loop of \<open>validate_no_overlaps\<close>: one later reservation against \<open>first\<close>.\<close>

definition overlap_body :: "memory_reservation \<Rightarrow> u64 \<Rightarrow> memory_reservation \<Rightarrow> unit
    \<Rightarrow> ((unit, unit) flow, ReservationError) res" where
  "overlap_body first first_end second _ =
     (if mr_size second = 0 then Ok (Continue ()) else
      bind_res (reservation_end (mr_address second) (mr_size second)) (\<lambda>second_end.
      let overlaps = mr_address first < second_end \<and> mr_address second < first_end in
      if overlaps
      then Err (ReservationOverlap (mr_address first) (mr_size first) (mr_address second) (mr_size second))
      else Ok (Continue ())))"

definition overlap_step :: "memory_reservations
    \<Rightarrow> ((memory_reservations, unit) flow, ReservationError) res" where
  "overlap_step remaining = bind_res (memory_reservations_next remaining) (\<lambda>(item, remaining').
     case item of
       None \<Rightarrow> Ok (Break ())
     | Some first \<Rightarrow>
         if mr_size first = 0 then Ok (Continue remaining') else
         bind_res (reservation_end (mr_address first) (mr_size first)) (\<lambda>first_end.
         bind_res (for_in mrs_measure memory_reservations_next (overlap_body first first_end) remaining' ())
           (\<lambda>_. Ok (Continue remaining'))))"

definition validate_no_overlaps :: "reservations \<Rightarrow> (unit, ReservationError) res" where
  "validate_no_overlaps rs = run mrs_measure overlap_step (reservations_iter rs)"

definition reservations_step :: "reader \<Rightarrow> ((reader, usize) flow, ReservationError) res" where
  "reservations_step r =
     bind_res (map_err ReservationRead (read_u64 r)) (\<lambda>(address, r1).
     bind_res (map_err ReservationRead (read_u64 r1)) (\<lambda>(sz, r2).
     if address = 0 \<and> sz = 0 then Ok (Break (reader_position r2)) else
     bind_res (reservation_end address sz) (\<lambda>_. Ok (Continue r2))))"

definition reservations_new :: "bytes \<Rightarrow> (reservations, ReservationError) res" where
  "reservations_new bs =
     bind_res (run unread reservations_step (reader_new bs)) (\<lambda>stop.
     bind_res (expect_some (slice_range bs 0 stop)) (\<lambda>bs'.
     let rs = \<lparr>rsv_bytes = bs'\<rparr> in
     bind_res (validate_no_overlaps rs) (\<lambda>_. Ok rs)))"

section \<open>Entries\<close>

definition entry_bytes :: "memory_reservation \<Rightarrow> bytes" where
  "entry_bytes x = u64_to_be_bytes (mr_address x) @ u64_to_be_bytes (mr_size x)"

definition terminator :: memory_reservation where
  "terminator = \<lparr>mr_address = 0, mr_size = 0\<rparr>"

definition block_bytes :: "memory_reservation list \<Rightarrow> bytes" where
  "block_bytes xs = concat (map entry_bytes xs) @ entry_bytes terminator"

text \<open>The addresses a reservation covers; an entry the scan accepts.\<close>

definition region :: "memory_reservation \<Rightarrow> nat set" where
  "region x = {unat (mr_address x) ..< unat (mr_address x) + unat (mr_size x)}"

definition entry_ok :: "memory_reservation \<Rightarrow> bool" where
  "entry_ok x \<longleftrightarrow> x \<noteq> terminator \<and> unat (mr_address x) + unat (mr_size x) < 2 ^ 64"

lemma length_entry_bytes [simp]: "length (entry_bytes x) = 16"
  by (simp add: entry_bytes_def)

lemma block_bytes_simps [simp]:
  "block_bytes [] = entry_bytes terminator"
  "block_bytes (x # xs) = entry_bytes x @ block_bytes xs"
  by (simp_all add: block_bytes_def)

lemma length_block_bytes [simp]: "length (block_bytes xs) = 16 * length xs + 16"
  by (induction xs) auto

lemma entry_bytes_decode:
  assumes "16 \<le> length bs"
  shows "bs = entry_bytes \<lparr>mr_address = u64_from_be_bytes (take 8 bs),
                            mr_size = u64_from_be_bytes (take 8 (drop 8 bs))\<rparr> @ drop 16 bs"
proof -
  have "take 8 bs @ take 8 (drop 8 bs) @ drop 16 bs = bs"
    by (metis append_take_drop_id drop_drop numeral_Bit0)
  with assms show ?thesis by (simp add: entry_bytes_def u64_to_from_be_bytes)
qed

lemma entry_bytes_take [simp]:
  "u64_from_be_bytes (take 8 (entry_bytes x @ bs)) = mr_address x"
  "u64_from_be_bytes (take 8 (drop 8 (entry_bytes x @ bs))) = mr_size x"
  "drop 16 (entry_bytes x @ bs) = bs"
  by (simp_all add: entry_bytes_def)

lemma entry_eq_terminator: "x = terminator \<longleftrightarrow> mr_address x = 0 \<and> mr_size x = 0"
  by (cases x) (simp add: terminator_def)

section \<open>The iterator\<close>

lemma memory_reservations_next_eq:
  "memory_reservations_next \<lparr>mrs_bytes = entry_bytes x @ bs\<rparr> =
     Ok (if x = terminator then (None, \<lparr>mrs_bytes = []\<rparr>) else (Some x, \<lparr>mrs_bytes = bs\<rparr>))"
  using entry_bytes_take [of x bs]
  by (cases x) (simp add: memory_reservations_next_def split_first_chunk_def entry_eq_terminator Let_def)

interpretation mrs: iterator mrs_measure memory_reservations_next
  by unfold_locales
    (auto simp: memory_reservations_next_def mrs_measure_def split_first_chunk_def Let_def
      split: if_splits option.splits)

lemma mrs_yields:
  assumes "\<forall>x\<in>set xs. x \<noteq> terminator"
  shows "yields memory_reservations_next \<lparr>mrs_bytes = block_bytes xs @ bs\<rparr> xs"
  using assms
proof (induction xs)
  case Nil
  show ?case
    by (rule yields_done, simp add: memory_reservations_next_eq)
      (simp add: memory_reservations_next_def split_first_chunk_def)
next
  case (Cons x xs)
  then show ?case by (intro yields_more) (auto simp: memory_reservations_next_eq)
qed

section \<open>The overlap check\<close>

lemma region_disjoint_iff:
  assumes "unat (mr_address x) + unat (mr_size x) < 2 ^ 64" "mr_size x \<noteq> 0" "mr_size y \<noteq> 0"
    "checked_add (mr_address x) (mr_size x) = Some ex" "checked_add (mr_address y) (mr_size y) = Some ey"
  shows "mr_address x < ey \<and> mr_address y < ex \<longleftrightarrow> region x \<inter> region y \<noteq> {}"
proof -
  have e: "unat ex = unat (mr_address x) + unat (mr_size x)"
    "unat ey = unat (mr_address y) + unat (mr_size y)"
    using assms by (simp_all add: checked_add_SomeD)
  have "0 < unat (mr_size x)" "0 < unat (mr_size y)"
    using assms by (simp_all add: unat_gt_0)
  then show ?thesis unfolding word_less_nat_alt e region_def by (auto simp: max_def min_def)
qed

lemma region_empty: "mr_size x = 0 \<Longrightarrow> region x = {}"
  by (simp add: region_def)

lemma reservation_end_ok:
  "entry_ok x \<Longrightarrow> \<exists>e. reservation_end (mr_address x) (mr_size x) = Ok e \<and>
     checked_add (mr_address x) (mr_size x) = Some e"
  by (simp add: reservation_end_def entry_ok_def checked_add_def)

lemma overlap_body_eq:
  assumes "entry_ok x" "entry_ok y" "mr_size x \<noteq> 0" "checked_add (mr_address x) (mr_size x) = Some ex"
  shows "overlap_body x ex y u =
    (if region x \<inter> region y = {} then Ok (Continue ())
     else Err (ReservationOverlap (mr_address x) (mr_size x) (mr_address y) (mr_size y)))"
proof (cases "mr_size y = 0")
  case True
  then show ?thesis by (simp add: overlap_body_def region_empty)
next
  case False
  obtain ey where "reservation_end (mr_address y) (mr_size y) = Ok ey"
      "checked_add (mr_address y) (mr_size y) = Some ey"
    using reservation_end_ok [OF assms(2)] by blast
  then show ?thesis
    using region_disjoint_iff [of x y ex ey] assms False
    by (simp add: overlap_body_def entry_ok_def)
qed

lemma fold_overlap_body:
  assumes "entry_ok x" "mr_size x \<noteq> 0" "checked_add (mr_address x) (mr_size x) = Some ex"
    "\<forall>y\<in>set ys. entry_ok y"
  shows "fold_flow (overlap_body x ex) ys () =
    (case List.find (\<lambda>y. region x \<inter> region y \<noteq> {}) ys of
       None \<Rightarrow> Ok (Continue ())
     | Some y \<Rightarrow> Err (ReservationOverlap (mr_address x) (mr_size x) (mr_address y) (mr_size y)))"
  using assms(4) by (induction ys) (simp_all add: overlap_body_eq [OF assms(1) _ assms(2,3)])

interpretation overlap: decreasing_loop mrs_measure overlap_step
  by unfold_locales
    (auto simp: overlap_step_def bind_res_def dest: mrs.next_decreases
      split: res.splits option.splits if_splits)

lemma run_overlap_step:
  assumes "yields (memory_reservations_next :: (_, _, ReservationError) iter_next) it xs"
    "\<forall>x\<in>set xs. entry_ok x"
  shows "if sorted_wrt (\<lambda>x y. region x \<inter> region y = {}) xs
         then run mrs_measure overlap_step it = Ok ()
         else \<exists>a b c d. run mrs_measure overlap_step it = Err (ReservationOverlap a b c d)"
  using assms
proof (induction rule: yields.induct)
  case (yields_done s s')
  then show ?case by (subst overlap.run_unfold) (simp add: overlap_step_def)
next
  case (yields_more s x s' xs)
  show ?case
  proof (cases "mr_size x = 0")
    case True
    with yields_more show ?thesis
      by (subst (1 2) overlap.run_unfold) (simp add: overlap_step_def region_empty)
  next
    case False
    obtain ex where ex: "reservation_end (mr_address x) (mr_size x) = Ok ex"
        "checked_add (mr_address x) (mr_size x) = Some ex"
      using reservation_end_ok [of x] yields_more.prems by auto
    have inner: "bind_res (for_in mrs_measure memory_reservations_next (overlap_body x ex) s' ())
        (\<lambda>(f, _). Ok f) = fold_flow (overlap_body x ex) xs ()"
      by (rule mrs.for_in_yields) fact
    show ?thesis
    proof (cases "List.find (\<lambda>y. region x \<inter> region y \<noteq> {}) xs")
      case None
      with inner obtain t where "for_in mrs_measure memory_reservations_next (overlap_body x ex) s' () = Ok t"
        using fold_overlap_body [of x ex xs] yields_more.prems False ex
        by (auto simp: res_simps)
      with yields_more False ex None show ?thesis
        by (subst (1 2) overlap.run_unfold) (auto simp: overlap_step_def find_None_iff)
    next
      case (Some y)
      with inner have "for_in mrs_measure memory_reservations_next (overlap_body x ex) s' () =
          Err (ReservationOverlap (mr_address x) (mr_size x) (mr_address y) (mr_size y))"
        using fold_overlap_body [of x ex xs] yields_more.prems False ex
        by (auto simp: bind_res_def split: res.splits)
      moreover have "\<exists>y\<in>set xs. region x \<inter> region y \<noteq> {}"
        using Some by (auto simp: find_Some_iff)
      ultimately show ?thesis using yields_more False ex
        by (subst (1 2) overlap.run_unfold) (auto simp: overlap_step_def)
    qed
  qed
qed

section \<open>The scan\<close>

interpretation scan: decreasing_loop unread reservations_step
  by unfold_locales
    (auto simp: reservations_step_def bind_res_def dest!: read_u64_progress
      split: res.splits if_splits)

lemma reservations_step_eq:
  assumes "reader_ok r" "remaining_bytes r = entry_bytes x @ bs"
  shows "reservations_step r =
    (if x = terminator then Ok (Break (reader_position r + 16))
     else if entry_ok x then Ok (Continue (skip 16 r))
     else Err (RangeEndOverflow (mr_address x) (mr_size x)))"
  using assms entry_bytes_take [of x bs]
  by (auto simp: reservations_step_def read_u64_eq reservation_end_def entry_eq_terminator
      checked_add_def entry_ok_def)

lemma scan_complete:
  assumes "reader_ok r" "remaining_bytes r = block_bytes xs @ bs" "\<forall>x\<in>set xs. entry_ok x"
  shows "run unread reservations_step r = Ok (reader_position r + 16 * length xs + 16)"
  using assms
proof (induction xs arbitrary: r)
  case Nil
  then show ?case by (subst scan.run_unfold) (simp add: reservations_step_eq [of _ terminator bs])
next
  case (Cons x xs)
  have rest: "remaining_bytes r = entry_bytes x @ block_bytes xs @ bs" using Cons.prems by simp
  from Cons.prems have "entry_ok x" "x \<noteq> terminator" by (auto simp: entry_ok_def)
  moreover have "run unread reservations_step (skip 16 r) =
      Ok (reader_position (skip 16 r) + 16 * length xs + 16)"
    by (rule Cons.IH) (use Cons.prems rest in auto)
  ultimately show ?case
    using reservations_step_eq [OF Cons.prems(1) rest] by (subst scan.run_unfold) simp
qed

lemma scan_sound:
  assumes "reader_ok r" "run unread reservations_step r = Ok stop"
  shows "\<exists>xs bs. remaining_bytes r = block_bytes xs @ bs \<and> (\<forall>x\<in>set xs. entry_ok x) \<and>
     stop = reader_position r + 16 * length xs + 16"
  using assms
proof (induction r rule: scan.run_induct)
  case (step r)
  have len: "16 \<le> length (remaining_bytes r)"
  proof (rule ccontr)
    assume "\<not> ?thesis"
    with step.prems show False
      by (subst (asm) scan.run_unfold)
        (auto simp: reservations_step_def read_u64_eq split: if_splits)
  qed
  then obtain x bs where rest: "remaining_bytes r = entry_bytes x @ bs"
    using entry_bytes_decode by blast
  note eq = reservations_step_eq [OF step.prems(1) rest]
  show ?case
  proof (cases "x = terminator")
    case True
    with step.prems eq rest show ?thesis
      by (subst (asm) scan.run_unfold) (auto intro!: exI [of _ "[]"] exI [of _ bs])
  next
    case False
    with step.prems eq have ok: "entry_ok x" "run unread reservations_step (skip 16 r) = Ok stop"
      by (subst (asm) scan.run_unfold, simp split: if_splits)+
    have "reservations_step r = Ok (Continue (skip 16 r))" using eq False ok by simp
    from step.IH [OF this _ ok(2)] step.prems(1) rest obtain ys bs' where
      "bs = block_bytes ys @ bs'" "\<forall>x\<in>set ys. entry_ok x"
      "stop = reader_position r + 16 + 16 * length ys + 16" by auto
    with rest ok show ?thesis by (intro exI [of _ "x # ys"] exI [of _ bs']) auto
  qed
qed

section \<open>The block\<close>

definition regions_disjoint :: "memory_reservation list \<Rightarrow> bool" where
  "regions_disjoint xs \<longleftrightarrow> sorted_wrt (\<lambda>x y. region x \<inter> region y = {}) xs"

lemma reservations_new_eq_Ok:
  assumes "length bs < USIZE_LIMIT"
  shows "reservations_new bs = Ok rs \<longleftrightarrow>
    (\<exists>xs rest. bs = block_bytes xs @ rest \<and> rsv_bytes rs = block_bytes xs \<and>
       (\<forall>x\<in>set xs. entry_ok x) \<and> regions_disjoint xs)"
proof
  assume "reservations_new bs = Ok rs"
  then obtain stop bs' where
    scan: "run unread reservations_step (reader_new bs) = Ok stop" and
    bs': "slice_range bs 0 stop = Some bs'" and rs: "rs = \<lparr>rsv_bytes = bs'\<rparr>" and
    valid: "validate_no_overlaps rs = Ok ()"
    by (auto simp: reservations_new_def Let_def res_simps)
  from scan_sound [OF _ scan] assms obtain xs rest where
    xs: "bs = block_bytes xs @ rest" "\<forall>x\<in>set xs. entry_ok x" "stop = 16 * length xs + 16"
    by auto
  have "bs' = block_bytes xs" using bs' xs by (simp add: slice_simps)
  moreover from this have "regions_disjoint xs"
    using run_overlap_step [OF mrs_yields, of xs "[]"] xs(2) valid rs
    by (auto simp: validate_no_overlaps_def reservations_iter_def entry_ok_def regions_disjoint_def
        split: if_splits)
  ultimately show "\<exists>xs rest. bs = block_bytes xs @ rest \<and> rsv_bytes rs = block_bytes xs \<and>
       (\<forall>x\<in>set xs. entry_ok x) \<and> regions_disjoint xs"
    using xs rs by auto
next
  assume "\<exists>xs rest. bs = block_bytes xs @ rest \<and> rsv_bytes rs = block_bytes xs \<and>
       (\<forall>x\<in>set xs. entry_ok x) \<and> regions_disjoint xs"
  then obtain xs rest where xs: "bs = block_bytes xs @ rest" "rsv_bytes rs = block_bytes xs"
       "\<forall>x\<in>set xs. entry_ok x" "regions_disjoint xs" by auto
  have "run unread reservations_step (reader_new bs) = Ok (16 * length xs + 16)"
    using scan_complete [of "reader_new bs" xs rest] assms xs by simp
  moreover have "slice_range bs 0 (16 * length xs + 16) = Some (block_bytes xs)"
    using xs by (simp add: slice_simps)
  moreover have "validate_no_overlaps \<lparr>rsv_bytes = block_bytes xs\<rparr> = Ok ()"
    using run_overlap_step [OF mrs_yields, of xs "[]"] xs
    by (auto simp: validate_no_overlaps_def reservations_iter_def entry_ok_def regions_disjoint_def)
  ultimately show "reservations_new bs = Ok rs"
    using xs(2) by (cases rs) (simp add: reservations_new_def Let_def)
qed

lemma reservations_yields:
  assumes "length bs < USIZE_LIMIT" "reservations_new bs = Ok rs"
  shows "\<exists>xs. yields memory_reservations_next (reservations_iter rs) xs \<and>
     (\<forall>x\<in>set xs. entry_ok x) \<and> regions_disjoint xs"
proof -
  obtain xs where xs: "rsv_bytes rs = block_bytes xs" "\<forall>x\<in>set xs. entry_ok x" "regions_disjoint xs"
    using assms by (auto simp: reservations_new_eq_Ok)
  then have "yields memory_reservations_next (reservations_iter rs) xs"
    using mrs_yields [of xs "[]"] by (auto simp: reservations_iter_def entry_ok_def)
  with xs show ?thesis by auto
qed

lemma reservations_new_returns:
  assumes "length bs < USIZE_LIMIT"
  shows "returns (reservations_new bs)"
proof -
  have step: "returns (reservations_step r)" if "reader_ok r" for r
    using that by (auto simp: reservations_step_def read_u64_eq reservation_end_def intro!: returns_bind)
  have "returns (run unread reservations_step (reader_new bs))"
  proof (rule scan.run_returns [of reader_ok])
    show "reader_ok r'" if "reader_ok r" "reservations_step r = Ok (Continue r')" for r r'
      using that by (auto simp: reservations_step_def read_u64_eq res_simps split: if_splits)
  qed (use assms step in auto)
  then show ?thesis
  proof (cases rule: returnsE)
    case (Ok stop)
    from scan_sound [OF _ Ok] assms obtain xs rest where
      xs: "bs = block_bytes xs @ rest" "\<forall>x\<in>set xs. entry_ok x" "stop = 16 * length xs + 16" by auto
    have "returns (validate_no_overlaps \<lparr>rsv_bytes = block_bytes xs\<rparr>)"
      using run_overlap_step [OF mrs_yields, of xs "[]"] xs(2)
      by (auto simp: validate_no_overlaps_def reservations_iter_def entry_ok_def split: if_splits)
    moreover have "slice_range bs 0 stop = Some (block_bytes xs)" using xs by (simp add: slice_simps)
    ultimately show ?thesis
      by (auto simp: reservations_new_def Ok Let_def intro!: returns_bind)
  qed (simp add: reservations_new_def)
qed

end
