(* ===== verification/Strings.thy ===== *)
theory Strings
  imports Reader
begin

text \<open>
  Property names in the strings block, \<open>fdt/src/strings.rs\<close>.  \<open>strings_validate_property_name\<close>
  is \<open>Strings::validate_property_name\<close>; \<open>property_name_at\<close> is what it means for a name to
  stand at an offset, and the two are shown to agree.
\<close>

section \<open>Model\<close>

datatype PropertyNameError =
    OffsetOutOfBounds u32 usize
  | Unterminated u32
  | PropertyNameInvalidLength u32 usize
  | PropertyNameInvalidCharacter u32 usize u8

record strings =
  str_bytes :: bytes

definition strings_new :: "bytes \<Rightarrow> strings" where
  "strings_new bs = \<lparr>str_bytes = bs\<rparr>"

text \<open>\<open>u8::is_ascii_alphabetic\<close> and \<open>u8::is_ascii_alphanumeric\<close>.\<close>

definition is_ascii_alphabetic :: "u8 \<Rightarrow> bool" where
  "is_ascii_alphabetic b \<longleftrightarrow> (65 \<le> b \<and> b \<le> 90) \<or> (97 \<le> b \<and> b \<le> 122)"

definition is_ascii_alphanumeric :: "u8 \<Rightarrow> bool" where
  "is_ascii_alphanumeric b \<longleftrightarrow> is_ascii_alphabetic b \<or> (48 \<le> b \<and> b \<le> 57)"

text \<open>The punctuation the source lists: comma, full stop, underscore, plus, question mark, hash, minus.\<close>

definition property_name_char :: "u8 \<Rightarrow> bool" where
  "property_name_char b \<longleftrightarrow>
     is_ascii_alphanumeric b \<or> b \<in> {44, 46, 95, 43, 63, 35, 45}"

definition strings_validate_property_name :: "strings \<Rightarrow> u32 \<Rightarrow> (bytes, PropertyNameError) res" where
  "strings_validate_property_name st raw_offset = (
     let offset = usize_from_u32 raw_offset in
     case (case slice_from (str_bytes st) offset of
             None \<Rightarrow> None | Some bs \<Rightarrow> if bs \<noteq> [] then Some bs else None) of
       None \<Rightarrow> Err (OffsetOutOfBounds raw_offset (length (str_bytes st)))
     | Some bs \<Rightarrow>
         bind_res (map_err (\<lambda>_. Unterminated raw_offset) (read_nul_terminated (reader_new bs)))
           (\<lambda>(name, _).
         if \<not> (1 \<le> length name \<and> length name \<le> 31)
         then Err (PropertyNameInvalidLength raw_offset (length name)) else
         case find_enumerated (\<lambda>b. \<not> property_name_char b) name of
           Some (index, b) \<Rightarrow> Err (PropertyNameInvalidCharacter raw_offset index b)
         | None \<Rightarrow> Ok name))"

section \<open>Specification\<close>

text \<open>
  A valid property name at \<open>offset\<close>: one to 31 permitted bytes followed by a NUL.
\<close>

definition property_name_ok :: "bytes \<Rightarrow> bool" where
  "property_name_ok name \<longleftrightarrow>
     1 \<le> length name \<and> length name \<le> 31 \<and> (\<forall>b\<in>set name. property_name_char b)"

definition property_name_at :: "bytes \<Rightarrow> nat \<Rightarrow> bytes \<Rightarrow> bool" where
  "property_name_at bs offset name \<longleftrightarrow>
     (\<exists>tl. offset \<le> length bs \<and> drop offset bs = name @ 0 # tl) \<and> property_name_ok name"

lemma property_name_char_nonzero: "property_name_char b \<Longrightarrow> b \<noteq> 0"
  by (auto simp: property_name_char_def is_ascii_alphanumeric_def is_ascii_alphabetic_def)

lemma property_name_ok_nonzero: "property_name_ok name \<Longrightarrow> \<forall>b\<in>set name. b \<noteq> 0"
  using property_name_char_nonzero by (auto simp: property_name_ok_def)

lemma validate_property_name_eq_Ok:
  assumes "length (str_bytes st) < USIZE_LIMIT"
  shows "strings_validate_property_name st raw = Ok name \<longleftrightarrow>
         property_name_at (str_bytes st) (usize_from_u32 raw) name"
proof -
  let ?bs = "drop (usize_from_u32 raw) (str_bytes st)"
  have ok: "reader_ok (reader_new ?bs)" using assms by simp
  have "strings_validate_property_name st raw = Ok name \<longleftrightarrow>
      usize_from_u32 raw \<le> length (str_bytes st) \<and> ?bs \<noteq> [] \<and>
      (\<exists>n. position (\<lambda>b. b = 0) ?bs = Some n \<and> name = take n ?bs) \<and> property_name_ok name"
    using ok
    by (auto simp: strings_validate_property_name_def Let_def slice_from_def read_nul_terminated_eq
        bind_res_def property_name_ok_def find_enumerated_None
        dest!: find_enumerated_SomeD split: option.splits if_splits)
  also have "\<dots> \<longleftrightarrow> property_name_at (str_bytes st) (usize_from_u32 raw) name"
  proof
    assume "property_name_at (str_bytes st) (usize_from_u32 raw) name"
    then obtain tl where "usize_from_u32 raw \<le> length (str_bytes st)" "?bs = name @ 0 # tl"
        "property_name_ok name"
      by (auto simp: property_name_at_def)
    moreover from this have "position (\<lambda>b. b = 0) ?bs = Some (length name)"
      by (simp add: position_append_hit property_name_ok_nonzero)
    ultimately show "usize_from_u32 raw \<le> length (str_bytes st) \<and> ?bs \<noteq> [] \<and>
      (\<exists>n. position (\<lambda>b. b = 0) ?bs = Some n \<and> name = take n ?bs) \<and> property_name_ok name"
      by simp
  next
    assume r: "usize_from_u32 raw \<le> length (str_bytes st) \<and> ?bs \<noteq> [] \<and>
      (\<exists>n. position (\<lambda>b. b = 0) ?bs = Some n \<and> name = take n ?bs) \<and> property_name_ok name"
    then obtain n where n: "position (\<lambda>b. b = 0) ?bs = Some n" "name = take n ?bs" by auto
    with position_split [OF n(1)] have "?bs = name @ 0 # drop (Suc n) ?bs" by simp
    with r show "property_name_at (str_bytes st) (usize_from_u32 raw) name"
      unfolding property_name_at_def by blast
  qed
  finally show ?thesis .
qed

lemma validate_property_name_returns:
  assumes "length (str_bytes st) < USIZE_LIMIT"
  shows "returns (strings_validate_property_name st raw)"
proof -
  have "reader_ok (reader_new (drop (usize_from_u32 raw) (str_bytes st)))" using assms by simp
  then show ?thesis
    by (auto simp: strings_validate_property_name_def Let_def slice_from_def read_nul_terminated_eq
        intro!: returns_bind split: option.splits)
qed

end
