(* ===== verification/Node_Name.thy ===== *)
theory Node_Name
  imports Strings
begin

text \<open>
  Node names, \<open>fdt/src/structure/name.rs\<close>: the name component before the first at-sign, the
  unit address after it, and the textual validation of non-root names.
\<close>

section \<open>Model\<close>

datatype NodeNameError =
    NameInvalidLength usize
  | NameInvalidFirstCharacter u8
  | NameInvalidCharacter usize u8
  | EmptyUnitAddress
  | InvalidUnitAddressCharacter usize u8

definition is_valid_character :: "u8 \<Rightarrow> bool" where
  "is_valid_character b \<longleftrightarrow> is_ascii_alphanumeric b \<or> b \<in> {44, 46, 95, 43, 45}"

text \<open>\<open>slice::split\<close> and \<open>slice::splitn(2, _)\<close>; the separator is the byte 64, the at-sign.\<close>

fun slice_split :: "('a \<Rightarrow> bool) \<Rightarrow> 'a list \<Rightarrow> 'a list list" where
  "slice_split p [] = [[]]"
| "slice_split p (x # xs) =
     (if p x then [] # slice_split p xs
      else case slice_split p xs of [] \<Rightarrow> [[x]] | y # ys \<Rightarrow> (x # y) # ys)"

definition slice_splitn2 :: "('a \<Rightarrow> bool) \<Rightarrow> 'a list \<Rightarrow> 'a list list" where
  "slice_splitn2 p xs =
     (case position p xs of None \<Rightarrow> [xs] | Some i \<Rightarrow> [take i xs, drop (Suc i) xs])"

definition component :: "bytes \<Rightarrow> bytes" where
  "component name = (case slice_split (\<lambda>b. b = 64) name of [] \<Rightarrow> name | c # _ \<Rightarrow> c)"

definition unit_address :: "bytes \<Rightarrow> bytes option" where
  "unit_address name = (case slice_splitn2 (\<lambda>b. b = 64) name of _ # u # _ \<Rightarrow> Some u | _ \<Rightarrow> None)"

definition name_validate :: "bytes \<Rightarrow> (unit, NodeNameError) res" where
  "name_validate name = (
     let node_name = component name; unit_addr = unit_address name in
     case node_name of
       [] \<Rightarrow> Err (NameInvalidLength 0)
     | first_byte # _ \<Rightarrow>
         if length node_name > 31 then Err (NameInvalidLength (length node_name)) else
         if \<not> is_ascii_alphabetic first_byte then Err (NameInvalidFirstCharacter first_byte) else
         case find_enumerated (\<lambda>b. \<not> is_valid_character b) node_name of
           Some (index, b) \<Rightarrow> Err (NameInvalidCharacter index b)
         | None \<Rightarrow>
             (case unit_addr of
                None \<Rightarrow> Ok ()
              | Some u \<Rightarrow>
                  if u = [] then Err EmptyUnitAddress else
                  case find_enumerated (\<lambda>b. \<not> is_valid_character b) u of
                    Some (index, b) \<Rightarrow> Err (InvalidUnitAddressCharacter index b)
                  | None \<Rightarrow> Ok ()))"

section \<open>Specification\<close>

text \<open>
  A well-formed name is a component, or a component, an at-sign and a non-empty unit address.
\<close>

definition name_component_ok :: "bytes \<Rightarrow> bool" where
  "name_component_ok c \<longleftrightarrow>
     c \<noteq> [] \<and> length c \<le> 31 \<and> is_ascii_alphabetic (hd c) \<and> (\<forall>b\<in>set c. is_valid_character b)"

definition unit_address_ok :: "bytes \<Rightarrow> bool" where
  "unit_address_ok u \<longleftrightarrow> u \<noteq> [] \<and> (\<forall>b\<in>set u. is_valid_character b)"

definition node_name_ok :: "bytes \<Rightarrow> bool" where
  "node_name_ok name \<longleftrightarrow>
     name_component_ok name \<or>
     (\<exists>c u. name = c @ 64 # u \<and> name_component_ok c \<and> unit_address_ok u)"

lemma slice_split_hd: "\<exists>ys. slice_split p xs = takeWhile (\<lambda>x. \<not> p x) xs # ys"
  by (induction xs) auto

lemma component_eq: "component name = takeWhile (\<lambda>b. b \<noteq> 64) name"
  using slice_split_hd [of "\<lambda>b. b = 64" name] by (auto simp: component_def)

lemma unit_address_eq:
  "unit_address name =
     (if 64 \<in> set name then Some (tl (dropWhile (\<lambda>b. b \<noteq> 64) name)) else None)"
proof (cases "position (\<lambda>b. b = 64) name")
  case None
  then have "64 \<notin> set name" by (auto simp: position_None)
  with None show ?thesis by (simp add: unit_address_def slice_splitn2_def)
next
  case (Some i)
  have split: "name = take i name @ 64 # drop (Suc i) name" "\<forall>x\<in>set (take i name). x \<noteq> 64"
    using position_split [OF Some] by simp_all
  have "64 \<in> set name" by (subst split(1)) simp
  moreover have "dropWhile (\<lambda>b. b \<noteq> 64) name = 64 # drop (Suc i) name"
    by (subst split(1)) (use split(2) in \<open>simp add: dropWhile_append2 del: append_take_drop_id\<close>)
  ultimately show ?thesis using Some by (simp add: unit_address_def slice_splitn2_def)
qed

lemma component_no_at [simp]: "64 \<notin> set name \<Longrightarrow> component name = name"
  unfolding component_eq by (auto simp: takeWhile_eq_all_conv)

lemma component_at [simp]: "64 \<notin> set c \<Longrightarrow> component (c @ 64 # u) = c"
  unfolding component_eq by (subst takeWhile_append2) auto

lemma unit_address_no_at [simp]: "64 \<notin> set name \<Longrightarrow> unit_address name = None"
  by (simp add: unit_address_eq)

lemma unit_address_at [simp]: "64 \<notin> set c \<Longrightarrow> unit_address (c @ 64 # u) = Some u"
  unfolding unit_address_eq by (subst dropWhile_append2) auto

lemma is_valid_character_not_at: "is_valid_character b \<Longrightarrow> b \<noteq> 64"
  by (auto simp: is_valid_character_def is_ascii_alphanumeric_def is_ascii_alphabetic_def)

lemma is_valid_character_nonzero: "\<not> is_valid_character 0"
  by (auto simp: is_valid_character_def is_ascii_alphanumeric_def is_ascii_alphabetic_def)

lemma name_component_ok_no_at: "name_component_ok c \<Longrightarrow> 64 \<notin> set c"
  using is_valid_character_not_at by (auto simp: name_component_ok_def)

text \<open>Every byte string is its component, or its component, an at-sign and its unit address.\<close>

lemma name_split:
  "name = component name @ (case unit_address name of None \<Rightarrow> [] | Some u \<Rightarrow> 64 # u)"
proof (cases "64 \<in> set name")
  case True
  then obtain c u where "name = c @ 64 # u" "64 \<notin> set c" by (auto dest: split_list_first)
  then show ?thesis by simp
qed (simp add: unit_address_eq)

lemma name_validate_eq_Ok:
  "name_validate name = Ok () \<longleftrightarrow>
     name_component_ok (component name) \<and>
     (case unit_address name of None \<Rightarrow> True | Some u \<Rightarrow> unit_address_ok u)"
  by (auto simp: name_validate_def Let_def name_component_ok_def unit_address_ok_def
      find_enumerated_None dest!: find_enumerated_SomeD split: list.splits option.splits)

lemma name_validate_iff: "name_validate name = Ok () \<longleftrightarrow> node_name_ok name"
proof
  assume "name_validate name = Ok ()"
  then show "node_name_ok name"
    using name_split [of name] unfolding name_validate_eq_Ok node_name_ok_def
    by (auto split: option.splits)
next
  assume "node_name_ok name"
  then consider "name_component_ok name"
    | c u where "name = c @ 64 # u" "name_component_ok c" "unit_address_ok u"
    by (auto simp: node_name_ok_def)
  then show "name_validate name = Ok ()"
    by cases (simp_all add: name_validate_eq_Ok name_component_ok_no_at)
qed

lemma name_validate_returns: "returns (name_validate name)"
  by (auto simp: name_validate_def Let_def split: list.split option.split)

lemma node_name_ok_nonzero: "node_name_ok name \<Longrightarrow> \<forall>b\<in>set name. b \<noteq> 0"
  using is_valid_character_nonzero
  by (auto simp: node_name_ok_def name_component_ok_def unit_address_ok_def)

lemma node_name_ok_nonempty: "node_name_ok name \<Longrightarrow> name \<noteq> []"
  by (auto simp: node_name_ok_def name_component_ok_def)

end
