(* ===== verification/Structure.thy ===== *)
theory Structure
  imports Strings Node_Name
begin

text \<open>
  The structure block, \<open>fdt/src/structure.rs\<close>: tokens, the two backward searches for duplicate
  names, and the single-pass state machine of \<open>Structure::new\<close>.  Every loop of the source is a
  step function run by \<open>run\<close> with the number of unread bytes as measure; the interpretations of
  \<open>decreasing_loop\<close> at the end show that each step consumes input, so \<open>run\<close> is the loop.
  The error type of the semantic checks (\<open>fdt/src/structure/semantic.rs\<close>) is here because
  \<open>StructureError\<close> wraps it.
\<close>

section \<open>Errors\<close>

datatype SemanticError =
    MissingCpusNode
  | MissingMemoryNode
  | UnitAddressWithoutReg
  | InvalidAddressCells usize
  | InvalidSizeCells usize
  | InvalidRegLength usize usize
  | RegEntrySizeOverflow u32 u32
  | MissingMemoryDeviceType
  | InvalidMemoryDeviceType
  | MissingMemoryReg
  | MemoryAddressDoesNotFitU64
  | MemorySizeDoesNotFitU64
  | InvalidMemoryAddressCells
  | InvalidMemorySizeCells
  | EmptyMemoryReg
  | ZeroMemorySize
  | MissingReservedMemoryAddressCells
  | MissingReservedMemorySizeCells
  | MissingReservedMemoryRanges
  | NonEmptyReservedMemoryRanges
  | InvalidReservedMemoryAddressCells
  | InvalidReservedMemorySizeCells
  | MissingReservedMemoryAllocation
  | UnsupportedDynamicReservedMemory
  | EmptyReservedMemoryReg
  | ReservedMemoryAddressDoesNotFitU64
  | ReservedMemorySizeDoesNotFitU64
  | ZeroReservedMemorySize
  | ReservedMemoryRangeEndOverflow
  | MemoryRangeEndOverflow

datatype StructureError =
    StructureRead ReadError
  | InvalidToken usize u32
  | ExpectedRootNode usize u32
  | RootNameNotEmpty usize u8
  | UnterminatedNodeName usize
  | InvalidNodeName usize usize usize NodeNameError
  | DuplicateNodeName usize usize usize
  | PropertyAfterChild usize usize
  | InvalidPropertyName usize u32 PropertyNameError
  | DuplicatePropertyName usize usize u32 usize
  | PrematureEnd usize usize
  | ExpectedEnd usize u32
  | TrailingData usize usize
  | Semantic SemanticError

section \<open>Tokens\<close>

datatype token = BeginNode | EndNode | PropertyToken | Nop | EndToken

fun token_value :: "token \<Rightarrow> u32" where
  "token_value BeginNode = 1"
| "token_value EndNode = 2"
| "token_value PropertyToken = 3"
| "token_value Nop = 4"
| "token_value EndToken = 9"

definition token_parse :: "u32 \<Rightarrow> usize \<Rightarrow> (token, StructureError) res" where
  "token_parse value offset =
     (if value = token_value BeginNode then Ok BeginNode
      else if value = token_value EndNode then Ok EndNode
      else if value = token_value PropertyToken then Ok PropertyToken
      else if value = token_value Nop then Ok Nop
      else if value = token_value EndToken then Ok EndToken
      else Err (InvalidToken offset value))"

definition read_token :: "reader \<Rightarrow> ((usize \<times> token) \<times> reader, StructureError) res" where
  "read_token r = (
     let offset = reader_position r in
     bind_res (map_err StructureRead (read_u32 r)) (\<lambda>(value, r').
     bind_res (token_parse value offset) (\<lambda>token.
     Ok ((offset, token), r'))))"

definition non_nop_step ::
    "reader \<Rightarrow> ((reader, (usize \<times> token) \<times> reader) flow, StructureError) res" where
  "non_nop_step r = bind_res (read_token r) (\<lambda>((offset, token), r').
     if token \<noteq> Nop then Ok (Break ((offset, token), r')) else Ok (Continue r'))"

definition read_non_nop_token :: "reader \<Rightarrow> ((usize \<times> token) \<times> reader, StructureError) res" where
  "read_non_nop_token r = run unread non_nop_step r"

section \<open>Backward searches\<close>

text \<open>
  \<open>find_prior_sibling_node\<close> keeps a reader, the depth and the last match.  The decrement of
  \<open>depth\<close> and the \<open>unreachable!\<close> arm are possible panics.
\<close>

definition sibling_step :: "usize \<Rightarrow> usize \<Rightarrow> bytes \<Rightarrow> reader \<times> nat \<times> usize option
    \<Rightarrow> ((reader \<times> nat \<times> usize option, usize option) flow, StructureError) res" where
  "sibling_step node_offset parent_depth name = (\<lambda>(r, depth, matching_sibling).
     if \<not> reader_position r < node_offset then Ok (Break matching_sibling) else
     bind_res (read_token r) (\<lambda>((token_offset, token), r1).
     case token of
       BeginNode \<Rightarrow>
         bind_res (map_err StructureRead (read_nul_terminated r1)) (\<lambda>(node_name, r2).
         bind_res (map_err StructureRead (align_to_4 r2)) (\<lambda>(_, r3).
         let matching = (if depth = parent_depth \<and> node_name = name then Some token_offset
                         else matching_sibling);
             depth' = depth + 1 in
         Ok (Continue (r3, depth', if depth' = parent_depth then None else matching))))
     | EndNode \<Rightarrow>
         if depth = 0 then Panic else Ok (Continue (r1, depth - 1, matching_sibling))
     | PropertyToken \<Rightarrow>
         bind_res (map_err StructureRead (read_u32 r1)) (\<lambda>(len, r2).
         bind_res (map_err StructureRead (read_u32 r2)) (\<lambda>(_, r3).
         bind_res (map_err StructureRead (read_bytes r3 (usize_from_u32 len))) (\<lambda>(_, r4).
         bind_res (map_err StructureRead (align_to_4 r4)) (\<lambda>(_, r5).
         Ok (Continue (r5, depth, matching_sibling))))))
     | Nop \<Rightarrow> Ok (Continue (r1, depth, matching_sibling))
     | EndToken \<Rightarrow> Panic))"

definition find_prior_sibling_node ::
    "bytes \<Rightarrow> usize \<Rightarrow> usize \<Rightarrow> usize \<Rightarrow> bytes \<Rightarrow> (usize option, StructureError) res" where
  "find_prior_sibling_node bs structure_start node_offset parent_depth name =
     bind_res (map_err StructureRead (read_bytes (reader_new bs) structure_start)) (\<lambda>(_, r).
     run (\<lambda>s. unread (fst s)) (sibling_step node_offset parent_depth name) (r, 1, None))"

definition property_search_step :: "usize \<Rightarrow> bytes \<Rightarrow> strings \<Rightarrow> reader
    \<Rightarrow> ((reader, usize option) flow, StructureError) res" where
  "property_search_step properties_end name st r =
     (if \<not> reader_position r < properties_end then Ok (Break None) else
      bind_res (read_token r) (\<lambda>((token_offset, token), r1).
      if token = Nop then Ok (Continue r1) else
      bind_res (map_err StructureRead (read_u32 r1)) (\<lambda>(len, r2).
      bind_res (map_err StructureRead (read_u32 r2)) (\<lambda>(name_offset, r3).
      case strings_validate_property_name st name_offset of
        Ok property_name \<Rightarrow>
          if property_name = name then Ok (Break (Some token_offset)) else
          bind_res (map_err StructureRead (read_bytes r3 (usize_from_u32 len))) (\<lambda>(_, r4).
          bind_res (map_err StructureRead (align_to_4 r4)) (\<lambda>(_, r5).
          Ok (Continue r5)))
      | _ \<Rightarrow> Panic))))"

definition find_property ::
    "bytes \<Rightarrow> usize \<Rightarrow> usize \<Rightarrow> bytes \<Rightarrow> strings \<Rightarrow> (usize option, StructureError) res" where
  "find_property bs properties_start properties_end name st =
     bind_res (map_err StructureRead (read_bytes (reader_new bs) properties_start)) (\<lambda>(_, r).
     run unread (property_search_step properties_end name st) r)"

definition validate_property ::
    "reader \<Rightarrow> bytes \<Rightarrow> strings \<Rightarrow> usize \<Rightarrow> usize \<Rightarrow> usize \<Rightarrow> (reader, StructureError) res" where
  "validate_property r bs st properties_start token_offset depth =
     bind_res (map_err StructureRead (read_u32 r)) (\<lambda>(len, r1).
     bind_res (map_err StructureRead (read_u32 r1)) (\<lambda>(name_offset, r2).
     bind_res (map_err (InvalidPropertyName token_offset name_offset)
                 (strings_validate_property_name st name_offset)) (\<lambda>name.
     bind_res (map_err StructureRead (read_bytes r2 (usize_from_u32 len))) (\<lambda>(_, r3).
     bind_res (map_err StructureRead (align_to_4 r3)) (\<lambda>(_, r4).
     bind_res (find_property bs properties_start token_offset name st) (\<lambda>found.
     case found of
       Some first_property_offset \<Rightarrow>
         Err (DuplicatePropertyName first_property_offset token_offset name_offset depth)
     | None \<Rightarrow> Ok r4))))))"

section \<open>The validating pass\<close>

datatype node_phase = PropertiesPhase | ChildrenPhase

record parse_state =
  ps_reader :: reader
  ps_depth :: nat
  ps_phase :: node_phase
  ps_properties_start :: usize

definition structure_step :: "bytes \<Rightarrow> strings \<Rightarrow> usize \<Rightarrow> parse_state
    \<Rightarrow> ((parse_state, reader) flow, StructureError) res" where
  "structure_step bs st root_content_start s =
     (if \<not> ps_depth s > 0 then Ok (Break (ps_reader s)) else
      bind_res (read_token (ps_reader s)) (\<lambda>((token_offset, token), r1).
      case token of
        BeginNode \<Rightarrow>
          let name_offset = reader_position r1 in
          bind_res (map_err (\<lambda>_. UnterminatedNodeName name_offset) (read_nul_terminated r1)) (\<lambda>(name, r2).
          bind_res (map_err (InvalidNodeName token_offset name_offset (ps_depth s)) (name_validate name)) (\<lambda>_.
          bind_res (map_err StructureRead (align_to_4 r2)) (\<lambda>(_, r3).
          bind_res (find_prior_sibling_node bs root_content_start token_offset (ps_depth s) name) (\<lambda>found.
          case found of
            Some first_node_offset \<Rightarrow>
              Err (DuplicateNodeName first_node_offset token_offset (ps_depth s))
          | None \<Rightarrow>
              Ok (Continue \<lparr>ps_reader = r3, ps_depth = ps_depth s + 1, ps_phase = PropertiesPhase,
                            ps_properties_start = reader_position r3\<rparr>)))))
      | EndNode \<Rightarrow>
          let depth = ps_depth s - 1 in
          Ok (Continue (s\<lparr>ps_reader := r1, ps_depth := depth,
                          ps_phase := if depth > 0 then ChildrenPhase else ps_phase s\<rparr>))
      | PropertyToken \<Rightarrow>
          if ps_phase s = ChildrenPhase then Err (PropertyAfterChild token_offset (ps_depth s)) else
          bind_res (validate_property r1 bs st (ps_properties_start s) token_offset (ps_depth s)) (\<lambda>r2.
          Ok (Continue (s\<lparr>ps_reader := r2\<rparr>)))
      | Nop \<Rightarrow> Ok (Continue (s\<lparr>ps_reader := r1\<rparr>))
      | EndToken \<Rightarrow> Err (PrematureEnd token_offset (ps_depth s))))"

record structure_block =
  sb_bytes :: bytes

definition structure_new :: "bytes \<Rightarrow> strings \<Rightarrow> (structure_block, StructureError) res" where
  "structure_new bs st =
     bind_res (read_non_nop_token (reader_new bs)) (\<lambda>((root_token_offset, token), r1).
     if token \<noteq> BeginNode then Err (ExpectedRootNode root_token_offset (token_value token)) else
     let root_name_offset = reader_position r1 in
     bind_res (map_err StructureRead (read_u8 r1)) (\<lambda>(first_byte, r2).
     if first_byte \<noteq> 0 then Err (RootNameNotEmpty root_name_offset first_byte) else
     bind_res (map_err StructureRead (align_to_4 r2)) (\<lambda>(_, r3).
     let root_content_start = reader_position r3 in
     bind_res (run (\<lambda>s. unread (ps_reader s)) (structure_step bs st root_content_start)
         \<lparr>ps_reader = r3, ps_depth = 1, ps_phase = PropertiesPhase,
          ps_properties_start = reader_position r3\<rparr>) (\<lambda>r4.
     bind_res (read_non_nop_token r4) (\<lambda>((end_token_offset, token), r5).
     if token \<noteq> EndToken then Err (ExpectedEnd end_token_offset (token_value token)) else
     if reader_remaining r5 \<noteq> 0 then Err (TrailingData (reader_position r5) (reader_remaining r5))
     else Ok \<lparr>sb_bytes = bs\<rparr>)))))"

section \<open>Every loop makes progress\<close>

lemma token_parse_value [simp]: "token_parse (token_value t) offset = Ok t"
  by (cases t) (simp_all add: token_parse_def)

lemma token_parse_eq_Ok: "token_parse v offset = Ok t \<longleftrightarrow> v = token_value t"
proof
  show "token_parse v offset = Ok t \<Longrightarrow> v = token_value t"
    by (auto simp: token_parse_def split: if_splits)
qed simp

lemma token_parse_returns [simp]: "returns (token_parse v offset)"
  by (simp add: token_parse_def)

lemma read_token_progress:
  "read_token r = Ok ((offset, token), r') \<Longrightarrow>
     rd_bytes r' = rd_bytes r \<and> unread r' + 4 = unread r \<and> offset = rd_offset r"
  by (auto simp: read_token_def Let_def res_simps reader_position_def dest!: read_u32_progress)

interpretation non_nop: decreasing_loop unread non_nop_step
  by unfold_locales
    (auto simp: non_nop_step_def bind_res_def dest!: read_token_progress split: res.splits if_splits)

interpretation sibling: decreasing_loop "\<lambda>s. unread (fst s)" "sibling_step node_offset parent_depth name"
  for node_offset parent_depth name
  by unfold_locales
    (auto simp: sibling_step_def bind_res_def Let_def map_err_def dest!: read_token_progress read_progress
      split: res.splits if_splits token.splits)

interpretation property_search: decreasing_loop unread "property_search_step properties_end name st"
  for properties_end name st
  by unfold_locales
    (auto simp: property_search_step_def bind_res_def map_err_def dest!: read_token_progress read_progress
      split: res.splits if_splits)

lemma validate_property_progress:
  "validate_property r bs st ps off d = Ok r' \<Longrightarrow> rd_bytes r' = rd_bytes r \<and> unread r' \<le> unread r"
  by (auto simp: validate_property_def res_simps dest!: read_progress split: option.splits)

interpretation structure_loop:
  decreasing_loop "\<lambda>s. unread (ps_reader s)" "structure_step bs st root_content_start"
  for bs st root_content_start
  by unfold_locales
    (auto simp: structure_step_def bind_res_def Let_def map_err_def
      dest!: read_token_progress read_progress validate_property_progress
      split: res.splits if_splits token.splits option.splits)

end
