(* ===== verification/Items.thy ===== *)
theory Items
  imports Structure
begin

text \<open>
  The structure block as a stream of items.  An item is one token with its payload; \<open>item_at\<close>
  decodes the item at the start of a 4-byte aligned suffix of the block.  Every loop of
  \<open>structure.rs\<close> and \<open>view.rs\<close> reads one item per iteration, and the lemmas here turn
  each sequence of reader calls into a case analysis on \<open>item_at\<close>, which does not mention
  offsets: this is what makes the views over a suffix agree with the pass over the whole block.
\<close>

section \<open>Items\<close>

datatype item = IBegin bytes | IEnd | IProp u32 bytes | INop | IStop

fun item_len :: "item \<Rightarrow> nat" where
  "item_len (IBegin name) = 4 + (Suc (length name) + pad4 (Suc (length name)))"
| "item_len (IProp _ value) = 12 + (length value + pad4 (length value))"
| "item_len _ = 4"

definition item_at :: "bytes \<Rightarrow> item option" where
  "item_at bs =
     (if length bs < 4 then None else
      let value = u32_from_be_bytes (take 4 bs); payload = drop 4 bs in
      if value = token_value BeginNode then
        (case position (\<lambda>b. b = 0) payload of
           None \<Rightarrow> None
         | Some n \<Rightarrow> if Suc n + pad4 (Suc n) \<le> length payload then Some (IBegin (take n payload)) else None)
      else if value = token_value EndNode then Some IEnd
      else if value = token_value PropertyToken then
        (if length payload < 8 then None else
         let n = usize_from_u32 (u32_from_be_bytes (take 4 payload));
             name_offset = u32_from_be_bytes (take 4 (drop 4 payload)) in
         if n + pad4 n \<le> length payload - 8 then Some (IProp name_offset (take n (drop 8 payload))) else None)
      else if value = token_value Nop then Some INop
      else if value = token_value EndToken then Some IStop
      else None)"

text \<open>The suffix after the item at the start.\<close>

definition item_rest :: "item \<Rightarrow> bytes \<Rightarrow> bytes" where
  "item_rest i bs = drop (item_len i) bs"

lemma item_len_aligned [simp]: "item_len i mod 4 = 0"
proof (cases i)
  case (IBegin name)
  have "(4 + (Suc (length name) + pad4 (Suc (length name)))) mod 4 =
      (Suc (length name) + pad4 (Suc (length name))) mod 4"
    by (rule mod_add_self1)
  with IBegin pad4_aligned [of "Suc (length name)"] show ?thesis by simp
next
  case (IProp off v)
  have "(12 + (length v + pad4 (length v))) mod 4 = (length v + pad4 (length v)) mod 4"
    by (subst mod_add_left_eq [symmetric]) simp
  with IProp pad4_aligned [of "length v"] show ?thesis by simp
qed simp_all

lemma item_len_pos [simp]: "4 \<le> item_len i"
  by (cases i) auto

lemma item_at_len: "item_at bs = Some i \<Longrightarrow> item_len i \<le> length bs"
  by (auto simp: item_at_def Let_def position_Some split: if_splits option.splits)

lemma length_item_rest: "item_at bs = Some i \<Longrightarrow> length (item_rest i bs) + item_len i = length bs"
  using item_at_len [of bs i] by (simp add: item_rest_def)

lemma item_rest_shorter: "item_at bs = Some i \<Longrightarrow> length (item_rest i bs) < length bs"
  using item_at_len [of bs i] item_len_pos [of i] by (simp add: item_rest_def del: item_len_pos)

section \<open>Aligned readers\<close>

definition aligned :: "bytes \<Rightarrow> reader \<Rightarrow> bool" where
  "aligned bs r \<longleftrightarrow> reader_ok r \<and> rd_bytes r = bs \<and> rd_offset r mod 4 = 0"

lemma aligned_ok [simp]: "aligned bs r \<Longrightarrow> reader_ok r"
  by (simp add: aligned_def)

lemma aligned_new [simp]: "length bs < USIZE_LIMIT \<Longrightarrow> aligned bs (reader_new bs)"
  by (simp add: aligned_def)

lemma aligned_remaining: "aligned bs r \<Longrightarrow> remaining_bytes r = drop (rd_offset r) bs"
  by (simp add: aligned_def remaining_bytes_def)

lemma aligned_skip_item [simp]:
  assumes "aligned bs r" "item_at (remaining_bytes r) = Some i"
  shows "aligned bs (skip (item_len i) r)" "remaining_bytes (skip (item_len i) r) = item_rest i (remaining_bytes r)"
  using assms item_at_len [OF assms(2)]
  by (auto simp: aligned_def item_rest_def mod_add_eq [symmetric])

lemma aligned_unique:
  "aligned bs r \<Longrightarrow> aligned bs r' \<Longrightarrow> remaining_bytes r = remaining_bytes r' \<Longrightarrow> r = r'"
  by (cases r, cases r') (auto simp: aligned_def remaining_bytes_def reader_ok_def
      dest: arg_cong [where f = length])

lemma read_token_eq:
  assumes "reader_ok r"
  shows "read_token r =
    (if length (remaining_bytes r) < 4
     then Err (StructureRead (Truncated (rd_offset r) 4 (length (remaining_bytes r))))
     else bind_res (token_parse (u32_from_be_bytes (take 4 (remaining_bytes r))) (rd_offset r))
            (\<lambda>t. Ok ((rd_offset r, t), skip 4 r)))"
  using assms by (simp add: read_token_def read_u32_eq reader_position_def Let_def)

text \<open>The token an item starts with.\<close>

fun item_token :: "item \<Rightarrow> token" where
  "item_token (IBegin _) = BeginNode"
| "item_token IEnd = EndNode"
| "item_token (IProp _ _) = PropertyToken"
| "item_token INop = Nop"
| "item_token IStop = EndToken"

lemma item_at_token:
  "item_at bs = Some i \<Longrightarrow> 4 \<le> length bs \<and> u32_from_be_bytes (take 4 bs) = token_value (item_token i)"
  by (auto simp: item_at_def Let_def split: if_splits option.splits)

lemma read_token_item [simp]:
  "reader_ok r \<Longrightarrow> item_at (remaining_bytes r) = Some i \<Longrightarrow>
     read_token r = Ok ((rd_offset r, item_token i), skip 4 r)"
  by (drule item_at_token) (simp add: read_token_eq)

lemma begin_reads:
  assumes "aligned bs r" "item_at (remaining_bytes r) = Some (IBegin name)"
  shows "read_nul_terminated (skip 4 r) = Ok (name, skip (4 + Suc (length name)) r)"
    and "\<exists>p. align_to_4 (skip (4 + Suc (length name)) r) = Ok (p, skip (item_len (IBegin name)) r)"
    and "reader_ok (skip 4 r)" and "reader_ok (skip (4 + Suc (length name)) r)"
    and "0 \<notin> set name"
proof -
  let ?bs = "drop 4 (remaining_bytes r)"
  obtain n where n: "position (\<lambda>b. b = 0) ?bs = Some n" "name = take n ?bs"
      "Suc n + pad4 (Suc n) \<le> length ?bs" and len: "4 \<le> length (remaining_bytes r)"
    using assms(2) by (auto simp: item_at_def Let_def split: if_splits option.splits)
  have ln: "length name = n" using n by (auto simp: position_Some)
  show ok: "reader_ok (skip 4 r)" "reader_ok (skip (4 + Suc (length name)) r)"
    using assms(1) len n(3) ln by (simp_all add: aligned_def)
  show "read_nul_terminated (skip 4 r) = Ok (name, skip (4 + Suc (length name)) r)"
    using ok n ln by (simp add: read_nul_terminated_eq add.commute)
  have "pad4 (rd_offset r + (4 + Suc n)) = pad4 (Suc n)"
    using assms(1) pad4_shift [of "rd_offset r + 4" "Suc n"]
    by (simp add: aligned_def mod_add_eq [symmetric] add.assoc add.left_commute)
  then show "\<exists>p. align_to_4 (skip (4 + Suc (length name)) r) = Ok (p, skip (item_len (IBegin name)) r)"
    using ok(2) n(3) ln by (simp add: align_to_4_eq Let_def add.assoc del: add_Suc_right add_Suc)
  show "0 \<notin> set name" using position_split(2) [OF n(1)] n(2) by auto
qed

lemma prop_reads:
  assumes "aligned bs r" "item_at (remaining_bytes r) = Some (IProp name_offset value)"
  obtains len p where "read_u32 (skip 4 r) = Ok (len, skip 8 r)"
    "read_u32 (skip 8 r) = Ok (name_offset, skip 12 r)"
    "read_bytes (skip 12 r) (usize_from_u32 len) = Ok (value, skip (12 + length value) r)"
    "align_to_4 (skip (12 + length value) r) = Ok (p, skip (item_len (IProp name_offset value)) r)"
proof -
  let ?bs = "drop 4 (remaining_bytes r)"
  define len where "len = u32_from_be_bytes (take 4 ?bs)"
  let ?n = "usize_from_u32 len"
  have p: "name_offset = u32_from_be_bytes (take 4 (drop 4 ?bs))" "value = take ?n (drop 8 ?bs)"
    "?n + pad4 ?n \<le> length ?bs - 8" "8 \<le> length ?bs"
    using assms(2) by (auto simp: item_at_def Let_def len_def split: if_splits option.splits)
  have lv: "length value = ?n" using p by simp
  have ok: "reader_ok (skip 4 r)" "reader_ok (skip 8 r)" "reader_ok (skip 12 r)"
      "reader_ok (skip (12 + ?n) r)"
    using assms(1) p(3,4) by (simp_all add: aligned_def)
  have "read_u32 (skip 4 r) = Ok (len, skip 8 r)"
    using ok(1) p(4) by (simp add: read_u32_eq len_def)
  moreover have "read_u32 (skip 8 r) = Ok (name_offset, skip 12 r)"
    using ok(2) p(1,4) by (simp add: read_u32_eq)
  moreover have "read_bytes (skip 12 r) (usize_from_u32 len) = Ok (value, skip (12 + length value) r)"
    using ok(3) p(2,3,4) lv by (simp add: read_bytes_eq)
  moreover have "pad4 (rd_offset r + (12 + ?n)) = pad4 ?n"
    using assms(1) pad4_shift [of "rd_offset r + 12" ?n]
    by (simp add: aligned_def mod_add_eq [symmetric] add.assoc)
  then have "\<exists>q. align_to_4 (skip (12 + length value) r) = Ok (q, skip (item_len (IProp name_offset value)) r)"
    using ok(4) p(3,4) lv by (simp add: align_to_4_eq Let_def add.assoc)
  ultimately show thesis using that by blast
qed

section \<open>Sequences of items\<close>

fun path :: "bytes \<Rightarrow> item list \<Rightarrow> bool" where
  "path bs [] = True"
| "path bs (i # is) = (item_at bs = Some i \<and> path (item_rest i bs) is)"

definition items_len :: "item list \<Rightarrow> nat" where
  "items_len is = sum_list (map item_len is)"

lemma items_len_simps [simp]:
  "items_len [] = 0" "items_len (i # is) = item_len i + items_len is"
  "items_len (is @ js) = items_len is + items_len js"
  by (simp_all add: items_len_def)

lemma items_len_aligned [simp]: "items_len is mod 4 = 0"
  by (induction "is") (simp_all add: mod_add_eq [symmetric])

lemma path_append: "path bs (is @ js) \<longleftrightarrow> path bs is \<and> path (drop (items_len is) bs) js"
  by (induction "is" arbitrary: bs) (auto simp: item_rest_def add.commute)

lemma path_len: "path bs is \<Longrightarrow> items_len is \<le> length bs"
proof (induction "is" arbitrary: bs)
  case (Cons i "is")
  then have "items_len is \<le> length (item_rest i bs)" "item_len i \<le> length bs"
    by (auto dest: item_at_len)
  then show ?case by (simp add: item_rest_def)
qed simp

end
