(* ===== verification/Grammar.thy ===== *)
theory Grammar
  imports Items
begin

text \<open>
  The abstract devicetree and the grammar of its encodings, and the two backward searches of
  \<open>structure.rs\<close> related to it.  \<open>wkids\<close> and \<open>wbody\<close> say that a suffix of the block
  begins with the remaining children, or with the remaining properties and children, of an open
  node; their first arguments are the names already used there, so uniqueness is part of the
  grammar.
\<close>

section \<open>Trees\<close>

datatype dtree = DNode (dt_name: bytes) (dt_props: "(bytes \<times> bytes) list") (dt_kids: "dtree list")

inductive wkids :: "strings \<Rightarrow> bytes list \<Rightarrow> bytes \<Rightarrow> dtree list \<Rightarrow> bytes \<Rightarrow> bool"
  and wbody :: "strings \<Rightarrow> bytes list \<Rightarrow> bytes \<Rightarrow> (bytes \<times> bytes) list \<Rightarrow> dtree list \<Rightarrow> bytes \<Rightarrow> bool"
  for st where
  wkids_end: "item_at bs = Some IEnd \<Longrightarrow> wkids st used bs [] (item_rest IEnd bs)"
| wkids_nop: "item_at bs = Some INop \<Longrightarrow> wkids st used (item_rest INop bs) cs r \<Longrightarrow> wkids st used bs cs r"
| wkids_begin: "item_at bs = Some (IBegin n) \<Longrightarrow> node_name_ok n \<Longrightarrow> n \<notin> set used \<Longrightarrow>
     wbody st [] (item_rest (IBegin n) bs) ps ks r1 \<Longrightarrow> wkids st (n # used) r1 cs r \<Longrightarrow>
     wkids st used bs (DNode n ps ks # cs) r"
| wbody_nop: "item_at bs = Some INop \<Longrightarrow> wbody st used (item_rest INop bs) ps cs r \<Longrightarrow> wbody st used bs ps cs r"
| wbody_prop: "item_at bs = Some (IProp off v) \<Longrightarrow> strings_validate_property_name st off = Ok n \<Longrightarrow>
     n \<notin> set used \<Longrightarrow> wbody st (n # used) (item_rest (IProp off v) bs) ps cs r \<Longrightarrow>
     wbody st used bs ((n, v) # ps) cs r"
| wbody_kids: "wkids st [] bs cs r \<Longrightarrow> wbody st used bs [] cs r"

text \<open>The grammar read off the first item.\<close>

lemma wkids_item:
  "item_at bs = Some INop \<Longrightarrow> wkids st u bs cs r \<longleftrightarrow> wkids st u (item_rest INop bs) cs r"
  "item_at bs = Some IEnd \<Longrightarrow> wkids st u bs cs r \<longleftrightarrow> cs = [] \<and> r = item_rest IEnd bs"
  "item_at bs = Some (IBegin n) \<Longrightarrow> wkids st u bs cs r \<longleftrightarrow> node_name_ok n \<and> n \<notin> set u \<and>
     (\<exists>ps ks r1 cs'. cs = DNode n ps ks # cs' \<and> wbody st [] (item_rest (IBegin n) bs) ps ks r1 \<and>
        wkids st (n # u) r1 cs' r)"
  "item_at bs = Some (IProp off v) \<Longrightarrow> \<not> wkids st u bs cs r"
  "item_at bs = Some IStop \<Longrightarrow> \<not> wkids st u bs cs r"
  "item_at bs = None \<Longrightarrow> \<not> wkids st u bs cs r"
  by (subst wkids.simps; auto)+

lemma wbody_item_nop:
  "item_at bs = Some INop \<Longrightarrow> wbody st u bs ps cs r \<longleftrightarrow> wbody st u (item_rest INop bs) ps cs r"
  by (subst wbody.simps) (auto simp: wkids_item intro: wbody_kids)

lemma wbody_item:
  "item_at bs = Some IEnd \<Longrightarrow> wbody st u bs ps cs r \<longleftrightarrow> ps = [] \<and> wkids st [] bs cs r"
  "item_at bs = Some (IBegin n) \<Longrightarrow> wbody st u bs ps cs r \<longleftrightarrow> ps = [] \<and> wkids st [] bs cs r"
  "item_at bs = Some (IProp off v) \<Longrightarrow> wbody st u bs ps cs r \<longleftrightarrow>
     (\<exists>n ps'. strings_validate_property_name st off = Ok n \<and> n \<notin> set u \<and> ps = (n, v) # ps' \<and>
        wbody st (n # u) (item_rest (IProp off v) bs) ps' cs r)"
  "item_at bs = Some IStop \<Longrightarrow> \<not> wbody st u bs ps cs r"
  "item_at bs = None \<Longrightarrow> \<not> wbody st u bs ps cs r"
  by (subst wbody.simps; auto simp: wkids_item)+

text \<open>What the grammar forces on the tree.\<close>

fun wf_tree :: "dtree \<Rightarrow> bool" where
  "wf_tree (DNode n ps ks) \<longleftrightarrow>
     distinct (map fst ps) \<and> distinct (map dt_name ks) \<and>
     (\<forall>k\<in>set ks. node_name_ok (dt_name k) \<and> wf_tree k)"

lemma wgrammar_wf:
  "wkids st used bs cs r \<Longrightarrow>
     distinct (map dt_name cs) \<and> set (map dt_name cs) \<inter> set used = {} \<and>
     (\<forall>k\<in>set cs. node_name_ok (dt_name k) \<and> wf_tree k)"
  "wbody st used bs ps cs r \<Longrightarrow>
     distinct (map fst ps) \<and> set (map fst ps) \<inter> set used = {} \<and>
     distinct (map dt_name cs) \<and> (\<forall>k\<in>set cs. node_name_ok (dt_name k) \<and> wf_tree k)"
  by (induction rule: wkids_wbody.inducts) auto

lemma wgrammar_shorter:
  "wkids st used bs cs r \<Longrightarrow> length r < length bs"
  "wbody st used bs ps cs r \<Longrightarrow> length r < length bs"
  by (induction rule: wkids_wbody.inducts) (auto dest: item_rest_shorter)

section \<open>Open nodes\<close>

text \<open>
  \<open>chain st Ss bs rest\<close>: from \<open>bs\<close> all the open nodes, whose used child names are
  \<open>Ss\<close> (innermost first), are closed, leaving \<open>rest\<close>.
\<close>

fun chain :: "strings \<Rightarrow> bytes list list \<Rightarrow> bytes \<Rightarrow> bytes \<Rightarrow> bool" where
  "chain st [] bs rest \<longleftrightarrow> bs = rest"
| "chain st (used # S) bs rest \<longleftrightarrow> (\<exists>cs r. wkids st used bs cs r \<and> chain st S r rest)"

definition pchain :: "strings \<Rightarrow> bytes list \<Rightarrow> bytes list list \<Rightarrow> bytes \<Rightarrow> bytes \<Rightarrow> bool" where
  "pchain st used S bs rest \<longleftrightarrow> (\<exists>ps cs r. wbody st used bs ps cs r \<and> chain st S r rest)"

lemma chain_item:
  "item_at bs = Some INop \<Longrightarrow> chain st (u # S) bs rest \<longleftrightarrow> chain st (u # S) (item_rest INop bs) rest"
  "item_at bs = Some IEnd \<Longrightarrow> chain st (u # S) bs rest \<longleftrightarrow> chain st S (item_rest IEnd bs) rest"
  "item_at bs = Some (IBegin n) \<Longrightarrow>
     chain st (u # S) bs rest \<longleftrightarrow>
       node_name_ok n \<and> n \<notin> set u \<and> pchain st [] ((n # u) # S) (item_rest (IBegin n) bs) rest"
  "item_at bs = Some (IProp off v) \<Longrightarrow> \<not> chain st (u # S) bs rest"
  "item_at bs = Some IStop \<Longrightarrow> \<not> chain st (u # S) bs rest"
  "item_at bs = None \<Longrightarrow> \<not> chain st (u # S) bs rest"
  by (auto simp: wkids_item pchain_def) (blast+)?

lemma pchain_item:
  "item_at bs = Some INop \<Longrightarrow> pchain st u S bs rest \<longleftrightarrow> pchain st u S (item_rest INop bs) rest"
  "item_at bs = Some IEnd \<Longrightarrow> pchain st u S bs rest \<longleftrightarrow> chain st S (item_rest IEnd bs) rest"
  "item_at bs = Some (IBegin n) \<Longrightarrow>
     pchain st u S bs rest \<longleftrightarrow> node_name_ok n \<and> pchain st [] ([n] # S) (item_rest (IBegin n) bs) rest"
  "item_at bs = Some (IProp off v) \<Longrightarrow>
     pchain st u S bs rest \<longleftrightarrow>
       (\<exists>n. strings_validate_property_name st off = Ok n \<and> n \<notin> set u \<and>
            pchain st (n # u) S (item_rest (IProp off v) bs) rest)"
  "item_at bs = Some IStop \<Longrightarrow> \<not> pchain st u S bs rest"
  "item_at bs = None \<Longrightarrow> \<not> pchain st u S bs rest"
  unfolding pchain_def
  by (auto simp: wbody_item_nop wbody_item wkids_item) (blast+)?

section \<open>The search for a prior sibling\<close>

text \<open>The child names used in each open node after a sequence of items, innermost first.\<close>

fun open_names :: "item list \<Rightarrow> bytes list list \<Rightarrow> bytes list list option" where
  "open_names [] S = Some S"
| "open_names (IBegin n # is) (u # S) = open_names is ([] # (n # u) # S)"
| "open_names (IEnd # is) (u # S) = (if S = [] then None else open_names is S)"
| "open_names (INop # is) (u # S) = open_names is (u # S)"
| "open_names (IProp _ _ # is) (u # S) = open_names is (u # S)"
| "open_names _ _ = None"

lemma open_names_append:
  "open_names (is @ js) S = (case open_names is S of None \<Rightarrow> None | Some S' \<Rightarrow> open_names js S')"
  by (induction "is" S rule: open_names.induct) auto

lemma sibling_step_items:
  assumes "aligned bs r" "reader_position r < node_offset"
  shows
    "item_at (remaining_bytes r) = Some (IBegin n) \<Longrightarrow>
       sibling_step node_offset d name (r, k, m) =
         Ok (Continue (skip (item_len (IBegin n)) r, k + 1,
              if k + 1 = d then None else if k = d \<and> n = name then Some (rd_offset r) else m))"
    "item_at (remaining_bytes r) = Some IEnd \<Longrightarrow> k \<noteq> 0 \<Longrightarrow>
       sibling_step node_offset d name (r, k, m) = Ok (Continue (skip 4 r, k - 1, m))"
    "item_at (remaining_bytes r) = Some INop \<Longrightarrow>
       sibling_step node_offset d name (r, k, m) = Ok (Continue (skip 4 r, k, m))"
  subgoal using assms begin_reads [of bs r n] by (auto simp: sibling_step_def Let_def)
  using assms by (simp_all add: sibling_step_def)

lemma sibling_step_prop:
  assumes "aligned bs r" "reader_position r < node_offset" "item_at (remaining_bytes r) = Some (IProp off v)"
  shows "sibling_step node_offset d name (r, k, m) = Ok (Continue (skip (item_len (IProp off v)) r, k, m))"
proof (rule prop_reads [OF assms(1,3)])
qed (use assms in \<open>simp add: sibling_step_def del: item_len.simps\<close>)

text \<open>
  The match is kept exactly for names used in the open node at depth \<open>d\<close>: index \<open>length S - d\<close>
  of the stack.
\<close>

definition level_match :: "nat \<Rightarrow> bytes \<Rightarrow> bytes list list \<Rightarrow> 'o option \<Rightarrow> bool" where
  "level_match d name S m \<longleftrightarrow> (d \<le> length S \<longrightarrow> (m \<noteq> None \<longleftrightarrow> name \<in> set (S ! (length S - d))))"

lemma level_match_begin:
  assumes "level_match d name (u # S) m" "0 < d"
  shows "level_match d name ([] # (n # u) # S)
     (if Suc (Suc (length S)) = d then None else if Suc (length S) = d \<and> n = name then Some x else m)"
proof -
  consider "length S + 2 < d" | "d = length S + 2" | "d = length S + 1" | "d < length S + 1" by linarith
  then show ?thesis
  proof cases
    case 4
    then obtain j where "length S + 1 - d = Suc j" by (metis Suc_diff_Suc)
    with 4 assms show ?thesis by (auto simp: level_match_def nth_Cons' Suc_diff_le)
  qed (use assms in \<open>auto simp: level_match_def\<close>)
qed

lemma level_match_end:
  assumes "level_match d name (u # S) m" "S \<noteq> []"
  shows "level_match d name S m"
  using assms by (cases "d \<le> length S") (auto simp: level_match_def Suc_diff_le)

lemma sibling_run:
  assumes "aligned bs r" "path (remaining_bytes r) is" "node_offset = rd_offset r + items_len is"
    "open_names is S = Some S'" "0 < d" "S \<noteq> []" "level_match d name S m"
  shows "\<exists>m'. run (\<lambda>s. unread (fst s)) (sibling_step node_offset d name) (r, length S, m) = Ok m' \<and>
     level_match d name S' m'"
  using assms
proof (induction "is" arbitrary: r S m)
  case Nil
  then show ?case
    by (subst sibling.run_unfold) (simp add: sibling_step_def reader_position_def)
next
  case (Cons i "is")
  obtain u T where S: "S = u # T" using Cons.prems(6) by (cases S) auto
  have item: "item_at (remaining_bytes r) = Some i" and path: "path (item_rest i (remaining_bytes r)) is"
    using Cons.prems by auto
  have pos: "reader_position r < node_offset"
    using item_len_pos [of i] Cons.prems(3) by (simp add: reader_position_def del: item_len_pos)
  note step = sibling_step_items [OF Cons.prems(1) pos]
  note next_ok = aligned_skip_item [OF Cons.prems(1) item]
  have off: "node_offset = rd_offset (skip (item_len i) r) + items_len is" using Cons.prems(3) by simp
  note IH = Cons.IH [OF next_ok(1) _ off _ Cons.prems(5), unfolded next_ok(2), OF path]
  show ?case
  proof (cases i)
    case (IBegin n)
    then have "open_names is ([] # (n # u) # T) = Some S'" using Cons.prems(4) S by simp
    from IH [OF this _ level_match_begin [OF Cons.prems(7) [unfolded S] Cons.prems(5), of n "rd_offset r"]]
      item IBegin S show ?thesis
      by (subst sibling.run_unfold) (simp add: step(1) del: item_len.simps split del: if_split)
  next
    case IEnd
    then have "T \<noteq> []" "open_names is T = Some S'" using Cons.prems(4) S by (auto split: if_splits)
    from IH [OF this(2,1) level_match_end [OF _ this(1)]] Cons.prems(7) item IEnd S show ?thesis
      by (subst sibling.run_unfold) (simp add: step)
  next
    case (IProp off v)
    then have "open_names is S = Some S'" using Cons.prems(4) S by simp
    from IH [OF this Cons.prems(6,7)] item IProp
      sibling_step_prop [OF Cons.prems(1) pos, of off v] show ?thesis
      by (subst sibling.run_unfold) (simp del: item_len.simps)
  next
    case INop
    then have "open_names is S = Some S'" using Cons.prems(4) S by simp
    from IH [OF this Cons.prems(6,7)] item INop show ?thesis
      by (subst sibling.run_unfold) (simp add: step)
  next
    case IStop
    then show ?thesis using Cons.prems(4) S by simp
  qed
qed

text \<open>Started where the root's contents begin: the search finds exactly the used sibling names.\<close>

lemma find_prior_sibling_node_eq:
  assumes "length bs < USIZE_LIMIT" "start \<le> length bs" "start mod 4 = 0"
    "path (drop start bs) is" "open_names is [[]] = Some (u # S)"
  shows "\<exists>m. find_prior_sibling_node bs start (start + items_len is) (length (u # S)) name = Ok m \<and>
     (m \<noteq> None \<longleftrightarrow> name \<in> set u)"
proof -
  have al: "aligned bs (skip start (reader_new bs))"
    using assms by (simp add: aligned_def)
  have "level_match (length (u # S)) name [[]] (None :: usize option)"
    by (auto simp: level_match_def)
  then obtain m' where "run (\<lambda>s. unread (fst s))
      (sibling_step (start + items_len is) (length (u # S)) name) (skip start (reader_new bs), 1, None) = Ok m'"
    "level_match (length (u # S)) name (u # S) m'"
    using sibling_run [OF al, of "is" "start + items_len is" "[[]]" "u # S" "length (u # S)" name None]
      assms by auto
  then show ?thesis
    using assms by (simp add: find_prior_sibling_node_def read_bytes_eq level_match_def)
qed

section \<open>The search for a property\<close>

text \<open>The property names of a sequence of properties and NOPs; anything else has none.\<close>

fun prop_names :: "strings \<Rightarrow> item list \<Rightarrow> bytes list option" where
  "prop_names st [] = Some []"
| "prop_names st (INop # is) = prop_names st is"
| "prop_names st (IProp off _ # is) =
     (case strings_validate_property_name st off of
        Ok n \<Rightarrow> map_option (Cons n) (prop_names st is)
      | _ \<Rightarrow> None)"
| "prop_names st _ = None"

lemma prop_names_snoc:
  "prop_names st is = Some ns \<Longrightarrow> prop_names st (is @ [INop]) = Some ns"
  "prop_names st is = Some ns \<Longrightarrow> strings_validate_property_name st off = Ok n \<Longrightarrow>
     prop_names st (is @ [IProp off v]) = Some (ns @ [n])"
  by (induction st "is" arbitrary: ns rule: prop_names.induct) (auto split: res.splits)

lemma property_run:
  assumes "aligned bs r" "path (remaining_bytes r) is" "stop = rd_offset r + items_len is"
    "prop_names st is = Some ns"
  shows "\<exists>m. run unread (property_search_step stop name st) r = Ok m \<and> (m \<noteq> None \<longleftrightarrow> name \<in> set ns)"
  using assms
proof (induction "is" arbitrary: r ns)
  case Nil
  then show ?case
    by (subst property_search.run_unfold) (simp add: property_search_step_def reader_position_def)
next
  case (Cons i "is")
  have item: "item_at (remaining_bytes r) = Some i" and path: "path (item_rest i (remaining_bytes r)) is"
    using Cons.prems by auto
  have pos: "reader_position r < stop"
    using item_len_pos [of i] Cons.prems(3) by (simp add: reader_position_def del: item_len_pos)
  note next_ok = aligned_skip_item [OF Cons.prems(1) item]
  have off: "stop = rd_offset (skip (item_len i) r) + items_len is" using Cons.prems(3) by simp
  note IH = Cons.IH [OF next_ok(1) _ off, unfolded next_ok(2), OF path]
  from Cons.prems(4) consider "i = INop" | off v where "i = IProp off v" by (cases i) auto
  then show ?case
  proof cases
    case 1
    with Cons.prems(1) pos item have "property_search_step stop name st r = Ok (Continue (skip (item_len i) r))"
      by (simp add: property_search_step_def)
    with IH Cons.prems(4) 1 show ?thesis by (subst property_search.run_unfold) simp
  next
    case (2 off v)
    then obtain n ns' where n: "strings_validate_property_name st off = Ok n" "ns = n # ns'"
        "prop_names st is = Some ns'"
      using Cons.prems(4) by (auto split: res.splits)
    obtain len p where reads: "read_u32 (skip 4 r) = Ok (len, skip 8 r)"
        "read_u32 (skip 8 r) = Ok (off, skip 12 r)"
        "read_bytes (skip 12 r) (usize_from_u32 len) = Ok (v, skip (12 + length v) r)"
        "align_to_4 (skip (12 + length v) r) = Ok (p, skip (item_len (IProp off v)) r)"
      using prop_reads [OF Cons.prems(1)] item 2 by metis
    have "property_search_step stop name st r =
        (if n = name then Ok (Break (Some (rd_offset r))) else Ok (Continue (skip (item_len i) r)))"
      using Cons.prems(1) pos item reads n 2
      by (simp add: property_search_step_def del: item_len.simps)
    with IH [OF n(3)] n(2) show ?thesis by (subst property_search.run_unfold) auto
  qed
qed

lemma find_property_eq:
  assumes "length bs < USIZE_LIMIT" "start \<le> length bs" "start mod 4 = 0"
    "path (drop start bs) is" "prop_names st is = Some ns"
  shows "\<exists>m. find_property bs start (start + items_len is) name st = Ok m \<and> (m \<noteq> None \<longleftrightarrow> name \<in> set ns)"
proof -
  have "aligned bs (skip start (reader_new bs))" using assms by (simp add: aligned_def)
  from property_run [OF this _ _ assms(5)] assms show ?thesis
    by (simp add: find_property_def read_bytes_eq)
qed

end
