(* ===== verification/Structure_Correct.thy ===== *)
theory Structure_Correct
  imports Grammar
begin

text \<open>
  \<open>Structure::new\<close> accepts exactly the encodings of the grammar.  The invariant of the pass
  ties its reader, depth, phase and the start of the property prefix to the items consumed so far;
  under it every iteration is a case analysis on the item at the reader, and the panics of the two
  backward searches are unreachable.
\<close>

section \<open>Reads return\<close>

lemma read_returns [simp]:
  assumes "reader_ok r"
  shows "returns (read_bytes r n)" "returns (read_u8 r)" "returns (read_u32 r)" "returns (read_u64 r)"
    "returns (align_to_4 r)" "returns (read_nul_terminated r)" "returns (read_token r)"
  using assms
  by (auto simp: reader_simps read_token_eq Let_def intro!: returns_bind split: list.split option.split)

lemma read_ok:
  assumes "reader_ok r"
  shows "read_bytes r n = Ok (bs, r') \<Longrightarrow> reader_ok r'" "read_u8 r = Ok (b, r') \<Longrightarrow> reader_ok r'"
    "read_u32 r = Ok (w, r') \<Longrightarrow> reader_ok r'" "align_to_4 r = Ok (bs, r') \<Longrightarrow> reader_ok r'"
    "read_nul_terminated r = Ok (bs, r') \<Longrightarrow> reader_ok r'" "read_token r = Ok (t, r') \<Longrightarrow> reader_ok r'"
  using assms
  by (auto simp: reader_simps read_token_eq Let_def position_Some res_simps split: if_splits option.splits list.splits)

section \<open>A failed item is a failed iteration\<close>

lemma item_at_begin:
  assumes "aligned bs r" "read_token r = Ok ((off, BeginNode), r1)"
    "read_nul_terminated r1 = Ok (name, r2)" "align_to_4 r2 = Ok (p, r3)"
  shows "item_at (remaining_bytes r) = Some (IBegin name)"
proof -
  have len: "4 \<le> length (remaining_bytes r)"
    and v: "u32_from_be_bytes (take 4 (remaining_bytes r)) = token_value BeginNode" and r1: "r1 = skip 4 r"
    using assms(1,2) by (auto simp: read_token_eq token_parse_eq_Ok split: if_splits)
  have ok1: "reader_ok r1" using assms(1) len r1 by simp
  obtain n where n: "position (\<lambda>b. b = 0) (drop 4 (remaining_bytes r)) = Some n"
      "name = take n (drop 4 (remaining_bytes r))" "r2 = skip (Suc n) r1"
    using assms(3) ok1 by (auto simp: read_nul_terminated_eq r1 split: option.splits)
  note ok2 = read_ok(5) [OF ok1 assms(3)]
  have "pad4 (rd_offset r2) = pad4 (Suc n)"
    using assms(1) pad4_shift [of "rd_offset r + 4" "Suc n"]
    by (simp add: n r1 aligned_def mod_add_eq [symmetric] add.assoc add.left_commute)
  then have "Suc n + pad4 (Suc n) \<le> length (drop 4 (remaining_bytes r))"
    using assms(4) ok2 n by (auto simp: align_to_4_eq Let_def r1 position_Some split: if_splits)
  with len v n show ?thesis by (simp add: item_at_def Let_def)
qed

lemma item_at_prop:
  assumes "aligned bs r" "read_token r = Ok ((off, PropertyToken), r1)"
    "read_u32 r1 = Ok (len, r2)" "read_u32 r2 = Ok (name_offset, r3)"
    "read_bytes r3 (usize_from_u32 len) = Ok (v, r4)" "align_to_4 r4 = Ok (p, r5)"
  shows "item_at (remaining_bytes r) = Some (IProp name_offset v)"
proof -
  let ?n = "usize_from_u32 len"
  have t: "4 \<le> length (remaining_bytes r)"
    "u32_from_be_bytes (take 4 (remaining_bytes r)) = token_value PropertyToken" "r1 = skip 4 r"
    using assms(1,2) by (auto simp: read_token_eq token_parse_eq_Ok split: if_splits)
  have ok1: "reader_ok r1" using assms(1) t by simp
  have l: "8 \<le> length (remaining_bytes r)" "len = u32_from_be_bytes (take 4 (drop 4 (remaining_bytes r)))"
    "r2 = skip 8 r"
    using assms(3) ok1 t by (auto simp: read_u32_eq split: if_splits)
  have ok2: "reader_ok r2" using assms(1) l by simp
  have o: "12 \<le> length (remaining_bytes r)"
    "name_offset = u32_from_be_bytes (take 4 (drop 8 (remaining_bytes r)))" "r3 = skip 12 r"
    using assms(4) ok2 l by (auto simp: read_u32_eq split: if_splits)
  have ok3: "reader_ok r3" using assms(1) o by simp
  have v: "?n + 12 \<le> length (remaining_bytes r)" "v = take ?n (drop 12 (remaining_bytes r))"
    "r4 = skip (12 + ?n) r"
    using assms(5) ok3 o by (auto simp: read_bytes_eq split: if_splits)
  have ok4: "reader_ok r4" using assms(1) v by simp
  have "pad4 (rd_offset r4) = pad4 ?n"
    using assms(1) pad4_shift [of "rd_offset r + 12" ?n]
    by (simp add: v aligned_def mod_add_eq [symmetric] add.assoc)
  then have "?n + pad4 ?n \<le> length (remaining_bytes r) - 12" "\<not> length (remaining_bytes r) - 4 < 8"
    using assms(6) ok4 v by (auto simp: align_to_4_eq Let_def split: if_splits)
  with t l o v show ?thesis by (simp add: item_at_def Let_def)
qed

section \<open>The invariant of the pass\<close>

text \<open>
  \<open>consumed bs start r is\<close>: the items \<open>is\<close> lie between \<open>start\<close> and the reader.
  In the invariant \<open>S\<close> holds the child names used in each open node and \<open>ns\<close> the property
  names of the innermost one.
\<close>

definition consumed :: "bytes \<Rightarrow> usize \<Rightarrow> reader \<Rightarrow> item list \<Rightarrow> bool" where
  "consumed bs start r is \<longleftrightarrow>
     start \<le> length bs \<and> start mod 4 = 0 \<and> path (drop start bs) is \<and> rd_offset r = start + items_len is"

definition parse_inv ::
    "bytes \<Rightarrow> strings \<Rightarrow> usize \<Rightarrow> parse_state \<Rightarrow> bytes list list \<Rightarrow> bytes list \<Rightarrow> bool" where
  "parse_inv bs st start s S ns \<longleftrightarrow>
     aligned bs (ps_reader s) \<and> ps_depth s = length S \<and> S \<noteq> [] \<and>
     (\<exists>is. consumed bs start (ps_reader s) is \<and> open_names is [[]] = Some S) \<and>
     (ps_phase s = PropertiesPhase \<longrightarrow> hd S = [] \<and>
        (\<exists>pis. consumed bs (ps_properties_start s) (ps_reader s) pis \<and> prop_names st pis = Some ns))"

lemma consumed_snoc:
  assumes "aligned bs r" "item_at (remaining_bytes r) = Some i" "consumed bs start r is"
  shows "consumed bs start (skip (item_len i) r) (is @ [i])"
  using assms by (auto simp: consumed_def path_append aligned_remaining add.commute)

lemma consumed_Nil: "aligned bs r \<Longrightarrow> consumed bs (rd_offset r) r []"
  by (auto simp: consumed_def aligned_def reader_ok_def)

lemma parse_inv_item:
  assumes inv: "parse_inv bs st start s S ns" and item: "item_at (remaining_bytes (ps_reader s)) = Some i"
    and s': "ps_reader s' = skip (item_len i) (ps_reader s)" "ps_depth s' = length S'" "S' \<noteq> []"
      "open_names [i] S = Some S'"
    and phase: "ps_phase s' = PropertiesPhase \<Longrightarrow> hd S' = [] \<and>
        (\<exists>pis. consumed bs (ps_properties_start s') (skip (item_len i) (ps_reader s)) pis \<and>
          prop_names st pis = Some ns')"
  shows "parse_inv bs st start s' S' ns'"
proof -
  from inv have al: "aligned bs (ps_reader s)" by (simp add: parse_inv_def)
  from inv obtain "is" where "is": "consumed bs start (ps_reader s) is" "open_names is [[]] = Some S"
    by (auto simp: parse_inv_def)
  have "consumed bs start (ps_reader s') (is @ [i])" "open_names (is @ [i]) [[]] = Some S'"
    using consumed_snoc [OF al item "is"(1)] "is"(2) s' by (simp_all add: open_names_append)
  with aligned_skip_item(1) [OF al item] s' phase show ?thesis
    unfolding parse_inv_def by auto
qed

section \<open>One iteration per item\<close>

lemma name_validate_cases:
  obtains "node_name_ok n" "name_validate n = Ok ()" | e where "\<not> node_name_ok n" "name_validate n = Err e"
  using name_validate_iff [of n] name_validate_returns [of n] by (cases "name_validate n") auto

lemma step_begin:
  assumes inv: "parse_inv bs st start s (u # S) ns" and lim: "length bs < USIZE_LIMIT"
    and item: "item_at (remaining_bytes (ps_reader s)) = Some (IBegin n)"
  shows "if node_name_ok n \<and> n \<notin> set u
    then structure_step bs st start s = Ok (Continue
        \<lparr>ps_reader = skip (item_len (IBegin n)) (ps_reader s), ps_depth = Suc (Suc (length S)),
         ps_phase = PropertiesPhase,
         ps_properties_start = reader_position (skip (item_len (IBegin n)) (ps_reader s))\<rparr>)
    else \<exists>e. structure_step bs st start s = Err e"
proof -
  from inv have al: "aligned bs (ps_reader s)" and d: "ps_depth s = Suc (length S)"
    by (auto simp: parse_inv_def)
  from inv obtain "is" where "is": "consumed bs start (ps_reader s) is" "open_names is [[]] = Some (u # S)"
    by (auto simp: parse_inv_def)
  obtain m where m: "find_prior_sibling_node bs start (rd_offset (ps_reader s)) (Suc (length S)) n = Ok m"
      "m \<noteq> None \<longleftrightarrow> n \<in> set u"
    using find_prior_sibling_node_eq [OF lim, of start "is" u S n] "is" by (auto simp: consumed_def)
  from begin_reads(2) [OF al item] obtain p where p: "align_to_4 (skip (4 + Suc (length n)) (ps_reader s)) =
      Ok (p, skip (item_len (IBegin n)) (ps_reader s))" by blast
  note reads = begin_reads(1) [OF al item] p read_token_item [OF aligned_ok [OF al] item]
  show ?thesis
    by (rule name_validate_cases [of n])
      (use reads d m in \<open>auto simp: structure_step_def Let_def split: option.split simp del: item_len.simps\<close>)
qed

lemma step_prop:
  assumes inv: "parse_inv bs st start s S ns" and lim: "length bs < USIZE_LIMIT" "length (str_bytes st) < USIZE_LIMIT"
    and item: "item_at (remaining_bytes (ps_reader s)) = Some (IProp off v)"
  shows "if ps_phase s = PropertiesPhase \<and>
      (\<exists>n. strings_validate_property_name st off = Ok n \<and> n \<notin> set ns)
    then structure_step bs st start s =
      Ok (Continue (s\<lparr>ps_reader := skip (item_len (IProp off v)) (ps_reader s)\<rparr>))
    else \<exists>e. structure_step bs st start s = Err e"
proof -
  from inv have al: "aligned bs (ps_reader s)" and d: "0 < ps_depth s"
    by (auto simp: parse_inv_def)
  obtain len p where reads: "read_u32 (skip 4 (ps_reader s)) = Ok (len, skip 8 (ps_reader s))"
      "read_u32 (skip 8 (ps_reader s)) = Ok (off, skip 12 (ps_reader s))"
      "read_bytes (skip 12 (ps_reader s)) (usize_from_u32 len) = Ok (v, skip (12 + length v) (ps_reader s))"
      "align_to_4 (skip (12 + length v) (ps_reader s)) = Ok (p, skip (item_len (IProp off v)) (ps_reader s))"
    by (rule prop_reads [OF al item])
  note reads = reads read_token_item [OF aligned_ok [OF al] item]
  show ?thesis
  proof (cases "ps_phase s")
    case ChildrenPhase
    then show ?thesis using reads d by (simp add: structure_step_def)
  next
    case PropertiesPhase
    with inv obtain pis where "pis": "consumed bs (ps_properties_start s) (ps_reader s) pis" "prop_names st pis = Some ns"
      by (auto simp: parse_inv_def)
    have find: "\<exists>m. find_property bs (ps_properties_start s) (rd_offset (ps_reader s)) n st = Ok m \<and>
        (m \<noteq> None \<longleftrightarrow> n \<in> set ns)" for n
      using find_property_eq [OF lim(1), of "ps_properties_start s" pis st ns n] "pis" by (auto simp: consumed_def)
    show ?thesis
    proof (cases "strings_validate_property_name st off")
      case (Ok n)
      with find [of n] reads d PropertiesPhase show ?thesis
        by (auto simp: structure_step_def validate_property_def split: option.split simp del: item_len.simps)
    next
      case (Err e)
      with reads d PropertiesPhase show ?thesis by (simp add: structure_step_def validate_property_def)
    qed (use validate_property_name_returns [OF lim(2), of off] in simp_all)
  qed
qed

lemma step_others:
  assumes inv: "parse_inv bs st start s S ns"
  shows
    "item_at (remaining_bytes (ps_reader s)) = Some INop \<Longrightarrow>
       structure_step bs st start s = Ok (Continue (s\<lparr>ps_reader := skip 4 (ps_reader s)\<rparr>))"
    "item_at (remaining_bytes (ps_reader s)) = Some IEnd \<Longrightarrow>
       structure_step bs st start s = Ok (Continue (s\<lparr>ps_reader := skip 4 (ps_reader s), ps_depth := length S - 1,
          ps_phase := if 1 < length S then ChildrenPhase else ps_phase s\<rparr>))"
    "item_at (remaining_bytes (ps_reader s)) = Some IStop \<Longrightarrow> \<exists>e. structure_step bs st start s = Err e"
  using inv by (auto simp: structure_step_def parse_inv_def Let_def)

text \<open>Where no item can be decoded, the iteration fails with an error.\<close>

lemma token_without_item:
  assumes "reader_ok r" "read_token r = Ok ((off, t), r1)" "item_at (remaining_bytes r) = None"
  shows "t = BeginNode \<or> t = PropertyToken"
  using assms by (cases t) (auto simp: read_token_eq token_parse_eq_Ok item_at_def split: if_splits)

lemma property_without_item:
  assumes al: "aligned bs r" and t: "read_token r = Ok ((off, PropertyToken), r1)"
    and item: "item_at (remaining_bytes r) = None" and lim: "length (str_bytes st) < USIZE_LIMIT"
  shows "\<exists>e. validate_property r1 bs st start off d = Err e"
proof -
  note ok1 = read_ok(6) [OF aligned_ok [OF al] t]
  from read_returns(3) [OF ok1] show ?thesis
  proof (cases rule: returnsE)
    case (Ok a)
    then obtain len r2 where len: "read_u32 r1 = Ok (len, r2)" by (cases a) auto
    note ok2 = read_ok(3) [OF ok1 len]
    from read_returns(3) [OF ok2] show ?thesis
    proof (cases rule: returnsE)
      case (Ok b)
      then obtain no r3 where no: "read_u32 r2 = Ok (no, r3)" by (cases b) auto
      note ok3 = read_ok(3) [OF ok2 no]
      have rest: "\<exists>e. bind_res (read_bytes r3 (usize_from_u32 len)) (\<lambda>(v, r4). align_to_4 r4) = Err e"
        using read_returns(1) [OF ok3, of "usize_from_u32 len"]
      proof (cases rule: returnsE)
        case (Ok c)
        then obtain v r4 where v: "read_bytes r3 (usize_from_u32 len) = Ok (v, r4)" by (cases c) auto
        from item_at_prop [OF al t len no v] item have "align_to_4 r4 \<noteq> Ok q" for q by (cases q) auto
        with returns_Err [OF read_returns(5) [OF read_ok(1) [OF ok3 v]]] v show ?thesis by simp
      qed simp
      from validate_property_name_returns [OF lim, of no] show ?thesis
        using len no rest
        by (cases "read_bytes r3 (usize_from_u32 len)")
          (auto elim!: returnsE simp: validate_property_def)
    qed (simp add: validate_property_def len)
  qed (simp add: validate_property_def)
qed

lemma step_none:
  assumes inv: "parse_inv bs st start s S ns" and lim: "length (str_bytes st) < USIZE_LIMIT"
    and item: "item_at (remaining_bytes (ps_reader s)) = None"
  shows "\<exists>e. structure_step bs st start s = Err e"
proof -
  let ?r = "ps_reader s"
  from inv have al: "aligned bs ?r" and d: "0 < ps_depth s" by (auto simp: parse_inv_def)
  note ok = aligned_ok [OF al]
  from read_returns(7) [OF ok] show ?thesis
  proof (cases rule: returnsE)
    case (Err e)
    with d show ?thesis by (simp add: structure_step_def)
  next
    case (Ok a)
    then obtain off t r1 where t: "read_token ?r = Ok ((off, t), r1)" by (cases a) auto
    note ok1 = read_ok(6) [OF ok t]
    from token_without_item [OF ok t item] show ?thesis
    proof
      assume [simp]: "t = BeginNode"
      from read_returns(6) [OF ok1] show ?thesis
      proof (cases rule: returnsE)
        case (Ok b)
        then obtain n r2 where n: "read_nul_terminated r1 = Ok (n, r2)" by (cases b) auto
        from item_at_begin [OF al _ n] t item have "align_to_4 r2 \<noteq> Ok q" for q by (cases q) auto
        then obtain e where "align_to_4 r2 = Err e"
          using returns_Err [OF read_returns(5) [OF read_ok(5) [OF ok1 n]]] by blast
        with t n d show ?thesis
          by (cases rule: name_validate_cases [of n]) (simp_all add: structure_step_def Let_def)
      qed (use t d in \<open>simp add: structure_step_def Let_def\<close>)
    next
      assume [simp]: "t = PropertyToken"
      from property_without_item [OF al t [unfolded \<open>t = PropertyToken\<close>] item lim,
          of "ps_properties_start s" "ps_depth s"] t d show ?thesis
        by (cases "ps_phase s") (auto simp: structure_step_def)
    qed
  qed
qed

section \<open>The pass accepts the grammar\<close>

text \<open>What the rest of the block must be for the pass to succeed from a state.\<close>

definition accepts :: "strings \<Rightarrow> parse_state \<Rightarrow> bytes list list \<Rightarrow> bytes list \<Rightarrow> bytes \<Rightarrow> bool" where
  "accepts st s S ns rest \<longleftrightarrow>
     (case ps_phase s of
        ChildrenPhase \<Rightarrow> chain st S (remaining_bytes (ps_reader s)) rest
      | PropertiesPhase \<Rightarrow> pchain st (rev ns) (tl S) (remaining_bytes (ps_reader s)) rest)"

text \<open>
  One iteration either fails in a state that accepts nothing, or goes on to a state that accepts
  the same rests, or closes the root.
\<close>

definition step_sound ::
    "bytes \<Rightarrow> strings \<Rightarrow> usize \<Rightarrow> parse_state \<Rightarrow> bytes list list \<Rightarrow> bytes list \<Rightarrow> bool" where
  "step_sound bs st start s S ns \<longleftrightarrow>
     (\<exists>e. structure_step bs st start s = Err e \<and> (\<forall>rest. \<not> accepts st s S ns rest)) \<or>
     (\<exists>s' S' ns'. structure_step bs st start s = Ok (Continue s') \<and> parse_inv bs st start s' S' ns' \<and>
        (\<forall>rest. accepts st s S ns rest \<longleftrightarrow> accepts st s' S' ns' rest)) \<or>
     (\<exists>s'. structure_step bs st start s = Ok (Continue s') \<and> ps_depth s' = 0 \<and> aligned bs (ps_reader s') \<and>
        (\<forall>rest. accepts st s S ns rest \<longleftrightarrow> rest = remaining_bytes (ps_reader s')))"

lemma parse_inv_phase:
  "parse_inv bs st start s (u # S) ns \<Longrightarrow> ps_phase s = PropertiesPhase \<Longrightarrow> u = []"
  by (simp add: parse_inv_def)

lemma sound_begin:
  assumes inv: "parse_inv bs st start s (u # S) ns" and lim: "length bs < USIZE_LIMIT"
    and item: "item_at (remaining_bytes (ps_reader s)) = Some (IBegin n)"
  shows "step_sound bs st start s (u # S) ns"
proof -
  from inv have al: "aligned bs (ps_reader s)" by (simp add: parse_inv_def)
  note next_ok = aligned_skip_item [OF al item]
  have acc: "accepts st s (u # S) ns rest \<longleftrightarrow> node_name_ok n \<and> n \<notin> set u \<and>
      pchain st [] ((n # u) # S) (item_rest (IBegin n) (remaining_bytes (ps_reader s))) rest" for rest
    using parse_inv_phase [OF inv] item
    by (cases "ps_phase s") (simp_all add: accepts_def chain_item pchain_item del: chain.simps)
  show ?thesis
  proof (cases "node_name_ok n \<and> n \<notin> set u")
    case True
    let ?s = "\<lparr>ps_reader = skip (item_len (IBegin n)) (ps_reader s), ps_depth = Suc (Suc (length S)),
         ps_phase = PropertiesPhase,
         ps_properties_start = reader_position (skip (item_len (IBegin n)) (ps_reader s))\<rparr>"
    have "parse_inv bs st start ?s ([] # (n # u) # S) []"
      by (rule parse_inv_item [OF inv item])
        (use consumed_Nil [OF next_ok(1)] in \<open>auto simp: reader_position_def simp del: item_len.simps skip_sel\<close>)
    moreover have "accepts st s (u # S) ns rest \<longleftrightarrow> accepts st ?s ([] # (n # u) # S) [] rest" for rest
      unfolding acc using True next_ok(2) by (simp add: accepts_def del: item_len.simps skip_sel)
    ultimately show ?thesis using True step_begin [OF inv lim item] unfolding step_sound_def by auto
  qed (use acc step_begin [OF inv lim item] in \<open>auto simp: step_sound_def\<close>)
qed

lemma sound_prop:
  assumes inv: "parse_inv bs st start s (u # S) ns" and lim: "length bs < USIZE_LIMIT" "length (str_bytes st) < USIZE_LIMIT"
    and item: "item_at (remaining_bytes (ps_reader s)) = Some (IProp off v)"
  shows "step_sound bs st start s (u # S) ns"
proof (cases "ps_phase s = PropertiesPhase \<and> (\<exists>n. strings_validate_property_name st off = Ok n \<and> n \<notin> set ns)")
  case True
  then obtain n where n: "ps_phase s = PropertiesPhase" "strings_validate_property_name st off = Ok n" "n \<notin> set ns"
    by blast
  from inv have al: "aligned bs (ps_reader s)" by (simp add: parse_inv_def)
  from inv n(1) obtain pis where "pis": "consumed bs (ps_properties_start s) (ps_reader s) pis"
    "prop_names st pis = Some ns" by (auto simp: parse_inv_def)
  let ?s = "s\<lparr>ps_reader := skip (item_len (IProp off v)) (ps_reader s)\<rparr>"
  have "parse_inv bs st start ?s (u # S) (ns @ [n])"
  proof (rule parse_inv_item [OF inv item])
    show "ps_depth ?s = length (u # S)" using inv by (simp add: parse_inv_def)
    show "hd (u # S) = [] \<and> (\<exists>pis. consumed bs (ps_properties_start ?s) (skip (item_len (IProp off v)) (ps_reader s)) pis \<and>
          prop_names st pis = Some (ns @ [n]))"
      using parse_inv_phase [OF inv n(1)] consumed_snoc [OF al item "pis"(1)] prop_names_snoc(2) [OF "pis"(2) n(2)]
      by auto
  qed simp_all
  moreover have "accepts st s (u # S) ns rest \<longleftrightarrow> accepts st ?s (u # S) (ns @ [n]) rest" for rest
    using n item aligned_skip_item(2) [OF al item]
    by (simp add: accepts_def pchain_item del: item_len.simps skip_sel)
  ultimately show ?thesis using True step_prop [OF inv lim item] unfolding step_sound_def by auto
next
  case False
  then have "\<not> accepts st s (u # S) ns rest" for rest
    using item by (cases "ps_phase s") (auto simp: accepts_def chain_item pchain_item simp del: chain.simps)
  then show ?thesis using False step_prop [OF inv lim item] by (auto simp: step_sound_def)
qed

lemma sound_nop:
  assumes inv: "parse_inv bs st start s (u # S) ns"
    and item: "item_at (remaining_bytes (ps_reader s)) = Some INop"
  shows "step_sound bs st start s (u # S) ns"
proof -
  from inv have al: "aligned bs (ps_reader s)" by (simp add: parse_inv_def)
  let ?s = "s\<lparr>ps_reader := skip (item_len INop) (ps_reader s)\<rparr>"
  have "parse_inv bs st start ?s (u # S) ns"
  proof (rule parse_inv_item [OF inv item])
    show "ps_depth ?s = length (u # S)" using inv by (simp add: parse_inv_def)
    assume "ps_phase ?s = PropertiesPhase"
    then show "hd (u # S) = [] \<and> (\<exists>pis. consumed bs (ps_properties_start ?s) (skip (item_len INop) (ps_reader s)) pis \<and>
          prop_names st pis = Some ns)"
      using inv consumed_snoc [OF al item] prop_names_snoc(1) by (fastforce simp: parse_inv_def)
  qed simp_all
  moreover have "accepts st s (u # S) ns rest \<longleftrightarrow> accepts st ?s (u # S) ns rest" for rest
    using item aligned_skip_item(2) [OF al item] parse_inv_phase [OF inv]
    by (cases "ps_phase s") (simp_all add: accepts_def pchain_item chain_item(1) del: skip_sel chain.simps)
  ultimately show ?thesis using step_others(1) [OF inv item] unfolding step_sound_def by auto
qed

lemma sound_end:
  assumes inv: "parse_inv bs st start s (u # S) ns"
    and item: "item_at (remaining_bytes (ps_reader s)) = Some IEnd"
  shows "step_sound bs st start s (u # S) ns"
proof -
  from inv have al: "aligned bs (ps_reader s)" by (simp add: parse_inv_def)
  let ?s = "s\<lparr>ps_reader := skip (item_len IEnd) (ps_reader s), ps_depth := length S,
      ps_phase := if 1 < length (u # S) then ChildrenPhase else ps_phase s\<rparr>"
  have step: "structure_step bs st start s = Ok (Continue ?s)" using step_others(2) [OF inv item] by simp
  have acc: "accepts st s (u # S) ns rest \<longleftrightarrow> chain st S (remaining_bytes (ps_reader ?s)) rest" for rest
    using item aligned_skip_item(2) [OF al item]
    by (cases "ps_phase s") (simp_all add: accepts_def chain_item pchain_item del: skip_sel chain.simps)
  show ?thesis
  proof (cases "S = []")
    case True
    with step acc aligned_skip_item(1) [OF al item] show ?thesis
      unfolding step_sound_def by (intro disjI2 exI [of _ ?s]) (auto simp del: skip_sel)
  next
    case False
    have "parse_inv bs st start ?s S []"
      by (rule parse_inv_item [OF inv item]) (use False in auto)
    moreover have "accepts st s (u # S) ns rest \<longleftrightarrow> accepts st ?s S [] rest" for rest
      unfolding acc using False by (simp add: accepts_def)
    ultimately show ?thesis using step unfolding step_sound_def by blast
  qed
qed

lemma step_sound:
  assumes inv: "parse_inv bs st start s S ns" and lim: "length bs < USIZE_LIMIT" "length (str_bytes st) < USIZE_LIMIT"
  shows "step_sound bs st start s S ns"
proof -
  obtain u T where S: "S = u # T" using inv by (cases S) (auto simp: parse_inv_def)
  note inv' = inv [unfolded S]
  let ?item = "item_at (remaining_bytes (ps_reader s))"
  have fail: "step_sound bs st start s (u # T) ns" if "\<exists>e. structure_step bs st start s = Err e" "?item = Some IStop \<or> ?item = None"
    using that by (cases "ps_phase s") (auto simp: step_sound_def accepts_def chain_item pchain_item simp del: chain.simps)
  show ?thesis unfolding S
  proof (cases ?item)
    case (Some i)
    then show "step_sound bs st start s (u # T) ns"
      using fail sound_begin [OF inv' lim(1)] sound_end [OF inv'] sound_prop [OF inv' lim] sound_nop [OF inv']
        step_others(3) [OF inv]
      by (cases i) auto
  qed (use fail step_none [OF inv lim(2)] in auto)
qed

text \<open>The loop: it returns, and it succeeds exactly when the open nodes are closed.\<close>

lemma structure_run:
  assumes "parse_inv bs st start s S ns" "length bs < USIZE_LIMIT" "length (str_bytes st) < USIZE_LIMIT"
  shows "returns (run (\<lambda>s. unread (ps_reader s)) (structure_step bs st start) s) \<and>
    (run (\<lambda>s. unread (ps_reader s)) (structure_step bs st start) s = Ok r \<longleftrightarrow>
       aligned bs r \<and> accepts st s S ns (remaining_bytes r))"
  using assms(1)
proof (induction s arbitrary: S ns rule: structure_loop.run_induct [of bs st start])
  case (step s)
  from step_sound [OF step.prems assms(2,3)] consider
      e where "structure_step bs st start s = Err e" "\<forall>rest. \<not> accepts st s S ns rest"
    | s' S' ns' where "structure_step bs st start s = Ok (Continue s')" "parse_inv bs st start s' S' ns'"
        "\<forall>rest. accepts st s S ns rest \<longleftrightarrow> accepts st s' S' ns' rest"
    | s' where "structure_step bs st start s = Ok (Continue s')" "ps_depth s' = 0" "aligned bs (ps_reader s')"
        "\<forall>rest. accepts st s S ns rest \<longleftrightarrow> rest = remaining_bytes (ps_reader s')"
    unfolding step_sound_def by blast
  then show ?case
  proof cases
    case 1
    then show ?thesis by (simp add: structure_loop.run_unfold)
  next
    case 2
    then show ?thesis using step.IH [OF 2(1,2)] by (subst (1 2) structure_loop.run_unfold) simp
  next
    case 3
    have "structure_step bs st start s' = Ok (Break (ps_reader s'))" using 3(2) by (simp add: structure_step_def)
    then have "run (\<lambda>s. unread (ps_reader s)) (structure_step bs st start) s = Ok (ps_reader s')"
      using 3(1) by (simp add: structure_loop.run_unfold)
    with 3 aligned_unique show ?thesis by auto
  qed
qed

section \<open>Runs of NOPs\<close>

inductive nops :: "bytes \<Rightarrow> bytes \<Rightarrow> bool" where
  nops_refl [intro]: "nops bs bs"
| nops_step [intro]: "item_at bs = Some INop \<Longrightarrow> nops (item_rest INop bs) rest \<Longrightarrow> nops bs rest"

lemma nops_item: "item_at bs \<noteq> Some INop \<Longrightarrow> nops bs rest \<longleftrightarrow> rest = bs"
  by (auto elim: nops.cases)

lemma nops_nop: "item_at bs = Some INop \<Longrightarrow> nops bs rest \<longleftrightarrow> rest = bs \<or> nops (item_rest INop bs) rest"
  by (subst nops.simps) auto

lemma read_token_nop:
  assumes "reader_ok r"
  shows "read_token r = Ok ((off, Nop), r') \<longleftrightarrow>
    item_at (remaining_bytes r) = Some INop \<and> off = rd_offset r \<and> r' = skip 4 r"
proof
  assume t: "read_token r = Ok ((off, Nop), r')"
  then obtain i where i: "item_at (remaining_bytes r) = Some i"
    using token_without_item [OF assms t] by (cases "item_at (remaining_bytes r)") auto
  then show "item_at (remaining_bytes r) = Some INop \<and> off = rd_offset r \<and> r' = skip 4 r"
    using t assms by (cases i) auto
qed (use assms in auto)

lemma read_non_nop_token_eq_Ok:
  assumes "aligned bs r"
  shows "read_non_nop_token r = Ok ((off, t), r') \<longleftrightarrow>
    (\<exists>r0. aligned bs r0 \<and> nops (remaining_bytes r) (remaining_bytes r0) \<and> t \<noteq> Nop \<and>
       read_token r0 = Ok ((off, t), r'))"
  using assms unfolding read_non_nop_token_def
proof (induction r rule: non_nop.run_induct)
  case (step r)
  note ok = aligned_ok [OF step.prems]
  show ?case
  proof (cases "item_at (remaining_bytes r) = Some INop")
    case True
    then have tok: "read_token r = Ok ((rd_offset r, Nop), skip (item_len INop) r)" using ok by simp
    then have "non_nop_step r = Ok (Continue (skip (item_len INop) r))" by (simp add: non_nop_step_def)
    with step.IH [OF this] aligned_skip_item [OF step.prems True] True tok show ?thesis
      by (subst non_nop.run_unfold)
        (auto simp: nops_nop simp del: skip_sel item_len.simps dest: aligned_unique [OF step.prems])
  next
    case False
    then have "read_token r \<noteq> Ok ((o', Nop), q)" for o' q using read_token_nop [OF ok] by simp
    then have "non_nop_step r = bind_res (read_token r) (\<lambda>x. Ok (Break x))"
      by (auto simp: non_nop_step_def bind_res_def split: res.split)
    then have "run unread non_nop_step r = read_token r"
      by (subst non_nop.run_unfold) (auto simp: bind_res_def split: res.split)
    with False \<open>\<And>o' q. read_token r \<noteq> Ok ((o', Nop), q)\<close> step.prems aligned_unique [OF _ step.prems]
    show ?thesis by (auto simp: nops_item)
  qed
qed

lemma read_non_nop_token_returns:
  assumes "reader_ok r" shows "returns (read_non_nop_token r)"
  unfolding read_non_nop_token_def
proof (rule non_nop.run_returns [of reader_ok])
  show "returns (non_nop_step r)" if "reader_ok r" for r
    using that by (auto simp: non_nop_step_def intro!: returns_bind)
  show "reader_ok r'" if "reader_ok r" "non_nop_step r = Ok (Continue r')" for r r'
    using that by (auto simp: non_nop_step_def res_simps split: if_splits dest: read_ok(6) [OF that(1)])
qed (rule assms)

section \<open>The whole block\<close>

definition encodes :: "strings \<Rightarrow> bytes \<Rightarrow> dtree \<Rightarrow> bool" where
  "encodes st bs t \<longleftrightarrow>
     (\<exists>ps ks root content close stop. t = DNode [] ps ks \<and>
        nops bs root \<and> item_at root = Some (IBegin []) \<and> content = item_rest (IBegin []) root \<and>
        wbody st [] content ps ks close \<and>
        nops close stop \<and> item_at stop = Some IStop \<and> item_rest IStop stop = [])"

lemma encodes_wf: "encodes st bs t \<Longrightarrow> wf_tree t"
  by (auto simp: encodes_def dest!: wgrammar_wf(2))

text \<open>The grammar is unambiguous.\<close>

lemma wbody_after_kids:
  "wkids st u bs cs r \<Longrightarrow> wbody st used bs ps' cs' r' \<longleftrightarrow> ps' = [] \<and> wkids st [] bs cs' r'"
  "wbody st u bs ps cs r \<Longrightarrow> True"
  by (induction rule: wkids_wbody.inducts)
    (auto simp: wbody_item wbody_item_nop wkids_item(1))

lemma wgrammar_unique:
  "wkids st used bs cs r \<Longrightarrow> wkids st used bs cs' r' \<Longrightarrow> cs' = cs \<and> r' = r"
  "wbody st used bs ps cs r \<Longrightarrow> wbody st used bs ps' cs' r' \<Longrightarrow> ps' = ps \<and> cs' = cs \<and> r' = r"
proof (induction arbitrary: cs' r' and ps' cs' r' rule: wkids_wbody.inducts)
  case (wkids_begin bs n used ps ks r1 cs r)
  from wkids_begin.prems obtain ps2 ks2 r2 cs2 where
      cs': "cs' = DNode n ps2 ks2 # cs2" and body: "wbody st [] (item_rest (IBegin n) bs) ps2 ks2 r2"
      and kids: "wkids st (n # used) r2 cs2 r'"
    by (auto simp: wkids_item(3) [OF wkids_begin.hyps(1)])
  from wkids_begin.IH(2) [OF body] have "ps2 = ps" "ks2 = ks" "r2 = r1" by auto
  with wkids_begin.IH(4) kids cs' show ?case by blast
next
  case (wbody_prop bs off v n used ps cs r)
  from wbody_prop.prems obtain m ps2 where "strings_validate_property_name st off = Ok m" "ps' = (m, v) # ps2"
      "wbody st (m # used) (item_rest (IProp off v) bs) ps2 cs' r'"
    by (auto simp: wbody_item(3) [OF wbody_prop.hyps(1)])
  moreover from this(1) wbody_prop(3) have "m = n" by simp
  ultimately have "ps' = (n, v) # ps2" "wbody st (n # used) (item_rest (IProp off v) bs) ps2 cs' r'" by auto
  with wbody_prop.IH show ?case by blast
next
  case (wbody_kids bs cs r used)
  from wbody_kids.prems have "ps' = []" "wkids st [] bs cs' r'"
    unfolding wbody_after_kids(1) [OF wbody_kids.IH(1)] by blast+
  with wbody_kids.IH(2) show ?case by blast
qed (simp_all add: wkids_item wbody_item_nop)

lemma nops_end_unique:
  "nops bs r \<Longrightarrow> item_at r \<noteq> Some INop \<Longrightarrow> nops bs r' \<Longrightarrow> item_at r' \<noteq> Some INop \<Longrightarrow> r' = r"
proof (induction rule: nops.induct)
  case (nops_step bs rest)
  then show ?case by (metis nops_nop)
qed (simp add: nops_item)

lemma encodes_unique: "encodes st bs t \<Longrightarrow> encodes st bs t' \<Longrightarrow> t' = t"
  unfolding encodes_def by (elim exE conjE) (metis nops_end_unique option.inject item.distinct(5) wgrammar_unique(2))

text \<open>The root's empty name, read byte by byte.\<close>

lemma read_u8_zero:
  assumes "reader_ok r"
  shows "read_u8 r = Ok (0, r') \<longleftrightarrow> read_nul_terminated r = Ok ([], r')"
proof (cases "remaining_bytes r")
  case (Cons b bs)
  then show ?thesis using assms
    by (cases "position (\<lambda>b. b = 0) bs") (auto simp: read_u8_eq read_nul_terminated_eq)
qed (use assms in \<open>simp add: read_u8_eq read_nul_terminated_eq\<close>)

lemma root_reads:
  assumes "aligned bs r"
  shows "(\<exists>off r1 r2 p. read_token r = Ok ((off, BeginNode), r1) \<and> read_u8 r1 = Ok (0, r2) \<and>
      align_to_4 r2 = Ok (p, r3)) \<longleftrightarrow>
    item_at (remaining_bytes r) = Some (IBegin []) \<and> r3 = skip (item_len (IBegin [])) r"
    (is "?L \<longleftrightarrow> ?R")
proof
  assume ?L
  then obtain off r1 r2 p where reads: "read_token r = Ok ((off, BeginNode), r1)" "read_u8 r1 = Ok (0, r2)"
      "align_to_4 r2 = Ok (p, r3)" by blast
  note ok1 = read_ok(6) [OF aligned_ok [OF assms] reads(1)]
  have n: "read_nul_terminated r1 = Ok ([], r2)" using reads(2) read_u8_zero [OF ok1] by simp
  have item: "item_at (remaining_bytes r) = Some (IBegin [])"
    by (rule item_at_begin [OF assms reads(1) n reads(3)])
  have "r1 = skip 4 r" using reads(1) item assms by simp
  with n begin_reads(1) [OF assms item] have "r2 = skip (4 + Suc 0) r" by simp
  with reads(3) begin_reads(2) [OF assms item] item show ?R by auto
next
  assume ?R
  then have item: "item_at (remaining_bytes r) = Some (IBegin [])" and r3: "r3 = skip (item_len (IBegin [])) r" by auto
  have "read_u8 (skip 4 r) = Ok (0, skip (4 + Suc (length ([]::bytes))) r)"
    using begin_reads(1) [OF assms item] read_u8_zero [OF begin_reads(3) [OF assms item]] by blast
  then show ?L
    using read_token_item [OF aligned_ok [OF assms] item] begin_reads(2) [OF assms item] r3
    by (auto simp del: item_len.simps)
qed

lemma read_token_stop:
  assumes "reader_ok r"
  shows "read_token r = Ok ((off, EndToken), r') \<longleftrightarrow>
    item_at (remaining_bytes r) = Some IStop \<and> off = rd_offset r \<and> r' = skip 4 r"
proof
  assume t: "read_token r = Ok ((off, EndToken), r')"
  then obtain i where i: "item_at (remaining_bytes r) = Some i"
    using token_without_item [OF assms t] by (cases "item_at (remaining_bytes r)") auto
  then show "item_at (remaining_bytes r) = Some IStop \<and> off = rd_offset r \<and> r' = skip 4 r"
    using t assms by (cases i) auto
qed (use assms in auto)

lemma parse_inv_root:
  assumes "aligned bs r"
  shows "parse_inv bs st (reader_position r)
    \<lparr>ps_reader = r, ps_depth = 1, ps_phase = PropertiesPhase, ps_properties_start = reader_position r\<rparr> [[]] []"
  using consumed_Nil [OF assms] assms
  by (auto simp: parse_inv_def reader_position_def intro!: exI [of _ "[]"])

text \<open>The suffixes the grammar mentions are positions of an aligned reader.\<close>

definition reached :: "bytes \<Rightarrow> bytes \<Rightarrow> bool" where
  "reached bs suf \<longleftrightarrow> (\<exists>r. aligned bs r \<and> remaining_bytes r = suf)"

lemma reached_item: "reached bs suf \<Longrightarrow> item_at suf = Some i \<Longrightarrow> reached bs (item_rest i suf)"
  unfolding reached_def using aligned_skip_item by blast

lemma wgrammar_reached:
  "wkids st u suf cs r \<Longrightarrow> reached bs suf \<Longrightarrow> reached bs r"
  "wbody st u suf ps cs r \<Longrightarrow> reached bs suf \<Longrightarrow> reached bs r"
  by (induction rule: wkids_wbody.inducts) (auto dest: reached_item)

lemma nops_reached: "nops suf r \<Longrightarrow> reached bs suf \<Longrightarrow> reached bs r"
  by (induction rule: nops.induct) (auto dest: reached_item)

lemma structure_new_iff_encodes:
  assumes "length bs < USIZE_LIMIT" "length (str_bytes st) < USIZE_LIMIT"
  shows "structure_new bs st = Ok sb \<longleftrightarrow> sb = \<lparr>sb_bytes = bs\<rparr> \<and> (\<exists>t. encodes st bs t)"
proof
  assume L: "structure_new bs st = Ok sb"
  note alg0 = aligned_new [OF assms(1)]
  obtain off r1 r2 p r3 r4 off' r5 where
      tok: "read_non_nop_token (reader_new bs) = Ok ((off, BeginNode), r1)"
    and name: "read_u8 r1 = Ok (0, r2)" "align_to_4 r2 = Ok (p, r3)"
    and loop: "run (\<lambda>s. unread (ps_reader s)) (structure_step bs st (reader_position r3))
         \<lparr>ps_reader = r3, ps_depth = 1, ps_phase = PropertiesPhase,
          ps_properties_start = reader_position r3\<rparr> = Ok r4"
    and stop: "read_non_nop_token r4 = Ok ((off', EndToken), r5)"
    and sb: "reader_remaining r5 = 0" "sb = \<lparr>sb_bytes = bs\<rparr>"
    using L unfolding structure_new_def
    by (auto simp: Let_def res_simps split: if_splits)
  obtain r0 where r0: "aligned bs r0" "nops bs (remaining_bytes r0)" "read_token r0 = Ok ((off, BeginNode), r1)"
    using tok read_non_nop_token_eq_Ok [OF alg0] by auto
  have root: "item_at (remaining_bytes r0) = Some (IBegin [])" "r3 = skip (item_len (IBegin [])) r0"
    using root_reads [OF r0(1), of r3] r0(3) name by blast+
  note al3 = aligned_skip_item [OF r0(1) root(1), folded root(2)]
  have al4: "aligned bs r4" and acc: "pchain st [] [] (remaining_bytes r3) (remaining_bytes r4)"
    using structure_run [OF parse_inv_root [OF al3(1)] assms, of r4] loop by (auto simp: accepts_def)
  obtain q where q: "aligned bs q" "nops (remaining_bytes r4) (remaining_bytes q)" "read_token q = Ok ((off', EndToken), r5)"
    using stop read_non_nop_token_eq_Ok [OF al4] by auto
  have "item_at (remaining_bytes q) = Some IStop" "item_rest IStop (remaining_bytes q) = []"
    using q sb(1) read_token_stop [of q off' r5] by (auto simp: reader_remaining_eq item_rest_def)
  with r0 root al3 acc q sb(2) show "sb = \<lparr>sb_bytes = bs\<rparr> \<and> (\<exists>t. encodes st bs t)"
    unfolding encodes_def pchain_def by auto blast
next
  assume R: "sb = \<lparr>sb_bytes = bs\<rparr> \<and> (\<exists>t. encodes st bs t)"
  note alg0 = aligned_new [OF assms(1)]
  from R obtain ps ks root close stop where sb: "sb = \<lparr>sb_bytes = bs\<rparr>" and root: "nops bs root" "item_at root = Some (IBegin [])"
    and body: "wbody st [] (item_rest (IBegin []) root) ps ks close"
    and stop: "nops close stop" "item_at stop = Some IStop" "item_rest IStop stop = []"
    by (auto simp: encodes_def)
  have "reached bs bs" using alg0 unfolding reached_def by fastforce
  from nops_reached [OF root(1) this] obtain r0 where r0: "aligned bs r0" "remaining_bytes r0 = root"
    by (auto simp: reached_def)
  define r3 where "r3 = skip (item_len (IBegin [])) r0"
  note al3 = aligned_skip_item [OF r0(1), unfolded r0(2), OF root(2), folded r3_def]
  from wgrammar_reached(2) [OF body] al3 obtain r4 where r4: "aligned bs r4" "remaining_bytes r4 = close"
    unfolding reached_def by blast
  from nops_reached [OF stop(1)] r4 obtain q where q: "aligned bs q" "remaining_bytes q = stop"
    unfolding reached_def by blast
  obtain off r1 r2 p where reads: "read_token r0 = Ok ((off, BeginNode), r1)" "read_u8 r1 = Ok (0, r2)"
      "align_to_4 r2 = Ok (p, r3)"
    using root_reads [OF r0(1), of r3] root(2) r0(2) r3_def by blast
  have "read_non_nop_token (reader_new bs) = Ok ((off, BeginNode), r1)"
    using read_non_nop_token_eq_Ok [OF alg0, of off BeginNode r1] r0 root(1) reads(1) by auto
  moreover have "run (\<lambda>s. unread (ps_reader s)) (structure_step bs st (reader_position r3))
         \<lparr>ps_reader = r3, ps_depth = 1, ps_phase = PropertiesPhase,
          ps_properties_start = reader_position r3\<rparr> = Ok r4"
    using structure_run [OF parse_inv_root [OF al3(1)] assms, of r4] r4 body al3(2)
    by (auto simp: accepts_def pchain_def)
  moreover have "read_non_nop_token r4 = Ok ((rd_offset q, EndToken), skip 4 q)"
    using read_non_nop_token_eq_Ok [OF r4(1), of "rd_offset q" EndToken "skip 4 q"] q stop r4(2) by auto
  moreover have "reader_remaining (skip 4 q) = 0"
    using stop(3) q(2) by (simp add: reader_remaining_eq item_rest_def)
  ultimately show "structure_new bs st = Ok sb"
    using reads(2,3) sb by (simp add: structure_new_def Let_def)
qed

text \<open>No input makes the pass panic or loop.\<close>

lemma structure_new_never_panics:
  assumes "length bs < USIZE_LIMIT" "length (str_bytes st) < USIZE_LIMIT"
  shows "returns (structure_new bs st)"
proof -
  note alg0 = aligned_new [OF assms(1)]
  have run: "returns (run (\<lambda>s. unread (ps_reader s)) (structure_step bs st (reader_position r3))
         \<lparr>ps_reader = r3, ps_depth = Suc 0, ps_phase = PropertiesPhase, ps_properties_start = reader_position r3\<rparr>)"
      if "aligned bs r3" for r3
    using structure_run [OF parse_inv_root [OF that] assms] by simp
  have al4: "aligned bs r4" if "aligned bs r3" "run (\<lambda>s. unread (ps_reader s)) (structure_step bs st (reader_position r3))
         \<lparr>ps_reader = r3, ps_depth = Suc 0, ps_phase = PropertiesPhase,
          ps_properties_start = reader_position r3\<rparr> = Ok r4" for r3 r4
    using structure_run [OF parse_inv_root [OF that(1)] assms, of r4] that(2) by simp
  have al3: "aligned bs r3" if tok: "read_non_nop_token (reader_new bs) = Ok ((off, BeginNode), r1)" and that: "read_u8 r1 = Ok (0, r2)"
      "align_to_4 r2 = Ok (p, r3)" for off r1 r2 p r3
  proof -
    obtain r0 where r0: "aligned bs r0" "read_token r0 = Ok ((off, BeginNode), r1)"
      using tok unfolding read_non_nop_token_eq_Ok [OF alg0] by blast
    then have "item_at (remaining_bytes r0) = Some (IBegin [])" "r3 = skip (item_len (IBegin [])) r0"
      using root_reads [OF r0(1), of r3] that(1,2) by blast+
    then show ?thesis using aligned_skip_item(1) [OF r0(1)] by blast
  qed
  have ok1: "reader_ok r1" if "read_non_nop_token (reader_new bs) = Ok ((off, t), r1)" for off t r1
    using that unfolding read_non_nop_token_eq_Ok [OF alg0] by (auto dest: read_ok(6) [OF aligned_ok])
  show ?thesis
    unfolding structure_new_def Let_def using assms(1)
    by (auto intro!: returns_bind read_non_nop_token_returns split: if_splits)
      (blast intro: read_returns(2) [OF ok1] read_returns(5) [OF read_ok(2) [OF ok1]] run [OF al3]
        aligned_ok [OF al4 [OF al3]])+
qed

end
