(* ===== verification/View.thy ===== *)
theory View
  imports Structure_Correct
begin

text \<open>
  The read-only views of \<open>fdt/src/structure/view.rs\<close>: nodes, properties, and the iterators over
  properties, children and descendants.  They re-read the bytes of an accepted block with every
  fallible read turned into a panic, so the theorems here are that on the encoding of a tree none
  of them panics and that each iterator produces exactly the tree's properties, children or
  descendants in order.
\<close>

section \<open>The validated reader\<close>

text \<open>\<open>ValidatedReader\<close> wraps a \<open>Reader\<close>; every failing read panics (\<open>expect\<close>).\<close>

type_synonym validated_reader = reader

definition vr_read_u32 :: "validated_reader \<Rightarrow> (u32 \<times> validated_reader, 'e) res" where
  "vr_read_u32 r = expect (read_u32 r)"

definition vr_read_bytes :: "validated_reader \<Rightarrow> usize \<Rightarrow> (bytes \<times> validated_reader, 'e) res" where
  "vr_read_bytes r len = expect (read_bytes r len)"

definition vr_read_nul_terminated :: "validated_reader \<Rightarrow> (bytes \<times> validated_reader, 'e) res" where
  "vr_read_nul_terminated r = expect (read_nul_terminated r)"

definition vr_align_to_4 :: "validated_reader \<Rightarrow> (validated_reader, 'e) res" where
  "vr_align_to_4 r = bind_res (expect (align_to_4 r)) (\<lambda>(_, r'). Ok r')"

definition vr_read_token :: "validated_reader \<Rightarrow> (token \<times> validated_reader, 'e) res" where
  "vr_read_token r = bind_res (expect (read_token r)) (\<lambda>((_, token), r'). Ok (token, r'))"

definition vr_non_nop_step ::
    "validated_reader \<Rightarrow> ((validated_reader, token \<times> validated_reader) flow, 'e) res" where
  "vr_non_nop_step r = bind_res (vr_read_token r) (\<lambda>(token, r').
     if token \<noteq> Nop then Ok (Break (token, r')) else Ok (Continue r'))"

definition vr_read_non_nop_token :: "validated_reader \<Rightarrow> (token \<times> validated_reader, 'e) res" where
  "vr_read_non_nop_token r = run unread vr_non_nop_step r"

definition vr_read_node_name :: "validated_reader \<Rightarrow> (bytes \<times> validated_reader, 'e) res" where
  "vr_read_node_name r =
     bind_res (vr_read_nul_terminated r) (\<lambda>(name, r1).
     bind_res (vr_align_to_4 r1) (\<lambda>r2. Ok (name, r2)))"

definition vr_skip_property :: "validated_reader \<Rightarrow> (validated_reader, 'e) res" where
  "vr_skip_property r =
     bind_res (vr_read_u32 r) (\<lambda>(len, r1).
     bind_res (vr_read_u32 r1) (\<lambda>(_, r2).
     bind_res (vr_read_bytes r2 (usize_from_u32 len)) (\<lambda>(_, r3).
     vr_align_to_4 r3)))"

record property =
  prop_name :: bytes
  prop_value :: bytes

definition vr_read_property :: "validated_reader \<Rightarrow> strings \<Rightarrow> (property \<times> validated_reader, 'e) res" where
  "vr_read_property r st =
     bind_res (vr_read_u32 r) (\<lambda>(len, r1).
     bind_res (vr_read_u32 r1) (\<lambda>(name_offset, r2).
     bind_res (expect (strings_validate_property_name st name_offset)) (\<lambda>name.
     bind_res (vr_read_bytes r2 (usize_from_u32 len)) (\<lambda>(value, r3).
     bind_res (vr_align_to_4 r3) (\<lambda>r4.
     Ok (\<lparr>prop_name = name, prop_value = value\<rparr>, r4))))))"

section \<open>Nodes and iterators\<close>

record node =
  nd_name :: bytes
  nd_content :: bytes
  nd_strings :: strings

record properties =
  prs_reader :: validated_reader
  prs_strings :: strings
  prs_finished :: bool

text \<open>\<open>Children\<close> and \<open>Descendants\<close> have the same fields.\<close>

record children =
  ch_reader :: validated_reader
  ch_strings :: strings
  ch_depth :: usize
  ch_finished :: bool

type_synonym descendants = children

definition properties_new :: "bytes \<Rightarrow> strings \<Rightarrow> properties" where
  "properties_new content st = \<lparr>prs_reader = reader_new content, prs_strings = st, prs_finished = False\<rparr>"

definition properties_step ::
    "properties \<Rightarrow> ((properties, property option \<times> properties) flow, 'e) res" where
  "properties_step it =
     bind_res (vr_read_token (prs_reader it)) (\<lambda>(token, r1).
     case token of
       PropertyToken \<Rightarrow>
         bind_res (vr_read_property r1 (prs_strings it)) (\<lambda>(property, r2).
         Ok (Break (Some property, it\<lparr>prs_reader := r2\<rparr>)))
     | Nop \<Rightarrow> Ok (Continue (it\<lparr>prs_reader := r1\<rparr>))
     | BeginNode \<Rightarrow> Ok (Break (None, it\<lparr>prs_reader := r1, prs_finished := True\<rparr>))
     | EndNode \<Rightarrow> Ok (Break (None, it\<lparr>prs_reader := r1, prs_finished := True\<rparr>))
     | EndToken \<Rightarrow> Panic)"

definition properties_next :: "(properties, property, 'e) iter_next" where
  "properties_next it =
     (if prs_finished it then Ok (None, it)
      else run (\<lambda>it. unread (prs_reader it)) properties_step it)"

definition children_new :: "bytes \<Rightarrow> strings \<Rightarrow> children" where
  "children_new content st =
     \<lparr>ch_reader = reader_new content, ch_strings = st, ch_depth = 0, ch_finished = False\<rparr>"

definition children_step :: "children \<Rightarrow> ((children, node option \<times> children) flow, 'e) res" where
  "children_step it =
     bind_res (vr_read_token (ch_reader it)) (\<lambda>(token, r1).
     case token of
       PropertyToken \<Rightarrow>
         bind_res (vr_skip_property r1) (\<lambda>r2. Ok (Continue (it\<lparr>ch_reader := r2\<rparr>)))
     | Nop \<Rightarrow> Ok (Continue (it\<lparr>ch_reader := r1\<rparr>))
     | BeginNode \<Rightarrow>
         bind_res (vr_read_node_name r1) (\<lambda>(name, r2).
         let content = remaining_bytes r2;
             is_direct_child = (ch_depth it = 0);
             it' = it\<lparr>ch_reader := r2, ch_depth := ch_depth it + 1\<rparr> in
         if is_direct_child
         then Ok (Break (Some \<lparr>nd_name = name, nd_content = content, nd_strings = ch_strings it\<rparr>, it'))
         else Ok (Continue it'))
     | EndNode \<Rightarrow>
         if ch_depth it = 0 then Ok (Break (None, it\<lparr>ch_reader := r1, ch_finished := True\<rparr>))
         else Ok (Continue (it\<lparr>ch_reader := r1, ch_depth := ch_depth it - 1\<rparr>))
     | EndToken \<Rightarrow> Panic)"

definition children_next :: "(children, node, 'e) iter_next" where
  "children_next it =
     (if ch_finished it then Ok (None, it)
      else run (\<lambda>it. unread (ch_reader it)) children_step it)"

definition descendants_new :: "bytes \<Rightarrow> strings \<Rightarrow> descendants" where
  "descendants_new content st =
     \<lparr>ch_reader = reader_new content, ch_strings = st, ch_depth = 0, ch_finished = False\<rparr>"

definition descendants_step ::
    "descendants \<Rightarrow> ((descendants, node option \<times> descendants) flow, 'e) res" where
  "descendants_step it =
     bind_res (vr_read_token (ch_reader it)) (\<lambda>(token, r1).
     case token of
       PropertyToken \<Rightarrow>
         bind_res (vr_skip_property r1) (\<lambda>r2. Ok (Continue (it\<lparr>ch_reader := r2\<rparr>)))
     | Nop \<Rightarrow> Ok (Continue (it\<lparr>ch_reader := r1\<rparr>))
     | BeginNode \<Rightarrow>
         bind_res (vr_read_node_name r1) (\<lambda>(name, r2).
         let content = remaining_bytes r2 in
         Ok (Break (Some \<lparr>nd_name = name, nd_content = content, nd_strings = ch_strings it\<rparr>,
                    it\<lparr>ch_reader := r2, ch_depth := ch_depth it + 1\<rparr>)))
     | EndNode \<Rightarrow>
         if ch_depth it = 0 then Ok (Break (None, it\<lparr>ch_reader := r1, ch_finished := True\<rparr>))
         else Ok (Continue (it\<lparr>ch_reader := r1, ch_depth := ch_depth it - 1\<rparr>))
     | EndToken \<Rightarrow> Panic)"

definition descendants_next :: "(descendants, node, 'e) iter_next" where
  "descendants_next it =
     (if ch_finished it then Ok (None, it)
      else run (\<lambda>it. unread (ch_reader it)) descendants_step it)"

text \<open>Iterator measures: a finished iterator has nothing left.\<close>

definition prs_measure :: "properties \<Rightarrow> nat" where
  "prs_measure it = unread (prs_reader it)"

definition ch_measure :: "children \<Rightarrow> nat" where
  "ch_measure it = unread (ch_reader it)"

definition node_properties :: "node \<Rightarrow> properties" where
  "node_properties nd = properties_new (nd_content nd) (nd_strings nd)"

definition node_property :: "node \<Rightarrow> bytes \<Rightarrow> (property option, 'e) res" where
  "node_property nd name =
     bind_res (iter_find prs_measure properties_next (\<lambda>p. prop_name p = name) (node_properties nd))
       (\<lambda>(p, _). Ok p)"

definition node_children :: "node \<Rightarrow> children" where
  "node_children nd = children_new (nd_content nd) (nd_strings nd)"

definition node_child :: "node \<Rightarrow> bytes \<Rightarrow> (node option, 'e) res" where
  "node_child nd name =
     bind_res (iter_find ch_measure children_next (\<lambda>c. nd_name c = name) (node_children nd))
       (\<lambda>(c, _). Ok c)"

definition node_descendants :: "node \<Rightarrow> descendants" where
  "node_descendants nd = descendants_new (nd_content nd) (nd_strings nd)"

definition node_name_component :: "node \<Rightarrow> bytes" where
  "node_name_component nd = component (nd_name nd)"

definition node_unit_address :: "node \<Rightarrow> bytes option" where
  "node_unit_address nd = unit_address (nd_name nd)"

definition structure_root :: "structure_block \<Rightarrow> strings \<Rightarrow> (node, 'e) res" where
  "structure_root sb st =
     bind_res (vr_read_non_nop_token (reader_new (sb_bytes sb))) (\<lambda>(token, r1).
     if token \<noteq> BeginNode then Panic else
     bind_res (vr_read_node_name r1) (\<lambda>(name, r2).
     if name \<noteq> [] then Panic else
     Ok \<lparr>nd_name = name, nd_content = remaining_bytes r2, nd_strings = st\<rparr>))"

lemmas vr_defs = vr_read_u32_def vr_read_bytes_def vr_read_nul_terminated_def vr_align_to_4_def
  vr_read_token_def vr_read_node_name_def vr_skip_property_def vr_read_property_def

section \<open>Progress\<close>

lemma vr_read_token_progress: "vr_read_token r = Ok (t, r') \<Longrightarrow> unread r' + 4 = unread r"
  by (auto simp: vr_read_token_def res_simps dest!: read_token_progress)

lemma vr_payload_progress:
  "vr_read_property r st = Ok (p, r') \<Longrightarrow> unread r' \<le> unread r"
  "vr_skip_property r = Ok r' \<Longrightarrow> unread r' \<le> unread r"
  "vr_read_node_name r = Ok (n, r') \<Longrightarrow> unread r' \<le> unread r"
  by (auto simp: vr_defs res_simps dest!: read_progress)

lemmas vr_progress = vr_read_token_progress vr_payload_progress

interpretation vr_non_nop: decreasing_loop unread vr_non_nop_step
  by unfold_locales
    (auto simp: vr_non_nop_step_def bind_res_def dest!: vr_progress split: res.splits if_splits)

interpretation properties_loop: decreasing_loop "\<lambda>it. unread (prs_reader it)" properties_step
  by unfold_locales
    (auto simp: properties_step_def bind_res_def dest!: vr_progress
      split: res.splits if_splits token.splits)

interpretation children_loop: decreasing_loop "\<lambda>it. unread (ch_reader it)" children_step
  by unfold_locales
    (auto simp: children_step_def bind_res_def Let_def dest!: vr_progress
      split: res.splits if_splits token.splits)

interpretation descendants_loop: decreasing_loop "\<lambda>it. unread (ch_reader it)" descendants_step
  by unfold_locales
    (auto simp: descendants_step_def bind_res_def Let_def dest!: vr_progress
      split: res.splits if_splits token.splits)

text \<open>Each loop breaks with less left to read than it started with, so the iterators are finite.\<close>

lemma properties_step_break:
  "properties_step it = Ok (Break b) \<Longrightarrow> fst b = None \<or> prs_measure (snd b) < unread (prs_reader it)"
  by (auto simp: properties_step_def bind_res_def prs_measure_def Let_def dest!: vr_progress
      split: res.splits if_splits token.splits)

lemma properties_next_measure: "properties_next it = Ok (Some x, it') \<Longrightarrow> prs_measure it' < prs_measure it"
  using properties_loop.run_break_bound [OF properties_step_break]
  by (fastforce simp: properties_next_def prs_measure_def split: if_splits)

interpretation prs: iterator prs_measure properties_next
  by unfold_locales (rule properties_next_measure)

lemma children_step_break:
  "children_step it = Ok (Break b) \<Longrightarrow> fst b = None \<or> ch_measure (snd b) < unread (ch_reader it)"
  by (auto simp: children_step_def bind_res_def ch_measure_def Let_def dest!: vr_progress
      split: res.splits if_splits token.splits)

lemma children_next_measure: "children_next it = Ok (Some x, it') \<Longrightarrow> ch_measure it' < ch_measure it"
  using children_loop.run_break_bound [OF children_step_break]
  by (fastforce simp: children_next_def ch_measure_def split: if_splits)

interpretation ch: iterator ch_measure children_next
  by unfold_locales (rule children_next_measure)

lemma descendants_step_break:
  "descendants_step it = Ok (Break b) \<Longrightarrow> fst b = None \<or> ch_measure (snd b) < unread (ch_reader it)"
  by (auto simp: descendants_step_def bind_res_def ch_measure_def Let_def dest!: vr_progress
      split: res.splits if_splits token.splits)

lemma descendants_next_measure: "descendants_next it = Ok (Some x, it') \<Longrightarrow> ch_measure it' < ch_measure it"
  using descendants_loop.run_break_bound [OF descendants_step_break]
  by (fastforce simp: descendants_next_def ch_measure_def split: if_splits)

interpretation ds: iterator ch_measure descendants_next
  by unfold_locales (rule descendants_next_measure)

text \<open>One unfolding of an unfinished iterator.\<close>

lemma properties_next_unfold:
  assumes "\<not> prs_finished it"
  shows "properties_next it =
    bind_res (properties_step it) (\<lambda>f. case f of Continue it' \<Rightarrow> properties_next it' | Break b \<Rightarrow> Ok b)"
proof -
  have "prs_finished it' = prs_finished it" if "properties_step it = Ok (Continue it')" for it'
    using that by (auto simp: properties_step_def bind_res_def Let_def split: res.splits token.splits if_splits)
  with assms show ?thesis
    unfolding properties_next_def
    by (subst properties_loop.run_unfold) (auto simp: bind_res_def split: res.split flow.split)
qed

lemma children_next_unfold:
  assumes "\<not> ch_finished it"
  shows "children_next it =
    bind_res (children_step it) (\<lambda>f. case f of Continue it' \<Rightarrow> children_next it' | Break b \<Rightarrow> Ok b)"
proof -
  have "ch_finished it' = ch_finished it" if "children_step it = Ok (Continue it')" for it'
    using that by (auto simp: children_step_def bind_res_def Let_def split: res.splits token.splits if_splits)
  with assms show ?thesis
    unfolding children_next_def
    by (subst children_loop.run_unfold) (auto simp: bind_res_def split: res.split flow.split)
qed

lemma descendants_next_unfold:
  assumes "\<not> ch_finished it"
  shows "descendants_next it =
    bind_res (descendants_step it) (\<lambda>f. case f of Continue it' \<Rightarrow> descendants_next it' | Break b \<Rightarrow> Ok b)"
proof -
  have "ch_finished it' = ch_finished it" if "descendants_step it = Ok (Continue it')" for it'
    using that by (auto simp: descendants_step_def bind_res_def Let_def split: res.splits token.splits if_splits)
  with assms show ?thesis
    unfolding descendants_next_def
    by (subst descendants_loop.run_unfold) (auto simp: bind_res_def split: res.split flow.split)
qed

lemma next_finished [simp]:
  "prs_finished pit \<Longrightarrow> properties_next pit = Ok (None, pit)"
  "ch_finished it \<Longrightarrow> children_next it = Ok (None, it)"
  "ch_finished it \<Longrightarrow> descendants_next it = Ok (None, it)"
  by (simp_all add: properties_next_def children_next_def descendants_next_def)

end
