(* ===== verification/View_Correct.thy ===== *)
theory View_Correct
  imports View
begin

text \<open>
  The views over the encoding of a tree.  \<open>node_rep\<close> says that a \<open>Node\<close> view stands for a
  tree; the root of an accepted block does, and the iterators of a node that stands for a tree
  yield views of its properties, children and descendants.
\<close>

section \<open>Validated reads of an item\<close>

lemma vr_read_token_item:
  "aligned bs r \<Longrightarrow> item_at (remaining_bytes r) = Some i \<Longrightarrow> vr_read_token r = Ok (item_token i, skip 4 r)"
  by (simp add: vr_read_token_def)

lemma vr_read_node_name_item:
  "aligned bs r \<Longrightarrow> item_at (remaining_bytes r) = Some (IBegin n) \<Longrightarrow>
     vr_read_node_name (skip 4 r) = Ok (n, skip (item_len (IBegin n)) r)"
  using begin_reads(1,2) [of bs r n] by (auto simp: vr_defs simp del: item_len.simps)

lemma vr_property_item:
  assumes "aligned bs r" "item_at (remaining_bytes r) = Some (IProp off v)"
  shows "vr_skip_property (skip 4 r) = Ok (skip (item_len (IProp off v)) r)"
    and "strings_validate_property_name st off = Ok n \<Longrightarrow>
      vr_read_property (skip 4 r) st = Ok (\<lparr>prop_name = n, prop_value = v\<rparr>, skip (item_len (IProp off v)) r)"
  by (rule prop_reads [OF assms]; simp add: vr_defs del: item_len.simps)+

lemmas vr_item = vr_read_token_item vr_read_node_name_item vr_property_item

section \<open>Properties\<close>

definition view_property :: "bytes \<times> bytes \<Rightarrow> property" where
  "view_property = (\<lambda>(n, v). \<lparr>prop_name = n, prop_value = v\<rparr>)"

definition properties_at :: "reader \<Rightarrow> strings \<Rightarrow> properties" where
  "properties_at r st = \<lparr>prs_reader = r, prs_strings = st, prs_finished = False\<rparr>"

lemma properties_next_item:
  assumes "aligned bs r" "item_at (remaining_bytes r) = Some i"
  shows "i = INop \<Longrightarrow> properties_next (properties_at r st) =
      properties_next (properties_at (skip (item_len INop) r) st)"
    and "i = IProp off v \<Longrightarrow> strings_validate_property_name st off = Ok n \<Longrightarrow>
      properties_next (properties_at r st) =
        Ok (Some (view_property (n, v)), properties_at (skip (item_len (IProp off v)) r) st)"
    and "i = IEnd \<or> i = IBegin m \<Longrightarrow> \<exists>it. properties_next (properties_at r st) = Ok (None, it) \<and> properties_next it = Ok (None, it)"
proof -
  have unf: "properties_next (properties_at r st) = bind_res (properties_step (properties_at r st))
      (\<lambda>f. case f of Continue it' \<Rightarrow> properties_next it' | Break b \<Rightarrow> Ok b)"
    by (rule properties_next_unfold) (simp add: properties_at_def)
  note step = properties_step_def properties_at_def vr_item [OF assms(1)] view_property_def
  show "i = INop \<Longrightarrow> properties_next (properties_at r st) =
      properties_next (properties_at (skip (item_len INop) r) st)"
    using assms unfolding unf by (simp add: step)
  show "i = IProp off v \<Longrightarrow> strings_validate_property_name st off = Ok n \<Longrightarrow>
      properties_next (properties_at r st) =
        Ok (Some (view_property (n, v)), properties_at (skip (item_len (IProp off v)) r) st)"
    using assms unfolding unf by (simp add: step del: item_len.simps)
  show "i = IEnd \<or> i = IBegin m \<Longrightarrow> \<exists>it. properties_next (properties_at r st) = Ok (None, it) \<and> properties_next it = Ok (None, it)"
    using assms unfolding unf by (auto simp: step)
qed

lemma yields_next_eq: "nxt s = nxt s' \<Longrightarrow> yields nxt s xs \<longleftrightarrow> yields nxt s' xs"
  by (subst (1 2) yields.simps) simp

lemma properties_yields:
  "wkids st u suf cs rest \<Longrightarrow> (\<forall>r. aligned bs r \<and> remaining_bytes r = suf \<longrightarrow>
     yields (properties_next :: (_, _, 'e) iter_next) (properties_at r st) [])"
  "wbody st u suf ps cs rest \<Longrightarrow> (\<forall>r. aligned bs r \<and> remaining_bytes r = suf \<longrightarrow>
     yields (properties_next :: (_, _, 'e) iter_next) (properties_at r st) (map view_property ps))"
proof (induction rule: wkids_wbody.inducts)
  case (wbody_prop suf off v n used ps cs r)
  show ?case
  proof safe
    fix r' assume al: "aligned bs r'" and suf: "suf = remaining_bytes r'"
    note item = wbody_prop(1) [unfolded suf]
    note next_ok = aligned_skip_item [OF al item]
    have "yields (properties_next :: (_, _, 'e) iter_next) (properties_at (skip (item_len (IProp off v)) r') st) (map view_property ps)"
      using wbody_prop.IH next_ok suf by blast
    with properties_next_item(2) [OF al item refl wbody_prop(3)]
    show "yields (properties_next :: (_, _, 'e) iter_next) (properties_at r' st) (map view_property ((n, v) # ps))"
      by (auto intro: yields_more)
  qed
next
  case (wkids_nop suf used cs r)
  then show ?case using yields_next_eq [OF properties_next_item(1)] aligned_skip_item by blast
next
  case (wbody_nop suf used ps cs r)
  then show ?case using yields_next_eq [OF properties_next_item(1)] aligned_skip_item by blast
next
  case (wkids_end suf used)
  then show ?case using properties_next_item(3) by (blast intro: yields_done)
next
  case (wkids_begin suf n used ps ks r1 cs r)
  then show ?case using properties_next_item(3) by (blast intro: yields_done)
qed simp

section \<open>Children\<close>

definition node_rep :: "strings \<Rightarrow> node \<Rightarrow> dtree \<Rightarrow> bool" where
  "node_rep st nd t \<longleftrightarrow>
     nd_name nd = dt_name t \<and> nd_strings nd = st \<and> length (nd_content nd) < USIZE_LIMIT \<and>
     (\<exists>rest. wbody st [] (nd_content nd) (dt_props t) (dt_kids t) rest)"

definition children_at :: "reader \<Rightarrow> strings \<Rightarrow> nat \<Rightarrow> children" where
  "children_at r st d = \<lparr>ch_reader = r, ch_strings = st, ch_depth = d, ch_finished = False\<rparr>"

definition node_at :: "bytes \<Rightarrow> bytes \<Rightarrow> strings \<Rightarrow> node" where
  "node_at name content st = \<lparr>nd_name = name, nd_content = content, nd_strings = st\<rparr>"

lemma node_rep_begin:
  assumes "aligned bs r" "item_at (remaining_bytes r) = Some (IBegin n)"
    "wbody st [] (item_rest (IBegin n) (remaining_bytes r)) ps ks rest"
  shows "node_rep st (node_at n (item_rest (IBegin n) (remaining_bytes r)) st) (DNode n ps ks)"
  using assms by (auto simp: node_rep_def node_at_def item_rest_def aligned_def reader_ok_def remaining_bytes_def)

lemma children_next_item:
  assumes "aligned bs r" "item_at (remaining_bytes r) = Some i"
  shows "i = INop \<or> i = IProp off v \<Longrightarrow>
      children_next (children_at r st d) = children_next (children_at (skip (item_len i) r) st d)"
    and "i = IBegin n \<Longrightarrow> children_next (children_at r st 0) =
        Ok (Some (node_at n (item_rest (IBegin n) (remaining_bytes r)) st),
            children_at (skip (item_len (IBegin n)) r) st 1)"
    and "i = IBegin n \<Longrightarrow> children_next (children_at r st (Suc d)) =
        children_next (children_at (skip (item_len (IBegin n)) r) st (Suc (Suc d)))"
    and "i = IEnd \<Longrightarrow> \<exists>it. children_next (children_at r st 0) = Ok (None, it) \<and> children_next it = Ok (None, it)"
    and "i = IEnd \<Longrightarrow> children_next (children_at r st (Suc d)) =
        children_next (children_at (skip (item_len IEnd) r) st d)"
proof -
  have unf: "children_next (children_at r st d) = bind_res (children_step (children_at r st d))
      (\<lambda>f. case f of Continue it' \<Rightarrow> children_next it' | Break b \<Rightarrow> Ok b)" for d
    by (rule children_next_unfold) (simp add: children_at_def)
  note step = children_step_def children_at_def vr_item [OF assms(1)] node_at_def
    aligned_skip_item(2) [OF assms]
  show "i = INop \<or> i = IProp off v \<Longrightarrow>
      children_next (children_at r st d) = children_next (children_at (skip (item_len i) r) st d)"
    using assms unfolding unf by (auto simp: step simp del: item_len.simps(1,2))
  show "i = IBegin n \<Longrightarrow> children_next (children_at r st 0) =
        Ok (Some (node_at n (item_rest (IBegin n) (remaining_bytes r)) st),
            children_at (skip (item_len (IBegin n)) r) st 1)"
    using assms step(6) unfolding unf by (simp add: step del: item_len.simps skip_sel)
  show "i = IBegin n \<Longrightarrow> children_next (children_at r st (Suc d)) =
        children_next (children_at (skip (item_len (IBegin n)) r) st (Suc (Suc d)))"
    using assms unfolding unf by (simp add: step del: item_len.simps skip_sel)
  show "i = IEnd \<Longrightarrow> \<exists>it. children_next (children_at r st 0) = Ok (None, it) \<and> children_next it = Ok (None, it)"
    using assms unfolding unf by (simp add: step)
  show "i = IEnd \<Longrightarrow> children_next (children_at r st (Suc d)) =
        children_next (children_at (skip (item_len IEnd) r) st d)"
    using assms unfolding unf by (simp add: step)
qed

text \<open>Below the first level the iterator runs to the end of the open node.\<close>

definition skips :: "'e itself \<Rightarrow> bytes \<Rightarrow> strings \<Rightarrow> bytes \<Rightarrow> bytes \<Rightarrow> bool" where
  "skips E bs st suf rest \<longleftrightarrow> (\<forall>r d. aligned bs r \<and> remaining_bytes r = suf \<longrightarrow>
     (\<exists>r'. aligned bs r' \<and> remaining_bytes r' = rest \<and>
        (children_next (children_at r st (Suc d)) :: (_, 'e) res) = children_next (children_at r' st d)))"

lemma skips_item:
  "item_at suf = Some IEnd \<Longrightarrow> skips E bs st suf (item_rest IEnd suf)"
  "item_at suf = Some INop \<Longrightarrow> skips E bs st (item_rest INop suf) rest \<Longrightarrow> skips E bs st suf rest"
  "item_at suf = Some (IProp off v) \<Longrightarrow> skips E bs st (item_rest (IProp off v) suf) rest \<Longrightarrow> skips E bs st suf rest"
  unfolding skips_def using aligned_skip_item children_next_item(5) apply blast
  unfolding skips_def using aligned_skip_item children_next_item(1) by metis+

lemma skips_begin:
  assumes "item_at suf = Some (IBegin n)" "skips E bs st (item_rest (IBegin n) suf) r1" "skips E bs st r1 rest"
  shows "skips E bs st suf rest"
  unfolding skips_def
proof safe
  fix r d
  assume al: "aligned bs r" and suf: "suf = remaining_bytes r"
  note item = assms(1) [unfolded suf]
  from assms(2) aligned_skip_item [OF al item] suf obtain q where q: "aligned bs q" "remaining_bytes q = r1"
      "(children_next (children_at (skip (item_len (IBegin n)) r) st (Suc (Suc d))) :: (_, 'a) res) =
        children_next (children_at q st (Suc d))"
    unfolding skips_def by metis
  with assms(3) children_next_item(3) [OF al item refl, of st d]
  show "\<exists>r'. aligned bs r' \<and> remaining_bytes r' = rest \<and>
      (children_next (children_at r st (Suc d)) :: (_, 'a) res) = children_next (children_at r' st d)"
    unfolding skips_def by metis
qed

lemma children_skip:
  "wkids st u suf cs rest \<Longrightarrow> skips E bs st suf rest"
  "wbody st u suf ps cs rest \<Longrightarrow> skips E bs st suf rest"
  by (induction rule: wkids_wbody.inducts) (auto intro: skips_item skips_begin)

text \<open>At the first level each child is produced, then its contents are skipped.\<close>

definition yields_kids :: "'e itself \<Rightarrow> bytes \<Rightarrow> strings \<Rightarrow> bytes \<Rightarrow> dtree list \<Rightarrow> bool" where
  "yields_kids E bs st suf cs \<longleftrightarrow> (\<forall>r. aligned bs r \<and> remaining_bytes r = suf \<longrightarrow>
     (\<exists>ns. yields (children_next :: (_, _, 'e) iter_next) (children_at r st 0) ns \<and> list_all2 (node_rep st) ns cs))"

lemma yields_kids_item:
  "item_at suf = Some IEnd \<Longrightarrow> yields_kids E bs st suf []"
  "item_at suf = Some INop \<Longrightarrow> yields_kids E bs st (item_rest INop suf) cs \<Longrightarrow> yields_kids E bs st suf cs"
  "item_at suf = Some (IProp off v) \<Longrightarrow> yields_kids E bs st (item_rest (IProp off v) suf) cs \<Longrightarrow>
     yields_kids E bs st suf cs"
  unfolding yields_kids_def using children_next_item(4) yields_done apply (metis list_all2_Nil)
  unfolding yields_kids_def using aligned_skip_item yields_next_eq [OF children_next_item(1)] by metis+

lemma yields_kids_begin:
  assumes "item_at suf = Some (IBegin n)" "wbody st [] (item_rest (IBegin n) suf) ps ks r1"
    "yields_kids E bs st r1 cs"
  shows "yields_kids E bs st suf (DNode n ps ks # cs)"
  unfolding yields_kids_def
proof safe
  fix r
  assume al: "aligned bs r" and suf: "suf = remaining_bytes r"
  note item = assms(1) [unfolded suf]
  obtain q where q: "aligned bs q" "remaining_bytes q = r1"
      "(children_next (children_at (skip (item_len (IBegin n)) r) st (Suc 0)) :: (_, 'a) res) =
        children_next (children_at q st 0)"
    using children_skip(2) [OF assms(2), of E bs] aligned_skip_item [OF al item] suf
    unfolding skips_def by metis
  from assms(3) q obtain ns where ns: "yields (children_next :: (_, _, 'a) iter_next) (children_at q st 0) ns"
      "list_all2 (node_rep st) ns cs" unfolding yields_kids_def by blast
  let ?nd = "node_at n (item_rest (IBegin n) (remaining_bytes r)) st"
  have "yields (children_next :: (_, _, 'a) iter_next) (children_at r st 0) (?nd # ns)"
    using children_next_item(2) [OF al item refl, of st] ns(1) yields_next_eq [OF q(3)]
    by (auto intro: yields_more)
  moreover have "list_all2 (node_rep st) (?nd # ns) (DNode n ps ks # cs)"
    using ns(2) node_rep_begin [OF al item] assms(2) suf by simp
  ultimately show "\<exists>ns. yields (children_next :: (_, _, 'a) iter_next) (children_at r st 0) ns \<and>
      list_all2 (node_rep st) ns (DNode n ps ks # cs)" by blast
qed

lemma children_yields:
  "wkids st u suf cs rest \<Longrightarrow> yields_kids E bs st suf cs"
  "wbody st u suf ps cs rest \<Longrightarrow> yields_kids E bs st suf cs"
  by (induction rule: wkids_wbody.inducts) (auto intro: yields_kids_item yields_kids_begin)

section \<open>Descendants\<close>

text \<open>A node followed by its descendants, depth first.\<close>

fun preorder :: "dtree \<Rightarrow> dtree list" where
  "preorder (DNode n ps ks) = DNode n ps ks # concat (map preorder ks)"

lemma descendants_next_item:
  assumes "aligned bs r" "item_at (remaining_bytes r) = Some i"
  shows "i = INop \<or> i = IProp off v \<Longrightarrow>
      descendants_next (children_at r st d) = descendants_next (children_at (skip (item_len i) r) st d)"
    and "i = IBegin n \<Longrightarrow> descendants_next (children_at r st d) =
        Ok (Some (node_at n (item_rest (IBegin n) (remaining_bytes r)) st),
            children_at (skip (item_len (IBegin n)) r) st (Suc d))"
    and "i = IEnd \<Longrightarrow> \<exists>it. descendants_next (children_at r st 0) = Ok (None, it) \<and> descendants_next it = Ok (None, it)"
    and "i = IEnd \<Longrightarrow> descendants_next (children_at r st (Suc d)) =
        descendants_next (children_at (skip (item_len IEnd) r) st d)"
proof -
  have unf: "descendants_next (children_at r st d) = bind_res (descendants_step (children_at r st d))
      (\<lambda>f. case f of Continue it' \<Rightarrow> descendants_next it' | Break b \<Rightarrow> Ok b)" for d
    by (rule descendants_next_unfold) (simp add: children_at_def)
  note step = descendants_step_def children_at_def vr_item [OF assms(1)] node_at_def
    aligned_skip_item(2) [OF assms]
  show "i = INop \<or> i = IProp off v \<Longrightarrow>
      descendants_next (children_at r st d) = descendants_next (children_at (skip (item_len i) r) st d)"
    using assms unfolding unf by (auto simp: step simp del: item_len.simps(1,2))
  show "i = IBegin n \<Longrightarrow> descendants_next (children_at r st d) =
        Ok (Some (node_at n (item_rest (IBegin n) (remaining_bytes r)) st),
            children_at (skip (item_len (IBegin n)) r) st (Suc d))"
    using assms step(6) unfolding unf by (simp add: step del: item_len.simps skip_sel)
  show "i = IEnd \<Longrightarrow> \<exists>it. descendants_next (children_at r st 0) = Ok (None, it) \<and> descendants_next it = Ok (None, it)"
    using assms unfolding unf by (simp add: step)
  show "i = IEnd \<Longrightarrow> descendants_next (children_at r st (Suc d)) =
        descendants_next (children_at (skip (item_len IEnd) r) st d)"
    using assms unfolding unf by (simp add: step)
qed

text \<open>
  From the reader \<open>r\<close> at depth \<open>d\<close> the iterator produces views of \<open>ts\<close> and then whatever it
  produces from \<open>r'\<close> at depth \<open>d'\<close>.
\<close>

definition walks :: "'e itself \<Rightarrow> strings \<Rightarrow> reader \<Rightarrow> nat \<Rightarrow> dtree list \<Rightarrow> reader \<Rightarrow> nat \<Rightarrow> bool" where
  "walks E st r d ts r' d' \<longleftrightarrow>
     (\<forall>ms. yields (descendants_next :: (_, _, 'e) iter_next) (children_at r' st d') ms \<longrightarrow>
        (\<exists>ns. yields (descendants_next :: (_, _, 'e) iter_next) (children_at r st d) (ns @ ms) \<and>
              list_all2 (node_rep st) ns ts))"

lemma walks_eq:
  "descendants_next (children_at r st d) = (descendants_next (children_at r' st d') :: (_, 'e) res) \<Longrightarrow>
     walks (E :: 'e itself) st r d [] r' d'"
  unfolding walks_def by (auto simp: yields_next_eq [of descendants_next "children_at r st d"] intro: exI [of _ "[]"])

lemma walks_trans:
  assumes "walks E st r d ts r1 d1" "walks E st r1 d1 ts' r2 d2"
  shows "walks E st r d (ts @ ts') r2 d2"
  unfolding walks_def
proof safe
  fix ms assume "yields (descendants_next :: (_, _, 'a) iter_next) (children_at r2 st d2) ms"
  with assms obtain ns ns' where "list_all2 (node_rep st) ns ts" "list_all2 (node_rep st) ns' ts'"
      "yields (descendants_next :: (_, _, 'a) iter_next) (children_at r st d) (ns @ ns' @ ms)"
    unfolding walks_def by meson
  then show "\<exists>ns. yields (descendants_next :: (_, _, 'a) iter_next) (children_at r st d) (ns @ ms) \<and>
      list_all2 (node_rep st) ns (ts @ ts')"
    by (intro exI [of _ "ns @ ns'"]) (simp add: list_all2_appendI)
qed

lemma walks_begin:
  assumes "aligned bs r" "item_at (remaining_bytes r) = Some (IBegin n)"
    "wbody st [] (item_rest (IBegin n) (remaining_bytes r)) ps ks rest"
  shows "walks E st r d [DNode n ps ks] (skip (item_len (IBegin n)) r) (Suc d)"
  using descendants_next_item(2) [OF assms(1,2) refl, of st d] node_rep_begin [OF assms]
  unfolding walks_def by (auto intro!: exI [of _ "[_]"] yields_more)

definition walk_to :: "'e itself \<Rightarrow> bytes \<Rightarrow> strings \<Rightarrow> bytes \<Rightarrow> dtree list \<Rightarrow> bytes \<Rightarrow> bool" where
  "walk_to E bs st suf ts rest \<longleftrightarrow> (\<forall>r d. aligned bs r \<and> remaining_bytes r = suf \<longrightarrow>
     (\<exists>r'. aligned bs r' \<and> remaining_bytes r' = rest \<and> walks E st r (Suc d) ts r' d))"

lemma walk_to_end: "item_at suf = Some IEnd \<Longrightarrow> walk_to E bs st suf [] (item_rest IEnd suf)"
  unfolding walk_to_def using aligned_skip_item descendants_next_item(4) walks_eq
  by metis

lemma walks_skip:
  assumes "aligned bs r" "item_at (remaining_bytes r) = Some i" "i = INop \<or> i = IProp off v"
  shows "walks E st r d [] (skip (item_len i) r) d"
  using walks_eq [OF descendants_next_item(1) [OF assms]] .

lemma walk_to_skip:
  assumes "item_at suf = Some i" "i = INop \<or> i = IProp off v" "walk_to E bs st (item_rest i suf) ts rest"
  shows "walk_to E bs st suf ts rest"
  unfolding walk_to_def
proof safe
  fix r d assume al: "aligned bs r" and suf: "suf = remaining_bytes r"
  note item = assms(1) [unfolded suf]
  from assms(3) aligned_skip_item [OF al item] suf obtain r' where "aligned bs r'" "remaining_bytes r' = rest"
      "walks E st (skip (item_len i) r) (Suc d) ts r' d" unfolding walk_to_def by metis
  with walks_trans [OF walks_skip [OF al item assms(2)] this(3)]
  show "\<exists>r'. aligned bs r' \<and> remaining_bytes r' = rest \<and> walks E st r (Suc d) ts r' d" by auto
qed

text \<open>One child: the node, its contents one level deeper, and on from there.\<close>

lemma walks_child:
  assumes "aligned bs r" "item_at (remaining_bytes r) = Some (IBegin n)"
    "wbody st [] (item_rest (IBegin n) (remaining_bytes r)) ps ks r1"
    "walk_to E bs st (item_rest (IBegin n) (remaining_bytes r)) (concat (map preorder ks)) r1"
  shows "\<exists>q. aligned bs q \<and> remaining_bytes q = r1 \<and> walks E st r d (preorder (DNode n ps ks)) q d"
proof -
  from assms(4) aligned_skip_item [OF assms(1,2)] obtain q where "aligned bs q" "remaining_bytes q = r1"
      "walks E st (skip (item_len (IBegin n)) r) (Suc d) (concat (map preorder ks)) q d"
    unfolding walk_to_def by metis
  with walks_trans [OF walks_begin [OF assms(1-3)] this(3)] show ?thesis by auto
qed

lemma walk_to_begin:
  assumes "item_at suf = Some (IBegin n)" "wbody st [] (item_rest (IBegin n) suf) ps ks r1"
    "walk_to E bs st (item_rest (IBegin n) suf) (concat (map preorder ks)) r1" "walk_to E bs st r1 ts rest"
  shows "walk_to E bs st suf (preorder (DNode n ps ks) @ ts) rest"
  unfolding walk_to_def
proof safe
  fix r d assume al: "aligned bs r" and suf: "suf = remaining_bytes r"
  from walks_child [OF al assms(1-3) [unfolded suf]] obtain q where "aligned bs q" "remaining_bytes q = r1"
      "walks E st r (Suc d) (preorder (DNode n ps ks)) q (Suc d)" by blast
  with assms(4) walks_trans [OF this(3)]
  show "\<exists>r'. aligned bs r' \<and> remaining_bytes r' = rest \<and> walks E st r (Suc d) (preorder (DNode n ps ks) @ ts) r' d"
    unfolding walk_to_def by metis
qed

lemma descendants_walk:
  "wkids st u suf cs rest \<Longrightarrow> walk_to E bs st suf (concat (map preorder cs)) rest"
  "wbody st u suf ps cs rest \<Longrightarrow> walk_to E bs st suf (concat (map preorder cs)) rest"
proof (induction rule: wkids_wbody.inducts)
  case (wkids_begin suf n used ps ks r1 cs r)
  then show ?case using walk_to_begin by (metis concat.simps(2) list.map(2))
qed (auto intro: walk_to_end walk_to_skip)

definition yields_preorder :: "'e itself \<Rightarrow> bytes \<Rightarrow> strings \<Rightarrow> bytes \<Rightarrow> dtree list \<Rightarrow> bool" where
  "yields_preorder E bs st suf ts \<longleftrightarrow> (\<forall>r. aligned bs r \<and> remaining_bytes r = suf \<longrightarrow>
     (\<exists>ns. yields (descendants_next :: (_, _, 'e) iter_next) (children_at r st 0) ns \<and> list_all2 (node_rep st) ns ts))"

lemma walks_yields:
  fixes E :: "'e itself"
  assumes "walks E st r d ts r' 0" "aligned bs r'" "yields_preorder E bs st (remaining_bytes r') ts'"
  shows "\<exists>ns. yields (descendants_next :: (_, _, 'e) iter_next) (children_at r st d) ns \<and>
    list_all2 (node_rep st) ns (ts @ ts')"
proof -
  from assms(2,3) obtain ms where ms: "yields (descendants_next :: (_, _, 'e) iter_next) (children_at r' st 0) ms"
      "list_all2 (node_rep st) ms ts'" unfolding yields_preorder_def by blast
  from assms(1) ms(1) obtain ns where "yields (descendants_next :: (_, _, 'e) iter_next) (children_at r st d) (ns @ ms)"
      "list_all2 (node_rep st) ns ts" unfolding walks_def by blast
  with ms(2) show ?thesis by (blast intro: list_all2_appendI)
qed

lemma yields_preorder_item:
  "item_at suf = Some IEnd \<Longrightarrow> yields_preorder E bs st suf []"
  "item_at suf = Some i \<Longrightarrow> i = INop \<or> i = IProp off v \<Longrightarrow> yields_preorder E bs st (item_rest i suf) ts \<Longrightarrow>
     yields_preorder E bs st suf ts"
  unfolding yields_preorder_def using descendants_next_item(3) yields_done apply (metis list_all2_Nil)
  unfolding yields_preorder_def using aligned_skip_item yields_next_eq [OF descendants_next_item(1)] by metis

lemma yields_preorder_begin:
  assumes "item_at suf = Some (IBegin n)" "wbody st [] (item_rest (IBegin n) suf) ps ks r1"
    "yields_preorder E bs st r1 ts"
  shows "yields_preorder E bs st suf (preorder (DNode n ps ks) @ ts)"
  unfolding yields_preorder_def
proof safe
  fix r assume al: "aligned bs r" and suf: "suf = remaining_bytes r"
  from walks_child [OF al assms(1,2) [unfolded suf] descendants_walk(2) [OF assms(2) [unfolded suf]]]
  obtain q where "aligned bs q" "remaining_bytes q = r1" "walks E st r 0 (preorder (DNode n ps ks)) q 0" by blast
  with walks_yields [OF this(3,1)] assms(3)
  show "\<exists>ns. yields (descendants_next :: (_, _, 'a) iter_next) (children_at r st 0) ns \<and>
      list_all2 (node_rep st) ns (preorder (DNode n ps ks) @ ts)" by blast
qed

lemma descendants_yields:
  "wkids st u suf cs rest \<Longrightarrow> yields_preorder E bs st suf (concat (map preorder cs))"
  "wbody st u suf ps cs rest \<Longrightarrow> yields_preorder E bs st suf (concat (map preorder cs))"
proof (induction rule: wkids_wbody.inducts)
  case (wkids_begin suf n used ps ks r1 cs r)
  then show ?case using yields_preorder_begin by (metis concat.simps(2) list.map(2))
qed (auto intro: yields_preorder_item)

section \<open>Nodes\<close>

lemma node_properties_yields:
  assumes "node_rep st nd t"
  shows "yields (properties_next :: (_, _, 'e) iter_next) (node_properties nd) (map view_property (dt_props t))"
proof -
  obtain rest where body: "wbody st [] (nd_content nd) (dt_props t) (dt_kids t) rest"
    and len: "length (nd_content nd) < USIZE_LIMIT" and st: "nd_strings nd = st"
    using assms by (auto simp: node_rep_def)
  from properties_yields(2) [where ?'e = 'e, OF body, of "nd_content nd"] len st show ?thesis
    by (simp add: node_properties_def properties_new_def properties_at_def del: reader_new_sel)
      (metis aligned_new reader_new_sel(4))
qed

lemma node_children_yields:
  assumes "node_rep st nd t"
  shows "\<exists>ns. yields (children_next :: (_, _, 'e) iter_next) (node_children nd) ns \<and>
    list_all2 (node_rep st) ns (dt_kids t)"
proof -
  obtain rest where body: "wbody st [] (nd_content nd) (dt_props t) (dt_kids t) rest"
    and len: "length (nd_content nd) < USIZE_LIMIT" and st: "nd_strings nd = st"
    using assms by (auto simp: node_rep_def)
  from children_yields(2) [OF body, of "TYPE('e)" "nd_content nd"] len st show ?thesis
    by (simp add: yields_kids_def node_children_def children_new_def children_at_def
        del: reader_new_sel) (metis aligned_new reader_new_sel(4))
qed

lemma node_descendants_yields:
  assumes "node_rep st nd t"
  shows "\<exists>ns. yields (descendants_next :: (_, _, 'e) iter_next) (node_descendants nd) ns \<and>
    list_all2 (node_rep st) ns (tl (preorder t))"
proof -
  obtain rest where body: "wbody st [] (nd_content nd) (dt_props t) (dt_kids t) rest"
    and len: "length (nd_content nd) < USIZE_LIMIT" and st: "nd_strings nd = st"
    using assms by (auto simp: node_rep_def)
  have "tl (preorder t) = concat (map preorder (dt_kids t))" by (cases t) simp
  with descendants_yields(2) [OF body, of "TYPE('e)" "nd_content nd"] len st show ?thesis
    by (simp add: yields_preorder_def node_descendants_def descendants_new_def children_at_def
        del: reader_new_sel) (metis aligned_new reader_new_sel(4))
qed

text \<open>Lookup by name is lookup in the tree.\<close>

lemma node_property_eq:
  assumes "node_rep st nd t"
  shows "(node_property nd name :: (_, 'e) res) =
    Ok (map_option (\<lambda>v. \<lparr>prop_name = name, prop_value = v\<rparr>) (map_of (dt_props t) name))"
proof -
  have "List.find (\<lambda>p. prop_name p = name) (map view_property ps) =
      map_option (\<lambda>v. \<lparr>prop_name = name, prop_value = v\<rparr>) (map_of ps name)" for ps
    by (induction ps) (auto simp: view_property_def)
  moreover have "yields (properties_next :: (_, _, 'e) iter_next) (node_properties nd) (map view_property (dt_props t))"
    by (rule node_properties_yields [OF assms])
  ultimately show ?thesis
    using prs.iter_find_yields [of "node_properties nd" _ "\<lambda>p. prop_name p = name"] by (fastforce simp: node_property_def)
qed

lemma find_list_all2:
  assumes "list_all2 R xs ys" "\<And>x y. R x y \<Longrightarrow> p x = q y"
  shows "rel_option R (List.find p xs) (List.find q ys)"
  using assms by (induction rule: list_all2_induct) auto

lemma node_child_eq:
  assumes "node_rep st nd t"
  shows "\<exists>c. (node_child nd name :: (_, 'e) res) = Ok c \<and>
    rel_option (node_rep st) c (List.find (\<lambda>k. dt_name k = name) (dt_kids t))"
proof -
  from node_children_yields [OF assms] obtain ns where ns:
      "yields (children_next :: (_, _, 'e) iter_next) (node_children nd) ns" "list_all2 (node_rep st) ns (dt_kids t)"
    by blast
  with ch.iter_find_yields [OF ns(1), of "\<lambda>c. nd_name c = name"]
    find_list_all2 [OF ns(2), of "\<lambda>c. nd_name c = name" "\<lambda>k. dt_name k = name"]
  show ?thesis by (auto simp: node_child_def node_rep_def)
qed

section \<open>The root\<close>

lemma vr_read_non_nop_token_eq:
  "nops (remaining_bytes r) suf \<Longrightarrow> aligned bs r \<Longrightarrow> item_at suf = Some i \<Longrightarrow> i \<noteq> INop \<Longrightarrow>
     \<exists>q. aligned bs q \<and> remaining_bytes q = suf \<and> (vr_read_non_nop_token r :: (_, 'e) res) = Ok (item_token i, skip 4 q)"
proof (induction "remaining_bytes r" suf arbitrary: r rule: nops.induct)
  case nops_refl
  then show ?case
    by (intro exI [of _ r], cases i)
      (simp_all add: vr_read_non_nop_token_def vr_non_nop.run_unfold vr_non_nop_step_def vr_read_token_item)
next
  case (nops_step rest)
  note next_ok = aligned_skip_item [OF nops_step.prems(1) nops_step.hyps(1)]
  have "(vr_read_non_nop_token r :: (_, 'e) res) = vr_read_non_nop_token (skip (item_len INop) r)"
    using nops_step.prems(1) nops_step.hyps(1) unfolding vr_read_non_nop_token_def
    by (subst vr_non_nop.run_unfold) (simp add: vr_non_nop_step_def vr_read_token_item)
  with nops_step.hyps(3) [OF next_ok(2) [symmetric] next_ok(1) nops_step.prems(2,3)] show ?case by simp
qed

lemma structure_root_rep:
  assumes "encodes st (sb_bytes sb) t" "length (sb_bytes sb) < USIZE_LIMIT"
  shows "\<exists>nd. (structure_root sb st :: (_, 'e) res) = Ok nd \<and> node_rep st nd t"
proof -
  obtain ps ks root close stop where t: "t = DNode [] ps ks" and root: "nops (sb_bytes sb) root" "item_at root = Some (IBegin [])"
    and body: "wbody st [] (item_rest (IBegin []) root) ps ks close"
    using assms(1) by (auto simp: encodes_def)
  obtain q where q: "aligned (sb_bytes sb) q" "remaining_bytes q = root"
      "(vr_read_non_nop_token (reader_new (sb_bytes sb)) :: (_, 'e) res) = Ok (item_token (IBegin []), skip 4 q)"
    using vr_read_non_nop_token_eq [OF _ aligned_new [OF assms(2)] root(2)] root(1) by auto
  note name = vr_read_node_name_item [OF q(1), unfolded q(2), OF root(2)]
  let ?nd = "node_at [] (item_rest (IBegin []) root) st"
  have "(structure_root sb st :: (_, 'e) res) = Ok ?nd"
    using q aligned_skip_item(2) [OF q(1), unfolded q(2), OF root(2)]
    by (simp add: structure_root_def node_at_def name del: item_len.simps skip_sel)
  moreover have "node_rep st ?nd t"
    using node_rep_begin [OF q(1), unfolded q(2), OF root(2) body] t by simp
  ultimately show ?thesis by blast
qed

end
