(* ===== verification/Addressing.thy ===== *)
theory Addressing
  imports View_Correct
begin

text \<open>
  Generic devicetree addressing, \<open>fdt/src/structure/semantic/addressing.rs\<close>: cell counts, the
  layout of \<open>reg\<close> entries, and the recursive check of a whole tree.  Every operation on a node
  view is related to a function of the tree it stands for.
\<close>

section \<open>Model\<close>

text \<open>A byte-string literal.\<close>

definition ascii :: "string \<Rightarrow> bytes" where
  "ascii s = map of_char s"

definition CELL_SIZE :: usize where
  "CELL_SIZE = 4"

definition ADDRESS_CELLS_PROPERTY :: bytes where
  "ADDRESS_CELLS_PROPERTY = ascii ''#address-cells''"

definition SIZE_CELLS_PROPERTY :: bytes where
  "SIZE_CELLS_PROPERTY = ascii ''#size-cells''"

datatype AddressCells = AddressCells (address_cells_get: u32)

datatype SizeCells = SizeCells (size_cells_get: u32)

record reg_layout =
  rl_address_size :: usize
  rl_entry_size :: usize

record child_addressing =
  ca_address_cells :: AddressCells
  ca_size_cells :: SizeCells

definition reg_layout_new :: "child_addressing \<Rightarrow> (reg_layout, SemanticError) res" where
  "reg_layout_new addressing = (
     let address_cells = address_cells_get (ca_address_cells addressing);
         size_cells = size_cells_get (ca_size_cells addressing);
         overflow = RegEntrySizeOverflow address_cells size_cells in
     bind_res (ok_or overflow (checked_mul_usize (usize_from_u32 address_cells) CELL_SIZE)) (\<lambda>address_size.
     bind_res (ok_or overflow (checked_mul_usize (usize_from_u32 size_cells) CELL_SIZE)) (\<lambda>size_size.
     bind_res (ok_or overflow (checked_add_usize address_size size_size)) (\<lambda>entry_size.
     Ok \<lparr>rl_address_size = address_size, rl_entry_size = entry_size\<rparr>))))"

definition decode_u32 :: "bytes \<Rightarrow> u32 option" where
  "decode_u32 bs = (if length bs = 4 then Some (u32_from_be_bytes bs) else None)"

definition parse_address_cells :: "node \<Rightarrow> (AddressCells, SemanticError) res" where
  "parse_address_cells nd = bind_res (node_property nd ADDRESS_CELLS_PROPERTY) (\<lambda>p.
     case p of
       None \<Rightarrow> Ok (AddressCells 2)
     | Some property \<Rightarrow>
         bind_res (ok_or (InvalidAddressCells (length (prop_value property))) (decode_u32 (prop_value property)))
           (\<lambda>value. Ok (AddressCells value)))"

definition parse_size_cells :: "node \<Rightarrow> (SizeCells, SemanticError) res" where
  "parse_size_cells nd = bind_res (node_property nd SIZE_CELLS_PROPERTY) (\<lambda>p.
     case p of
       None \<Rightarrow> Ok (SizeCells 1)
     | Some property \<Rightarrow>
         bind_res (ok_or (InvalidSizeCells (length (prop_value property))) (decode_u32 (prop_value property)))
           (\<lambda>value. Ok (SizeCells value)))"

definition parse_child_addressing :: "node \<Rightarrow> (child_addressing, SemanticError) res" where
  "parse_child_addressing nd =
     bind_res (parse_address_cells nd) (\<lambda>a.
     bind_res (parse_size_cells nd) (\<lambda>s.
     Ok \<lparr>ca_address_cells = a, ca_size_cells = s\<rparr>))"

definition child_addressing :: "node \<Rightarrow> (child_addressing, 'e) res" where
  "child_addressing nd = expect (parse_child_addressing nd)"

definition validate_node_addressing :: "node \<Rightarrow> (unit, SemanticError) res" where
  "validate_node_addressing nd =
     (if node_unit_address nd = None then Ok () else
      bind_res (node_property nd (ascii ''reg'')) (\<lambda>reg.
      bind_res (node_property nd (ascii ''ranges'')) (\<lambda>ranges.
      let has_reg = (reg \<noteq> None); has_ranges = (ranges \<noteq> None) in
      if \<not> has_reg \<and> \<not> has_ranges then Err UnitAddressWithoutReg else Ok ())))"

definition validate_node :: "node \<Rightarrow> (unit, SemanticError) res" where
  "validate_node nd =
     bind_res (parse_child_addressing nd) (\<lambda>_. validate_node_addressing nd)"

definition validate_reg :: "node \<Rightarrow> child_addressing \<Rightarrow> (unit, SemanticError) res" where
  "validate_reg nd parent_addressing = bind_res (node_property nd (ascii ''reg'')) (\<lambda>p.
     case p of
       None \<Rightarrow> Ok ()
     | Some reg \<Rightarrow>
         bind_res (reg_layout_new parent_addressing) (\<lambda>layout.
         let entry_size = rl_entry_size layout; len = length (prop_value reg) in
         if entry_size = 0 then
           (if len \<noteq> 0 then Err (InvalidRegLength len entry_size) else Ok ())
         else if \<not> entry_size dvd len then Err (InvalidRegLength len entry_size)
         else Ok ()))"

text \<open>
  \<open>validate_subtree\<close> recurses once per level of the tree; the fuel is the number of levels it may
  still enter.  A child's content is a proper suffix of its parent's, so the length of the content
  is enough.
\<close>

fun validate_subtree_fuel :: "nat \<Rightarrow> node \<Rightarrow> (unit, SemanticError) res" where
  "validate_subtree_fuel 0 parent = Diverge"
| "validate_subtree_fuel (Suc n) parent =
     bind_res (validate_node parent) (\<lambda>_.
     bind_res (child_addressing parent) (\<lambda>addressing.
     for_each ch_measure children_next (\<lambda>child.
         bind_res (validate_reg child addressing) (\<lambda>_. validate_subtree_fuel n child))
       (node_children parent)))"

definition validate_subtree :: "node \<Rightarrow> (unit, SemanticError) res" where
  "validate_subtree parent = validate_subtree_fuel (Suc (length (nd_content parent))) parent"

definition addressing_validate :: "node \<Rightarrow> (unit, SemanticError) res" where
  "addressing_validate root = validate_subtree root"

section \<open>Addressing of a tree\<close>

definition dt_prop :: "dtree \<Rightarrow> bytes \<Rightarrow> bytes option" where
  "dt_prop t name = map_of (dt_props t) name"

text \<open>The cell counts a node sets for its children; None where a count is malformed.\<close>

definition dt_cells :: "u32 \<Rightarrow> bytes \<Rightarrow> dtree \<Rightarrow> u32 option" where
  "dt_cells def name t = (case dt_prop t name of None \<Rightarrow> Some def | Some v \<Rightarrow> decode_u32 v)"

definition dt_addressing :: "dtree \<Rightarrow> child_addressing option" where
  "dt_addressing t =
     (case (dt_cells 2 ADDRESS_CELLS_PROPERTY t, dt_cells 1 SIZE_CELLS_PROPERTY t) of
        (Some a, Some s) \<Rightarrow> Some \<lparr>ca_address_cells = AddressCells a, ca_size_cells = SizeCells s\<rparr>
      | _ \<Rightarrow> None)"

definition layout_of :: "child_addressing \<Rightarrow> reg_layout" where
  "layout_of ca =
     \<lparr>rl_address_size = 4 * unat (address_cells_get (ca_address_cells ca)),
      rl_entry_size = 4 * unat (address_cells_get (ca_address_cells ca)) + 4 * unat (size_cells_get (ca_size_cells ca))\<rparr>"

definition reg_ok :: "child_addressing \<Rightarrow> dtree \<Rightarrow> bool" where
  "reg_ok ca t \<longleftrightarrow>
     (case dt_prop t (ascii ''reg'') of None \<Rightarrow> True | Some v \<Rightarrow> rl_entry_size (layout_of ca) dvd length v)"

definition unit_address_has_reg :: "dtree \<Rightarrow> bool" where
  "unit_address_has_reg t \<longleftrightarrow>
     (unit_address (dt_name t) \<noteq> None \<longrightarrow>
        dt_prop t (ascii ''reg'') \<noteq> None \<or> dt_prop t (ascii ''ranges'') \<noteq> None)"

definition dt_local_ok :: "dtree \<Rightarrow> bool" where
  "dt_local_ok t \<longleftrightarrow> unit_address_has_reg t \<and>
     (case dt_addressing t of None \<Rightarrow> False | Some ca \<Rightarrow> \<forall>k\<in>set (dt_kids t). reg_ok ca k)"

fun addressing_ok :: "dtree \<Rightarrow> bool" where
  "addressing_ok (DNode n ps ks) \<longleftrightarrow> dt_local_ok (DNode n ps ks) \<and> (\<forall>k\<in>set ks. addressing_ok k)"

section \<open>The code computes the addressing of the tree\<close>

text \<open>The layout of 32-bit cell counts is always representable in a 64-bit \<open>usize\<close>.\<close>

lemma reg_layout_new_eq: "reg_layout_new ca = Ok (layout_of ca)"
proof -
  have bound: "4 * unat (w :: u32) < 4 * 4294967296" for w using unat_lt2p [of w] by simp
  show ?thesis
    using bound [of "address_cells_get (ca_address_cells ca)"] bound [of "size_cells_get (ca_size_cells ca)"]
    by (simp add: reg_layout_new_def checked_mul_usize_def checked_add_usize_def usize_from_u32_def
        CELL_SIZE_def USIZE_LIMIT_def layout_of_def Let_def mult.commute)
qed

lemma parse_child_addressing_eq:
  assumes "node_rep st nd t"
  shows "parse_child_addressing nd = Ok ca \<longleftrightarrow> dt_addressing t = Some ca"
    and "returns (parse_child_addressing nd)"
  by (auto simp: parse_child_addressing_def parse_address_cells_def parse_size_cells_def node_property_eq [OF assms]
      dt_addressing_def dt_cells_def dt_prop_def intro!: returns_bind split: option.split)

lemma child_addressing_eq:
  assumes "node_rep st nd t" "dt_addressing t = Some ca"
  shows "child_addressing nd = Ok ca"
  using parse_child_addressing_eq(1) [OF assms(1), of ca] assms(2) by (simp add: child_addressing_def)

lemma validate_node_eq:
  assumes "node_rep st nd t"
  shows "validate_node nd = Ok () \<longleftrightarrow> unit_address_has_reg t \<and> dt_addressing t \<noteq> None"
    and "returns (validate_node nd)"
proof -
  have name: "nd_name nd = dt_name t" using assms by (simp add: node_rep_def)
  have addr: "validate_node_addressing nd = (if unit_address_has_reg t then Ok () else Err UnitAddressWithoutReg)"
    by (auto simp: validate_node_addressing_def node_property_eq [OF assms] unit_address_has_reg_def
        dt_prop_def node_unit_address_def name Let_def)
  from parse_child_addressing_eq(2) [OF assms] show "returns (validate_node nd)"
    by (auto simp: validate_node_def addr intro!: returns_bind)
  show "validate_node nd = Ok () \<longleftrightarrow> unit_address_has_reg t \<and> dt_addressing t \<noteq> None"
    using parse_child_addressing_eq(1) [OF assms] by (auto simp: validate_node_def addr res_simps)
qed

lemma validate_reg_eq:
  assumes "node_rep st nd t"
  shows "validate_reg nd ca = Ok () \<longleftrightarrow> reg_ok ca t" and "returns (validate_reg nd ca)"
  by (auto simp: validate_reg_def node_property_eq [OF assms] reg_layout_new_eq reg_ok_def dt_prop_def Let_def
      split: option.split)

text \<open>Enough fuel: each level of the tree takes at least one byte of the content.\<close>

fun depth_le :: "nat \<Rightarrow> dtree \<Rightarrow> bool" where
  "depth_le 0 t \<longleftrightarrow> False"
| "depth_le (Suc n) (DNode _ _ ks) \<longleftrightarrow> (\<forall>k\<in>set ks. depth_le n k)"

lemma wgrammar_depth:
  "wkids st used bs cs r \<Longrightarrow> (\<forall>n k. length bs \<le> n \<longrightarrow> k \<in> set cs \<longrightarrow> depth_le n k)"
  "wbody st used bs ps cs r \<Longrightarrow> (\<forall>n k. length bs \<le> n \<longrightarrow> k \<in> set cs \<longrightarrow> depth_le n k)"
proof (induction rule: wkids_wbody.inducts)
  case (wkids_begin bs n used ps ks r1 cs r)
  have len: "length (item_rest (IBegin n) bs) < length bs" by (rule item_rest_shorter [OF wkids_begin(1)])
  moreover have "length r1 < length (item_rest (IBegin n) bs)" using wgrammar_shorter(2) wkids_begin by blast
  ultimately show ?case
  proof (safe)
    fix m k assume m: "length bs \<le> m" and k: "k \<in> set (DNode n ps ks # cs)"
    with len obtain l where l: "m = Suc l" "length (item_rest (IBegin n) bs) \<le> l" by (cases m) auto
    with k wkids_begin.IH \<open>length r1 < _\<close> show "depth_le m k" by auto
  qed
qed (force dest: item_rest_shorter)+

lemma node_rep_depth: "node_rep st nd t \<Longrightarrow> depth_le (Suc (length (nd_content nd))) t"
  by (cases t) (auto simp: node_rep_def dest!: wgrammar_depth(2))

lemma list_all2_Ball:
  assumes "list_all2 R xs ys" "\<And>x y. R x y \<Longrightarrow> y \<in> set ys \<Longrightarrow> P x = Q y"
  shows "(\<forall>x\<in>set xs. P x) \<longleftrightarrow> (\<forall>y\<in>set ys. Q y)"
  using assms by (induction rule: list_all2_induct) auto

lemma validate_subtree_fuel_eq:
  assumes "node_rep st nd t" "depth_le n t"
  shows "validate_subtree_fuel n nd = Ok () \<longleftrightarrow> addressing_ok t" "returns (validate_subtree_fuel n nd)"
proof -
  have "(validate_subtree_fuel n nd = Ok () \<longleftrightarrow> addressing_ok t) \<and> returns (validate_subtree_fuel n nd)"
    using assms
  proof (induction n arbitrary: nd t)
    case (Suc n)
    obtain name ps ks where t: "t = DNode name ps ks" by (cases t)
    from validate_node_eq(2) [OF Suc.prems(1)] show ?case
    proof (cases rule: returnsE)
      case (Err e)
      with validate_node_eq(1) [OF Suc.prems(1)] show ?thesis by (auto simp: t dt_local_ok_def)
    next
      case (Ok a)
      with validate_node_eq(1) [OF Suc.prems(1)] obtain ca where unit: "unit_address_has_reg t"
        and ca: "dt_addressing t = Some ca" by auto
      let ?f = "\<lambda>child. bind_res (validate_reg child ca) (\<lambda>_. validate_subtree_fuel n child)"
      obtain ns where ns: "yields (children_next :: (_, _, SemanticError) iter_next) (node_children nd) ns"
          "list_all2 (node_rep st) ns ks"
        using node_children_yields [OF Suc.prems(1)] t by auto
      have each: "(?f x = Ok () \<longleftrightarrow> reg_ok ca k \<and> addressing_ok k) \<and> returns (?f x)"
        if "node_rep st x k" "k \<in> set ks" for x k
        using Suc.IH [OF that(1)] Suc.prems(2) that(2) validate_reg_eq [OF that(1), of ca] t
        by (auto simp: res_simps intro!: returns_bind)
      have "validate_subtree_fuel (Suc n) nd = for_each ch_measure children_next ?f (node_children nd)"
        using Ok by (simp add: child_addressing_eq [OF Suc.prems(1) ca])
      moreover have "(\<forall>x\<in>set ns. ?f x = Ok ()) \<longleftrightarrow> (\<forall>k\<in>set ks. reg_ok ca k \<and> addressing_ok k)"
        by (rule list_all2_Ball [OF ns(2)]) (rule conjunct1 [OF each])
      moreover have "(\<forall>x\<in>set ns. returns (?f x))"
        using list_all2_Ball [OF ns(2), of "\<lambda>x. returns (?f x)" "\<lambda>_. True"] conjunct2 [OF each] by blast
      ultimately show ?thesis
        using ch.for_each_yields [OF ns(1), of ?f] unit ca by (auto simp: t dt_local_ok_def)
    qed
  qed simp
  then show "validate_subtree_fuel n nd = Ok () \<longleftrightarrow> addressing_ok t" "returns (validate_subtree_fuel n nd)" by auto
qed

lemma addressing_validate_eq:
  assumes "node_rep st nd t"
  shows "addressing_validate nd = Ok () \<longleftrightarrow> addressing_ok t" "returns (addressing_validate nd)"
  using validate_subtree_fuel_eq [OF assms node_rep_depth [OF assms]]
  by (simp_all add: addressing_validate_def validate_subtree_def del: validate_subtree_fuel.simps)

lemma addressing_ok_cells: "addressing_ok t \<Longrightarrow> \<exists>ca. dt_addressing t = Some ca"
  by (cases t) (auto simp: dt_local_ok_def split: option.splits)

end
