(* ===== verification/Reg_Range.thy ===== *)
theory Reg_Range
  imports Addressing
begin

text \<open>
  Address-size ranges of a \<open>reg\<close> property, \<open>fdt/src/structure/semantic/reg_range.rs\<close>: the
  overflow-checked decoding of cells, the validation of all entries, and the iterator that decodes
  them again and panics where they are not representable.  \<open>reg_entries\<close> is the specification:
  the list of entries as numbers.
\<close>

section \<open>Model\<close>

definition CELL_RADIX :: u64 where
  "CELL_RADIX = 0x100000000"

datatype RegRangeError = Empty | AddressDoesNotFitU64 | SizeDoesNotFitU64 | ZeroSize | EndOverflow

record reg_range =
  rr_address :: u64
  rr_size :: u64

record reg_ranges =
  rgs_bytes :: bytes
  rgs_layout :: reg_layout

text \<open>\<open>as_chunks::<4>\<close>: the whole cells and the remainder.\<close>

fun chunks4 :: "bytes \<Rightarrow> bytes list \<times> bytes" where
  "chunks4 (a # b # c # d # rest) = (case chunks4 rest of (cells, rem) \<Rightarrow> ([a, b, c, d] # cells, rem))"
| "chunks4 rest = ([], rest)"

definition decode_step :: "u64 option \<Rightarrow> bytes \<Rightarrow> u64 option" where
  "decode_step value cell =
     (case value of
        None \<Rightarrow> None
      | Some v \<Rightarrow>
          (case checked_mul v CELL_RADIX of
             None \<Rightarrow> None
           | Some v' \<Rightarrow> checked_add v' (ucast (u32_from_be_bytes cell))))"

definition decode_cells_u64 :: "bytes \<Rightarrow> u64 option" where
  "decode_cells_u64 bs = (
     let (cells, remainder) = chunks4 bs in
     if remainder \<noteq> [] then None else foldl decode_step (Some 0) cells)"

definition decode_validated_cells_u64 :: "bytes \<Rightarrow> (u64, 'e) res" where
  "decode_validated_cells_u64 bs = expect_some (decode_cells_u64 bs)"

text \<open>\<open>slice::split_at\<close> panics past the end; \<open>chunks_exact\<close> panics for width zero.\<close>

definition split_at :: "'a list \<Rightarrow> usize \<Rightarrow> ('a list \<times> 'a list, 'e) res" where
  "split_at xs mid = (if mid \<le> length xs then Ok (take mid xs, drop mid xs) else Panic)"

function chunks_exact_list :: "nat \<Rightarrow> 'a list \<Rightarrow> 'a list list" where
  "chunks_exact_list n xs =
     (if n = 0 \<or> length xs < n then [] else take n xs # chunks_exact_list n (drop n xs))"
  by auto
termination by (relation "measure (\<lambda>(n, xs). length xs)") auto

declare chunks_exact_list.simps [simp del]

definition chunks_exact :: "'a list \<Rightarrow> nat \<Rightarrow> ('a list list, 'e) res" where
  "chunks_exact xs n = (if n = 0 then Panic else Ok (chunks_exact_list n xs))"

definition reg_range_entry :: "reg_layout \<Rightarrow> bytes \<Rightarrow> (unit, RegRangeError) res" where
  "reg_range_entry layout entry =
     bind_res (split_at entry (rl_address_size layout)) (\<lambda>(address, sz).
     bind_res (ok_or AddressDoesNotFitU64 (decode_cells_u64 address)) (\<lambda>address.
     bind_res (ok_or SizeDoesNotFitU64 (decode_cells_u64 sz)) (\<lambda>sz.
     if sz = 0 then Err ZeroSize else
     if checked_add address sz = None then Err EndOverflow else Ok ())))"

fun reg_range_entries :: "reg_layout \<Rightarrow> bytes list \<Rightarrow> (unit, RegRangeError) res" where
  "reg_range_entries layout [] = Ok ()"
| "reg_range_entries layout (entry # entries) =
     bind_res (reg_range_entry layout entry) (\<lambda>_. reg_range_entries layout entries)"

definition reg_range_validate :: "bytes \<Rightarrow> reg_layout \<Rightarrow> (unit, RegRangeError) res" where
  "reg_range_validate bs layout =
     (if bs = [] then Err Empty else
      bind_res (chunks_exact bs (rl_entry_size layout)) (\<lambda>entries. reg_range_entries layout entries))"

definition reg_ranges_new :: "bytes \<Rightarrow> reg_layout \<Rightarrow> reg_ranges" where
  "reg_ranges_new bs layout = \<lparr>rgs_bytes = bs, rgs_layout = layout\<rparr>"

definition reg_ranges_next :: "(reg_ranges, reg_range, 'e) iter_next" where
  "reg_ranges_next it =
     (if rgs_bytes it = [] then Ok (None, it) else
      bind_res (split_at (rgs_bytes it) (rl_entry_size (rgs_layout it))) (\<lambda>(entry, remaining).
      bind_res (split_at entry (rl_address_size (rgs_layout it))) (\<lambda>(address, sz).
      bind_res (decode_validated_cells_u64 address) (\<lambda>address.
      bind_res (decode_validated_cells_u64 sz) (\<lambda>sz.
      Ok (Some \<lparr>rr_address = address, rr_size = sz\<rparr>, it\<lparr>rgs_bytes := remaining\<rparr>))))))"

section \<open>Decoding cells\<close>

lemma be_value_append: "be_value (xs @ ys) = be_value xs * 256 ^ length ys + be_value ys"
proof (induction ys rule: rev_induct)
  case Nil
  show ?case by (simp add: be_value_def)
next
  case (snoc y ys)
  have "be_value (xs @ ys @ [y]) = be_value (xs @ ys) * 256 + unat y"
    using be_value_snoc [of "xs @ ys"] by simp
  with snoc show ?case by (simp add: be_value_snoc algebra_simps)
qed

lemma chunks4_concat: "chunks4 bs = (cells, rem) \<Longrightarrow>
    bs = concat cells @ rem \<and> (\<forall>c\<in>set cells. length c = 4) \<and> length rem < 4"
  by (induction bs arbitrary: cells rem rule: chunks4.induct) (auto split: prod.splits)

lemma length_concat_cells: "\<forall>c\<in>set cells. length c = 4 \<Longrightarrow> length (concat cells) = 4 * length cells"
  by (induction cells) auto

lemma decode_step_eq:
  assumes "length c = 4"
  shows "decode_step (Some v) c =
    (let m = unat v * 2 ^ 32 + be_value c in if m < 2 ^ 64 then Some (word_of_nat m) else None)"
proof -
  have c: "unat (ucast (u32_from_be_bytes c) :: u64) = be_value c"
    using be_value_lt [of c] assms
    by (simp add: unsigned_ucast_eq unat_u32_from_be_bytes take_bit_nat_eq_self)
  have r: "unat CELL_RADIX = 2 ^ 32" by (simp add: CELL_RADIX_def)
  show ?thesis
  proof (cases "unat v * 2 ^ 32 < 2 ^ 64")
    case True
    then have "unat (v * CELL_RADIX) = unat v * 2 ^ 32" by (simp add: unat_word_ariths r)
    moreover have "v * CELL_RADIX + ucast (u32_from_be_bytes c) = word_of_nat (unat v * 2 ^ 32 + be_value c)"
      using c by (simp add: CELL_RADIX_def) (metis of_nat_unat ucast_id)
    ultimately show ?thesis
      using True c by (simp add: decode_step_def checked_mul_def checked_add_def r Let_def)
  qed (simp add: decode_step_def checked_mul_def r Let_def)
qed

text \<open>The overflow checks fail exactly when the number the cells spell does not fit.\<close>

lemma decode_step_None: "foldl decode_step None cells = None"
  by (induction cells) (auto simp: decode_step_def)

lemma decode_step_fold:
  assumes "\<forall>c\<in>set cells. length c = 4"
  shows "foldl decode_step (Some v) cells =
    (let n = unat v * 256 ^ (4 * length cells) + be_value (concat cells) in
     if n < 2 ^ 64 then Some (word_of_nat n) else None)"
  using assms
proof (induction cells arbitrary: v)
  case Nil
  then show ?case using unat_lt2p [of v] by (simp add: be_value_def)
next
  case (Cons c cells)
  define m where "m = unat v * 2 ^ 32 + be_value c"
  have len: "length (concat cells) = 4 * length cells" using Cons.prems by (simp add: length_concat_cells)
  have n: "unat v * 256 ^ (4 * length (c # cells)) + be_value (concat (c # cells)) =
      m * 256 ^ (4 * length cells) + be_value (concat cells)"
    by (simp add: be_value_append len m_def algebra_simps power_add)
  have step: "decode_step (Some v) c = (if m < 2 ^ 64 then Some (word_of_nat m) else None)"
    using Cons.prems decode_step_eq [of c v] by (simp add: m_def Let_def)
  show ?case
  proof (cases "m < 2 ^ 64")
    case True
    then have "unat (word_of_nat m :: u64) = m" by (simp add: unat_of_nat)
    with True step Cons show ?thesis unfolding n by simp
  next
    case False
    have "m * 1 \<le> m * 256 ^ (4 * length cells)" by (rule mult_le_mono2) simp
    with False have "\<not> m * 256 ^ (4 * length cells) + be_value (concat cells) < 2 ^ 64" by linarith
    with False step show ?thesis unfolding n by (simp add: decode_step_None Let_def)
  qed
qed

lemma decode_cells_u64_eq:
  "decode_cells_u64 bs =
     (if 4 dvd length bs \<and> be_value bs < 2 ^ 64 then Some (word_of_nat (be_value bs)) else None)"
proof -
  obtain cells rem where c: "chunks4 bs = (cells, rem)" by (cases "chunks4 bs")
  from chunks4_concat [OF c] have bs: "bs = concat cells @ rem" "length rem < 4"
    and len: "\<forall>c\<in>set cells. length c = 4" by auto
  have "4 dvd length bs \<longleftrightarrow> rem = []"
    using bs(2) by (subst bs(1)) (auto simp: length_concat_cells [OF len] dvd_add_right_iff dest: dvd_imp_le)
  with c bs decode_step_fold [OF len, of 0] show ?thesis
    by (auto simp: decode_cells_u64_def Let_def)
qed

section \<open>Entries as numbers\<close>

definition layout_ok :: "reg_layout \<Rightarrow> bool" where
  "layout_ok l \<longleftrightarrow> 0 < rl_entry_size l \<and> rl_address_size l \<le> rl_entry_size l \<and>
     4 dvd rl_address_size l \<and> 4 dvd rl_entry_size l"

definition entry_range :: "reg_layout \<Rightarrow> bytes \<Rightarrow> nat \<times> nat" where
  "entry_range l entry = (be_value (take (rl_address_size l) entry), be_value (drop (rl_address_size l) entry))"

definition reg_entries :: "reg_layout \<Rightarrow> bytes \<Rightarrow> (nat \<times> nat) list" where
  "reg_entries l bs = map (entry_range l) (chunks_exact_list (rl_entry_size l) bs)"

text \<open>A range the parser can represent: not empty, with an exclusive end that fits.\<close>

definition range_ok :: "nat \<times> nat \<Rightarrow> bool" where
  "range_ok = (\<lambda>(a, s). 0 < s \<and> a + s < 2 ^ 64)"

definition reg_range_of :: "nat \<times> nat \<Rightarrow> reg_range" where
  "reg_range_of = (\<lambda>(a, s). \<lparr>rr_address = word_of_nat a, rr_size = word_of_nat s\<rparr>)"

lemma layout_of_ok:
  assumes "address_cells_get (ca_address_cells ca) \<noteq> 0"
  shows "layout_ok (layout_of ca)"
proof -
  have "0 < unat (address_cells_get (ca_address_cells ca))" using assms by (simp add: unat_gt_0)
  then show ?thesis by (simp add: layout_ok_def layout_of_def)
qed

lemma chunks_exact_length: "e \<in> set (chunks_exact_list n xs) \<Longrightarrow> length e = n"
  by (induction n xs rule: chunks_exact_list.induct) (subst (asm) chunks_exact_list.simps, auto split: if_splits)

lemma reg_range_entry_eq:
  assumes "layout_ok l" "length e = rl_entry_size l"
  shows "reg_range_entry l e = Ok () \<longleftrightarrow> range_ok (entry_range l e)" "returns (reg_range_entry l e)"
proof -
  let ?a = "take (rl_address_size l) e" and ?s = "drop (rl_address_size l) e"
  have len: "rl_address_size l \<le> length e" "4 dvd length ?a" "4 dvd length ?s"
    using assms by (auto simp: layout_ok_def)
  have "\<lbrakk>be_value ?a < 2 ^ 64; be_value ?s < 2 ^ 64\<rbrakk> \<Longrightarrow>
      checked_add (word_of_nat (be_value ?a) :: u64) (word_of_nat (be_value ?s)) = None \<longleftrightarrow>
        2 ^ 64 \<le> be_value ?a + be_value ?s"
    and "be_value ?s < 2 ^ 64 \<Longrightarrow> (word_of_nat (be_value ?s) :: u64) = 0 \<longleftrightarrow> be_value ?s = 0"
    by (simp_all add: checked_add_None unat_of_nat word_unat_eq_iff)
  with len show "reg_range_entry l e = Ok () \<longleftrightarrow> range_ok (entry_range l e)"
    by (auto simp: reg_range_entry_def split_at_def decode_cells_u64_eq range_ok_def entry_range_def)
  show "returns (reg_range_entry l e)"
    using len by (auto simp: reg_range_entry_def split_at_def intro!: returns_bind)
qed

lemma reg_range_entries_eq:
  assumes "layout_ok l" "\<forall>e\<in>set es. length e = rl_entry_size l"
  shows "reg_range_entries l es = Ok () \<longleftrightarrow> (\<forall>e\<in>set es. range_ok (entry_range l e))"
    and "returns (reg_range_entries l es)"
  using assms(2) by (induction es) (auto simp: res_simps reg_range_entry_eq [OF assms(1)] intro!: returns_bind)

lemma reg_range_validate_eq:
  assumes "layout_ok l"
  shows "reg_range_validate bs l = Ok () \<longleftrightarrow> bs \<noteq> [] \<and> (\<forall>r\<in>set (reg_entries l bs). range_ok r)"
    and "returns (reg_range_validate bs l)"
  using assms reg_range_entries_eq [OF assms, of "chunks_exact_list (rl_entry_size l) bs"]
    chunks_exact_length [of _ "rl_entry_size l" bs]
  by (auto simp: reg_range_validate_def chunks_exact_def layout_ok_def reg_entries_def)

section \<open>The iterator over a validated property\<close>

lemma reg_ranges_next_entry:
  assumes "layout_ok l" "rl_entry_size l \<le> length bs" "bs \<noteq> []" "range_ok (entry_range l (take (rl_entry_size l) bs))"
  shows "reg_ranges_next (reg_ranges_new bs l) =
    Ok (Some (reg_range_of (entry_range l (take (rl_entry_size l) bs))), reg_ranges_new (drop (rl_entry_size l) bs) l)"
proof -
  let ?e = "take (rl_entry_size l) bs"
  have len: "length ?e = rl_entry_size l" using assms by simp
  have "rl_address_size l \<le> length ?e" "4 dvd length (take (rl_address_size l) ?e)"
      "4 dvd length (drop (rl_address_size l) ?e)"
    using assms(1) unfolding length_take [of "rl_address_size l"] length_drop len by (auto simp: layout_ok_def)
  with assms show ?thesis
    by (auto simp: reg_ranges_next_def reg_ranges_new_def split_at_def decode_validated_cells_u64_def
        decode_cells_u64_eq range_ok_def entry_range_def reg_range_of_def split: if_splits)
qed

lemma reg_ranges_yields:
  assumes "layout_ok l" "rl_entry_size l dvd length bs" "\<forall>r\<in>set (reg_entries l bs). range_ok r"
  shows "yields (reg_ranges_next :: (_, _, 'e) iter_next) (reg_ranges_new bs l) (map reg_range_of (reg_entries l bs))"
  using assms(2,3)
proof (induction "length bs" arbitrary: bs rule: less_induct)
  case less
  let ?n = "rl_entry_size l"
  have n: "0 < ?n" using assms(1) by (simp add: layout_ok_def)
  show ?case
  proof (cases "bs = []")
    case True
    with n show ?thesis
      by (auto simp: reg_entries_def chunks_exact_list.simps [of _ "[]"] reg_ranges_next_def reg_ranges_new_def
          intro: yields_done)
  next
    case False
    with less.prems(1) have le: "?n \<le> length bs" by (simp add: dvd_imp_le)
    then have es: "reg_entries l bs = entry_range l (take ?n bs) # reg_entries l (drop ?n bs)"
      using n by (simp add: reg_entries_def chunks_exact_list.simps [of _ bs])
    have "yields (reg_ranges_next :: (_, _, 'e) iter_next) (reg_ranges_new (drop ?n bs) l)
        (map reg_range_of (reg_entries l (drop ?n bs)))"
      using less.hyps [of "drop ?n bs"] less.prems n le es False by (simp add: dvd_minus_self)
    with reg_ranges_next_entry [OF assms(1) le False] less.prems(2) es show ?thesis
      by (auto intro: yields_more)
  qed
qed

lemma reg_range_of_unat:
  assumes "range_ok r"
  shows "unat (rr_address (reg_range_of r)) = fst r" "unat (rr_size (reg_range_of r)) = snd r"
  using assms by (auto simp: range_ok_def reg_range_of_def unat_of_nat)

end
