(* ===== verification/Memory_Nodes.thy ===== *)
theory Memory_Nodes
  imports Reg_Range
begin

text \<open>
  The root's \<open>/memory\<close> nodes, \<open>fdt/src/structure/semantic/memory.rs\<close>: their validation and
  the iterator that flattens their ranges.
\<close>

section \<open>Model\<close>

definition MEMORY_NODE_NAME :: bytes where
  "MEMORY_NODE_NAME = ascii ''memory''"

definition DEVICE_TYPE_PROPERTY :: bytes where
  "DEVICE_TYPE_PROPERTY = ascii ''device_type''"

definition REG_PROPERTY :: bytes where
  "REG_PROPERTY = ascii ''reg''"

record memory_range =
  mmr_address :: u64
  mmr_size :: u64

record memory_ranges =
  mgs_nodes :: children
  mgs_current :: "reg_ranges option"
  mgs_layout :: reg_layout

fun memory_reg_error :: "RegRangeError \<Rightarrow> SemanticError" where
  "memory_reg_error Empty = EmptyMemoryReg"
| "memory_reg_error AddressDoesNotFitU64 = MemoryAddressDoesNotFitU64"
| "memory_reg_error SizeDoesNotFitU64 = MemorySizeDoesNotFitU64"
| "memory_reg_error ZeroSize = ZeroMemorySize"
| "memory_reg_error EndOverflow = MemoryRangeEndOverflow"

definition validate_memory_reg :: "bytes \<Rightarrow> reg_layout \<Rightarrow> (unit, SemanticError) res" where
  "validate_memory_reg bs layout = map_err memory_reg_error (reg_range_validate bs layout)"

definition validate_memory_node :: "node \<Rightarrow> reg_layout \<Rightarrow> (unit, SemanticError) res" where
  "validate_memory_node nd layout = bind_res (node_property nd DEVICE_TYPE_PROPERTY) (\<lambda>p.
     case p of
       None \<Rightarrow> Err MissingMemoryDeviceType
     | Some device_type \<Rightarrow>
         if prop_value device_type \<noteq> ascii ''memory'' @ [0] then Err InvalidMemoryDeviceType else
         bind_res (node_property nd REG_PROPERTY) (\<lambda>q.
         case q of
           None \<Rightarrow> Err MissingMemoryReg
         | Some reg \<Rightarrow> validate_memory_reg (prop_value reg) layout))"

definition memory_validate :: "node \<Rightarrow> (unit, SemanticError) res" where
  "memory_validate root =
     bind_res (child_addressing root) (\<lambda>addressing.
     if address_cells_get (ca_address_cells addressing) = 0 then Err InvalidMemoryAddressCells else
     if size_cells_get (ca_size_cells addressing) = 0 then Err InvalidMemorySizeCells else
     bind_res (reg_layout_new addressing) (\<lambda>layout.
     for_each ch_measure children_next (\<lambda>nd.
         if node_name_component nd = MEMORY_NODE_NAME then validate_memory_node nd layout else Ok ())
       (node_children root)))"

definition memory_ranges_new :: "node \<Rightarrow> (memory_ranges, 'e) res" where
  "memory_ranges_new root =
     bind_res (child_addressing root) (\<lambda>addressing.
     bind_res (expect (reg_layout_new addressing)) (\<lambda>layout.
     Ok \<lparr>mgs_nodes = node_children root, mgs_current = None, mgs_layout = layout\<rparr>))"

definition memory_ranges_step ::
    "memory_ranges \<Rightarrow> ((memory_ranges, memory_range option \<times> memory_ranges) flow, 'e) res" where
  "memory_ranges_step it =
     bind_res (case mgs_current it of
         None \<Rightarrow> Ok None
       | Some ranges \<Rightarrow> bind_res (reg_ranges_next ranges) (\<lambda>(item, ranges').
           Ok (map_option (\<lambda>rng. (rng, ranges')) item))) (\<lambda>got.
     case got of
       Some (rng, ranges') \<Rightarrow>
         Ok (Break (Some \<lparr>mmr_address = rr_address rng, mmr_size = rr_size rng\<rparr>,
                    it\<lparr>mgs_current := Some ranges'\<rparr>))
     | None \<Rightarrow>
         bind_res (iter_find ch_measure children_next (\<lambda>nd. node_name_component nd = MEMORY_NODE_NAME) (mgs_nodes it))
           (\<lambda>(found, nodes').
         case found of
           None \<Rightarrow> Ok (Break (None, it\<lparr>mgs_nodes := nodes', mgs_current := None\<rparr>))
         | Some nd \<Rightarrow>
             bind_res (bind_res (node_property nd REG_PROPERTY) expect_some) (\<lambda>reg.
             Ok (Continue (it\<lparr>mgs_nodes := nodes',
                   mgs_current := Some (reg_ranges_new (prop_value reg) (mgs_layout it))\<rparr>)))))"

definition memory_ranges_next :: "(memory_ranges, memory_range, 'e) iter_next" where
  "memory_ranges_next it = run (\<lambda>it. ch_measure (mgs_nodes it)) memory_ranges_step it"

interpretation memory_loop: decreasing_loop "\<lambda>it. ch_measure (mgs_nodes it)" memory_ranges_step
  by unfold_locales
    (auto simp: memory_ranges_step_def bind_res_def dest!: ch.iter_find_decreases
      split: res.splits option.splits)

section \<open>The memory of a tree\<close>

definition is_memory :: "dtree \<Rightarrow> bool" where
  "is_memory t \<longleftrightarrow> component (dt_name t) = MEMORY_NODE_NAME"

definition memory_node_ok :: "reg_layout \<Rightarrow> dtree \<Rightarrow> bool" where
  "memory_node_ok l t \<longleftrightarrow>
     dt_prop t DEVICE_TYPE_PROPERTY = Some (ascii ''memory'' @ [0]) \<and>
     (case dt_prop t REG_PROPERTY of
        None \<Rightarrow> False
      | Some v \<Rightarrow> v \<noteq> [] \<and> (\<forall>r\<in>set (reg_entries l v). range_ok r))"

definition cells_nonzero :: "child_addressing \<Rightarrow> bool" where
  "cells_nonzero ca \<longleftrightarrow> address_cells_get (ca_address_cells ca) \<noteq> 0 \<and> size_cells_get (ca_size_cells ca) \<noteq> 0"

definition memory_ok :: "dtree \<Rightarrow> bool" where
  "memory_ok t \<longleftrightarrow>
     (case dt_addressing t of
        None \<Rightarrow> False
      | Some ca \<Rightarrow> cells_nonzero ca \<and>
          (\<forall>k\<in>set (dt_kids t). is_memory k \<longrightarrow> memory_node_ok (layout_of ca) k))"

definition dt_reg_entries :: "reg_layout \<Rightarrow> dtree \<Rightarrow> (nat \<times> nat) list" where
  "dt_reg_entries l t = (case dt_prop t REG_PROPERTY of None \<Rightarrow> [] | Some v \<Rightarrow> reg_entries l v)"

definition dt_memory :: "dtree \<Rightarrow> (nat \<times> nat) list" where
  "dt_memory t =
     (case dt_addressing t of
        None \<Rightarrow> []
      | Some ca \<Rightarrow> concat (map (dt_reg_entries (layout_of ca)) (filter is_memory (dt_kids t))))"

definition memory_range_of :: "nat \<times> nat \<Rightarrow> memory_range" where
  "memory_range_of = (\<lambda>(a, s). \<lparr>mmr_address = word_of_nat a, mmr_size = word_of_nat s\<rparr>)"

section \<open>Validation\<close>

lemma validate_memory_node_eq:
  assumes "node_rep st nd t" "layout_ok l"
  shows "validate_memory_node nd l = Ok () \<longleftrightarrow> memory_node_ok l t" "returns (validate_memory_node nd l)"
  by (auto simp: validate_memory_node_def validate_memory_reg_def node_property_eq [OF assms(1)]
      reg_range_validate_eq [OF assms(2)] memory_node_ok_def dt_prop_def split: option.split)

lemma memory_validate_eq:
  assumes "node_rep st nd t" "dt_addressing t = Some ca"
  shows "memory_validate nd = Ok () \<longleftrightarrow> memory_ok t" "returns (memory_validate nd)"
proof -
  let ?f = "\<lambda>nd. if node_name_component nd = MEMORY_NODE_NAME then validate_memory_node nd (layout_of ca) else Ok ()"
  obtain ns where ns: "yields (children_next :: (_, _, SemanticError) iter_next) (node_children nd) ns"
      "list_all2 (node_rep st) ns (dt_kids t)"
    using node_children_yields [OF assms(1)] by blast
  have each: "(?f x = Ok () \<longleftrightarrow> (is_memory k \<longrightarrow> memory_node_ok (layout_of ca) k)) \<and> returns (?f x)"
    if "cells_nonzero ca" "node_rep st x k" for x k
    using validate_memory_node_eq [OF that(2) layout_of_ok] that
    by (auto simp: node_name_component_def is_memory_def node_rep_def cells_nonzero_def)
  have "(\<forall>x\<in>set ns. ?f x = Ok ()) \<longleftrightarrow> (\<forall>k\<in>set (dt_kids t). is_memory k \<longrightarrow> memory_node_ok (layout_of ca) k)"
    if "cells_nonzero ca"
    by (rule list_all2_Ball [OF ns(2)]) (rule conjunct1 [OF each [OF that]])
  moreover have "\<forall>x\<in>set ns. returns (?f x)" if "cells_nonzero ca"
    using list_all2_Ball [OF ns(2), of "\<lambda>x. returns (?f x)" "\<lambda>_. True"] conjunct2 [OF each [OF that]] by blast
  ultimately show "memory_validate nd = Ok () \<longleftrightarrow> memory_ok t" "returns (memory_validate nd)"
    using ch.for_each_yields [OF ns(1), of ?f] assms(2)
    by (auto simp: memory_validate_def child_addressing_eq [OF assms] reg_layout_new_eq memory_ok_def cells_nonzero_def)
qed

section \<open>The iterator after validation\<close>

definition memory_at :: "children \<Rightarrow> reg_ranges option \<Rightarrow> reg_layout \<Rightarrow> memory_ranges" where
  "memory_at nodes current l = \<lparr>mgs_nodes = nodes, mgs_current = current, mgs_layout = l\<rparr>"

definition memory_range_from :: "reg_range \<Rightarrow> memory_range" where
  "memory_range_from r = \<lparr>mmr_address = rr_address r, mmr_size = rr_size r\<rparr>"

lemma memory_range_from_of: "memory_range_from (reg_range_of r) = memory_range_of r"
  by (cases r) (simp add: memory_range_from_def reg_range_of_def memory_range_of_def)

lemma memory_ranges_next_unfold:
  "memory_ranges_next it =
     bind_res (memory_ranges_step it) (\<lambda>f. case f of Continue it' \<Rightarrow> memory_ranges_next it' | Break b \<Rightarrow> Ok b)"
  unfolding memory_ranges_next_def by (rule memory_loop.run_unfold)

lemmas memory_step_defs = memory_ranges_step_def memory_at_def memory_range_from_def

lemma memory_next_current:
  assumes "(reg_ranges_next rs :: (_, 'e) res) = Ok (x, rs')"
  shows "x = Some r \<Longrightarrow> (memory_ranges_next (memory_at nodes (Some rs) l) :: (_, 'e) res) =
      Ok (Some (memory_range_from r), memory_at nodes (Some rs') l)"
    and "x = None \<Longrightarrow> (memory_ranges_next (memory_at nodes (Some rs) l) :: (_, 'e) res) =
      memory_ranges_next (memory_at nodes None l)"
  subgoal using assms by (subst memory_ranges_next_unfold) (simp add: memory_step_defs)
  subgoal using assms by (subst (1 2) memory_ranges_next_unfold) (simp add: memory_step_defs cong: option.case_cong)
  done

lemma memory_yields_current:
  assumes "yields (reg_ranges_next :: (_, _, 'e) iter_next) rs xs"
    and "yields (memory_ranges_next :: (_, _, 'e) iter_next) (memory_at nodes None l) ys"
  shows "yields (memory_ranges_next :: (_, _, 'e) iter_next) (memory_at nodes (Some rs) l)
    (map memory_range_from xs @ ys)"
  using assms(1)
proof (induction rule: yields.induct)
  case (yields_done rs rs')
  then show ?case using assms(2) yields_next_eq [OF memory_next_current(2) [OF yields_done(1) refl]] by simp
next
  case (yields_more rs x rs' xs)
  then show ?case using memory_next_current(1) [OF yields_more.hyps(1) refl] by (auto intro: yields.yields_more)
qed

lemma memory_next_nodes_done:
  assumes "(children_next nodes :: (_, 'e) res) = Ok (None, nodes')"
  shows "(memory_ranges_next (memory_at nodes None l) :: (_, 'e) res) = Ok (None, memory_at nodes' None l)"
proof -
  have "(iter_find ch_measure children_next (\<lambda>nd. node_name_component nd = MEMORY_NODE_NAME) nodes :: (_, 'e) res) =
      Ok (None, nodes')"
    using assms by (subst ch.iter_find_unfold) simp
  then show ?thesis by (subst memory_ranges_next_unfold) (simp add: memory_step_defs)
qed

lemma memory_next_nodes:
  assumes "(children_next nodes :: (_, 'e) res) = Ok (x, nodes')"
  shows "x = Some nd \<Longrightarrow> node_name_component nd \<noteq> MEMORY_NODE_NAME \<Longrightarrow>
      (memory_ranges_next (memory_at nodes None l) :: (_, 'e) res) = memory_ranges_next (memory_at nodes' None l)"
    and "x = Some nd \<Longrightarrow> node_name_component nd = MEMORY_NODE_NAME \<Longrightarrow>
      (node_property nd REG_PROPERTY :: (_, 'e) res) = Ok (Some reg) \<Longrightarrow>
      (memory_ranges_next (memory_at nodes None l) :: (_, 'e) res) =
        memory_ranges_next (memory_at nodes' (Some (reg_ranges_new (prop_value reg) l)) l)"
proof -
  let ?find = "\<lambda>nodes. iter_find ch_measure children_next (\<lambda>nd. node_name_component nd = MEMORY_NODE_NAME) nodes :: (_, 'e) res"
  show "(memory_ranges_next (memory_at nodes None l) :: (_, 'e) res) = memory_ranges_next (memory_at nodes' None l)"
    if "x = Some nd" "node_name_component nd \<noteq> MEMORY_NODE_NAME"
  proof -
    have "?find nodes = ?find nodes'" using assms that by (subst ch.iter_find_unfold) simp
    then show ?thesis by (subst (1 2) memory_ranges_next_unfold) (simp add: memory_step_defs cong: option.case_cong)
  qed
  show "(memory_ranges_next (memory_at nodes None l) :: (_, 'e) res) =
        memory_ranges_next (memory_at nodes' (Some (reg_ranges_new (prop_value reg) l)) l)"
    if "x = Some nd" "node_name_component nd = MEMORY_NODE_NAME" "(node_property nd REG_PROPERTY :: (_, 'e) res) = Ok (Some reg)"
  proof -
    have "?find nodes = Ok (Some nd, nodes')" using assms that by (subst ch.iter_find_unfold) simp
    with that show ?thesis by (subst memory_ranges_next_unfold) (simp add: memory_step_defs)
  qed
qed

lemma memory_yields_nodes:
  assumes "yields (children_next :: (_, _, 'e) iter_next) nodes ns" "list_all2 (node_rep st) ns ks" "layout_ok l"
    and "\<forall>k\<in>set ks. is_memory k \<longrightarrow> memory_node_ok l k" "\<forall>k\<in>set ks. is_memory k \<longrightarrow> (\<forall>v. dt_prop k REG_PROPERTY = Some v \<longrightarrow> rl_entry_size l dvd length v)"
  shows "yields (memory_ranges_next :: (_, _, 'e) iter_next) (memory_at nodes None l)
    (map memory_range_of (concat (map (dt_reg_entries l) (filter is_memory ks))))"
  using assms(1,2,4,5)
proof (induction arbitrary: ks rule: yields.induct)
  case (yields_done nodes nodes')
  then show ?case
    using memory_next_nodes_done [OF yields_done(1)] memory_next_nodes_done [OF yields_done(2)]
    by (auto intro: yields.yields_done)
next
  case (yields_more nodes nd nodes' ns)
  from yields_more.prems(1) obtain k ks' where ks: "ks = k # ks'" "node_rep st nd k" "list_all2 (node_rep st) ns ks'"
    by (auto simp: list_all2_Cons1)
  have rest: "yields (memory_ranges_next :: (_, _, 'e) iter_next) (memory_at nodes' None l)
      (map memory_range_of (concat (map (dt_reg_entries l) (filter is_memory ks'))))"
    using yields_more.IH [OF ks(3)] yields_more.prems(2,3) ks(1) by simp
  have name: "is_memory k \<longleftrightarrow> node_name_component nd = MEMORY_NODE_NAME"
    using ks(2) by (simp add: is_memory_def node_name_component_def node_rep_def)
  show ?case
  proof (cases "is_memory k")
    case False
    with rest name ks(1) yields_next_eq [OF memory_next_nodes(1) [OF yields_more.hyps(1) refl]] show ?thesis by simp
  next
    case True
    then obtain v where v: "dt_prop k REG_PROPERTY = Some v" "\<forall>r\<in>set (reg_entries l v). range_ok r"
        "rl_entry_size l dvd length v"
      using yields_more.prems(2,3) ks(1) by (auto simp: memory_node_ok_def split: option.splits)
    have reg: "(node_property nd REG_PROPERTY :: (_, 'e) res) = Ok (Some \<lparr>prop_name = REG_PROPERTY, prop_value = v\<rparr>)"
      using v(1) by (simp add: node_property_eq [OF ks(2)] dt_prop_def)
    have "memory_range_from \<circ> reg_range_of = memory_range_of" "dt_reg_entries l k = reg_entries l v"
      using v(1) by (auto simp: memory_range_from_of dt_reg_entries_def)
    with memory_yields_current [OF reg_ranges_yields [OF assms(3) v(3,2)] rest]
      yields_next_eq [OF memory_next_nodes(2) [OF yields_more.hyps(1) refl name [THEN iffD1, OF True] reg]]
      True ks(1) show ?thesis by simp
  qed
qed

lemma memory_ranges_yields:
  assumes "node_rep st nd t" "addressing_ok t" "memory_ok t"
  shows "\<exists>it. (memory_ranges_new nd :: (_, 'e) res) = Ok it \<and>
    yields (memory_ranges_next :: (_, _, 'e) iter_next) it (map memory_range_of (dt_memory t))"
proof -
  obtain ca where ca: "dt_addressing t = Some ca" using addressing_ok_cells [OF assms(2)] by blast
  obtain ns where ns: "yields (children_next :: (_, _, 'e) iter_next) (node_children nd) ns"
      "list_all2 (node_rep st) ns (dt_kids t)"
    using node_children_yields [OF assms(1)] by blast
  have "rl_entry_size (layout_of ca) dvd length v" if "k \<in> set (dt_kids t)" "dt_prop k REG_PROPERTY = Some v" for k v
    using assms(2) ca that by (cases t) (auto simp: dt_local_ok_def reg_ok_def REG_PROPERTY_def)
  moreover have "layout_ok (layout_of ca)" "\<forall>k\<in>set (dt_kids t). is_memory k \<longrightarrow> memory_node_ok (layout_of ca) k"
    using assms(3) ca layout_of_ok by (auto simp: memory_ok_def cells_nonzero_def)
  ultimately have "yields (memory_ranges_next :: (_, _, 'e) iter_next) (memory_at (node_children nd) None (layout_of ca))
      (map memory_range_of (dt_memory t))"
    using memory_yields_nodes [OF ns] ca by (simp add: dt_memory_def)
  then show ?thesis
    by (simp add: memory_ranges_new_def child_addressing_eq [OF assms(1) ca] reg_layout_new_eq memory_at_def)
qed

lemma memory_ok_ranges:
  assumes "memory_ok t" shows "\<forall>r\<in>set (dt_memory t). range_ok r"
  using assms
  by (auto simp: memory_ok_def dt_memory_def dt_reg_entries_def memory_node_ok_def split: option.splits)

end
