(* ===== verification/Reserved_Memory.thy ===== *)
theory Reserved_Memory
  imports Memory_Nodes
begin

text \<open>
  Static regions under \<open>/reserved-memory\<close>,
  \<open>fdt/src/structure/semantic/reserved_memory.rs\<close>: their validation and the iterator over their
  ranges.
\<close>

section \<open>Model\<close>

definition RESERVED_MEMORY_NODE_NAME :: bytes where
  "RESERVED_MEMORY_NODE_NAME = ascii ''reserved-memory''"

definition RANGES_PROPERTY :: bytes where
  "RANGES_PROPERTY = ascii ''ranges''"

definition SIZE_PROPERTY :: bytes where
  "SIZE_PROPERTY = ascii ''size''"

record reserved_memory_range =
  rmr_address :: u64
  rmr_size :: u64

record reserved_memory_ranges =
  rms_nodes :: "children option"
  rms_current :: "reg_ranges option"
  rms_layout :: "reg_layout option"

definition reserved_memory_node :: "node \<Rightarrow> (node option, 'e) res" where
  "reserved_memory_node root =
     bind_res (iter_find ch_measure children_next (\<lambda>nd. nd_name nd = RESERVED_MEMORY_NODE_NAME)
         (node_children root))
       (\<lambda>(nd, _). Ok nd)"

definition validate_parent :: "node \<Rightarrow> (unit, SemanticError) res" where
  "validate_parent nd =
     bind_res (node_property nd ADDRESS_CELLS_PROPERTY) (\<lambda>address_cells.
     if address_cells = None then Err MissingReservedMemoryAddressCells else
     bind_res (node_property nd SIZE_CELLS_PROPERTY) (\<lambda>size_cells.
     if size_cells = None then Err MissingReservedMemorySizeCells else
     bind_res (node_property nd RANGES_PROPERTY) (\<lambda>p.
     case p of
       None \<Rightarrow> Err MissingReservedMemoryRanges
     | Some ranges \<Rightarrow>
         if prop_value ranges \<noteq> [] then Err NonEmptyReservedMemoryRanges else Ok ())))"

fun reserved_reg_error :: "RegRangeError \<Rightarrow> SemanticError" where
  "reserved_reg_error Empty = EmptyReservedMemoryReg"
| "reserved_reg_error AddressDoesNotFitU64 = ReservedMemoryAddressDoesNotFitU64"
| "reserved_reg_error SizeDoesNotFitU64 = ReservedMemorySizeDoesNotFitU64"
| "reserved_reg_error ZeroSize = ZeroReservedMemorySize"
| "reserved_reg_error EndOverflow = ReservedMemoryRangeEndOverflow"

definition validate_reserved_reg :: "bytes \<Rightarrow> reg_layout \<Rightarrow> (unit, SemanticError) res" where
  "validate_reserved_reg bs layout = map_err reserved_reg_error (reg_range_validate bs layout)"

definition validate_child :: "node \<Rightarrow> reg_layout \<Rightarrow> (unit, SemanticError) res" where
  "validate_child nd layout = bind_res (node_property nd REG_PROPERTY) (\<lambda>p.
     case p of
       Some reg \<Rightarrow> validate_reserved_reg (prop_value reg) layout
     | None \<Rightarrow>
         bind_res (node_property nd SIZE_PROPERTY) (\<lambda>sz.
         if sz \<noteq> None then Err UnsupportedDynamicReservedMemory
         else Err MissingReservedMemoryAllocation))"

definition reserved_memory_validate :: "node \<Rightarrow> (unit, SemanticError) res" where
  "reserved_memory_validate root = bind_res (reserved_memory_node root) (\<lambda>found.
     case found of
       None \<Rightarrow> Ok ()
     | Some reserved_memory \<Rightarrow>
         bind_res (validate_parent reserved_memory) (\<lambda>_.
         bind_res (child_addressing reserved_memory) (\<lambda>addressing.
         if address_cells_get (ca_address_cells addressing) = 0 then Err InvalidReservedMemoryAddressCells else
         if size_cells_get (ca_size_cells addressing) = 0 then Err InvalidReservedMemorySizeCells else
         bind_res (reg_layout_new addressing) (\<lambda>layout.
         for_each ch_measure children_next (\<lambda>child. validate_child child layout)
           (node_children reserved_memory)))))"

definition reserved_memory_ranges_new :: "node \<Rightarrow> (reserved_memory_ranges, 'e) res" where
  "reserved_memory_ranges_new root = bind_res (reserved_memory_node root) (\<lambda>found.
     case found of
       None \<Rightarrow> Ok \<lparr>rms_nodes = None, rms_current = None, rms_layout = None\<rparr>
     | Some reserved_memory \<Rightarrow>
         bind_res (child_addressing reserved_memory) (\<lambda>addressing.
         bind_res (expect (reg_layout_new addressing)) (\<lambda>layout.
         Ok \<lparr>rms_nodes = Some (node_children reserved_memory), rms_current = None, rms_layout = Some layout\<rparr>)))"

definition reserved_memory_ranges_step :: "reserved_memory_ranges
    \<Rightarrow> ((reserved_memory_ranges, reserved_memory_range option \<times> reserved_memory_ranges) flow, 'e) res" where
  "reserved_memory_ranges_step it =
     bind_res (case rms_current it of
         None \<Rightarrow> Ok None
       | Some ranges \<Rightarrow> bind_res (reg_ranges_next ranges) (\<lambda>(item, ranges').
           Ok (map_option (\<lambda>rng. (rng, ranges')) item))) (\<lambda>got.
     case got of
       Some (rng, ranges') \<Rightarrow>
         Ok (Break (Some \<lparr>rmr_address = rr_address rng, rmr_size = rr_size rng\<rparr>,
                    it\<lparr>rms_current := Some ranges'\<rparr>))
     | None \<Rightarrow>
         (case rms_nodes it of
           None \<Rightarrow> Ok (Break (None, it\<lparr>rms_current := None\<rparr>))
         | Some nodes \<Rightarrow>
             bind_res (children_next nodes) (\<lambda>(found, nodes').
             case found of
               None \<Rightarrow> Ok (Break (None, it\<lparr>rms_nodes := Some nodes', rms_current := None\<rparr>))
             | Some nd \<Rightarrow>
                 bind_res (bind_res (node_property nd REG_PROPERTY) expect_some) (\<lambda>reg.
                 bind_res (expect_some (rms_layout it)) (\<lambda>layout.
                 Ok (Continue (it\<lparr>rms_nodes := Some nodes',
                       rms_current := Some (reg_ranges_new (prop_value reg) layout)\<rparr>)))))))"

definition rms_measure :: "reserved_memory_ranges \<Rightarrow> nat" where
  "rms_measure it = (case rms_nodes it of None \<Rightarrow> 0 | Some nodes \<Rightarrow> ch_measure nodes)"

definition reserved_memory_ranges_next :: "(reserved_memory_ranges, reserved_memory_range, 'e) iter_next" where
  "reserved_memory_ranges_next it = run rms_measure reserved_memory_ranges_step it"

interpretation reserved_loop: decreasing_loop rms_measure reserved_memory_ranges_step
  by unfold_locales
    (auto simp: reserved_memory_ranges_step_def rms_measure_def bind_res_def dest!: children_next_measure
      split: res.splits option.splits)

section \<open>The reserved memory of a tree\<close>

definition dt_reserved_node :: "dtree \<Rightarrow> dtree option" where
  "dt_reserved_node t = List.find (\<lambda>k. dt_name k = RESERVED_MEMORY_NODE_NAME) (dt_kids t)"

definition reserved_child_ok :: "reg_layout \<Rightarrow> dtree \<Rightarrow> bool" where
  "reserved_child_ok l t \<longleftrightarrow>
     (case dt_prop t REG_PROPERTY of
        None \<Rightarrow> False
      | Some v \<Rightarrow> v \<noteq> [] \<and> (\<forall>r\<in>set (reg_entries l v). range_ok r))"

definition reserved_node_ok :: "dtree \<Rightarrow> bool" where
  "reserved_node_ok t \<longleftrightarrow>
     dt_prop t ADDRESS_CELLS_PROPERTY \<noteq> None \<and> dt_prop t SIZE_CELLS_PROPERTY \<noteq> None \<and>
     dt_prop t RANGES_PROPERTY = Some [] \<and>
     (case dt_addressing t of
        None \<Rightarrow> False
      | Some ca \<Rightarrow> cells_nonzero ca \<and> (\<forall>k\<in>set (dt_kids t). reserved_child_ok (layout_of ca) k))"

definition reserved_ok :: "dtree \<Rightarrow> bool" where
  "reserved_ok t \<longleftrightarrow> (case dt_reserved_node t of None \<Rightarrow> True | Some rm \<Rightarrow> reserved_node_ok rm)"

definition dt_reserved :: "dtree \<Rightarrow> (nat \<times> nat) list" where
  "dt_reserved t =
     (case dt_reserved_node t of
        None \<Rightarrow> []
      | Some rm \<Rightarrow>
          (case dt_addressing rm of
             None \<Rightarrow> []
           | Some ca \<Rightarrow> concat (map (dt_reg_entries (layout_of ca)) (dt_kids rm))))"

definition reserved_memory_range_of :: "nat \<times> nat \<Rightarrow> reserved_memory_range" where
  "reserved_memory_range_of = (\<lambda>(a, s). \<lparr>rmr_address = word_of_nat a, rmr_size = word_of_nat s\<rparr>)"

section \<open>Validation\<close>

lemma reserved_memory_node_eq:
  assumes "node_rep st nd t"
  shows "\<exists>c. (reserved_memory_node nd :: (_, 'e) res) = Ok c \<and> rel_option (node_rep st) c (dt_reserved_node t)"
  using node_child_eq [OF assms, of RESERVED_MEMORY_NODE_NAME]
  unfolding node_child_def reserved_memory_node_def dt_reserved_node_def .

lemma validate_parent_eq:
  assumes "node_rep st nd t"
  shows "validate_parent nd = Ok () \<longleftrightarrow>
      dt_prop t ADDRESS_CELLS_PROPERTY \<noteq> None \<and> dt_prop t SIZE_CELLS_PROPERTY \<noteq> None \<and> dt_prop t RANGES_PROPERTY = Some []"
    and "returns (validate_parent nd)"
  by (auto simp: validate_parent_def node_property_eq [OF assms] dt_prop_def split: option.split)

lemma validate_child_eq:
  assumes "node_rep st nd t" "layout_ok l"
  shows "validate_child nd l = Ok () \<longleftrightarrow> reserved_child_ok l t" "returns (validate_child nd l)"
  by (auto simp: validate_child_def validate_reserved_reg_def node_property_eq [OF assms(1)]
      reg_range_validate_eq [OF assms(2)] reserved_child_ok_def dt_prop_def split: option.split)

lemma dt_reserved_addressing:
  assumes "addressing_ok t" "dt_reserved_node t = Some rm"
  shows "addressing_ok rm"
  using assms by (cases t) (auto simp: dt_reserved_node_def find_Some_iff)

lemma validate_children_eq:
  assumes "node_rep st nd t" "layout_ok l"
  shows "for_each ch_measure children_next (\<lambda>child. validate_child child l) (node_children nd) = Ok () \<longleftrightarrow>
      (\<forall>k\<in>set (dt_kids t). reserved_child_ok l k)"
    and "returns (for_each ch_measure children_next (\<lambda>child. validate_child child l) (node_children nd))"
proof -
  obtain ns where ns: "yields (children_next :: (_, _, SemanticError) iter_next) (node_children nd) ns"
      "list_all2 (node_rep st) ns (dt_kids t)"
    using node_children_yields [OF assms(1)] by blast
  have "(\<forall>x\<in>set ns. validate_child x l = Ok ()) \<longleftrightarrow> (\<forall>k\<in>set (dt_kids t). reserved_child_ok l k)"
    by (rule list_all2_Ball [OF ns(2)]) (rule validate_child_eq(1) [OF _ assms(2)])
  moreover have "\<forall>x\<in>set ns. returns (validate_child x l)"
    using list_all2_Ball [OF ns(2), of "\<lambda>x. returns (validate_child x l)" "\<lambda>_. True"]
      validate_child_eq(2) [OF _ assms(2)] by blast
  ultimately show "for_each ch_measure children_next (\<lambda>child. validate_child child l) (node_children nd) = Ok () \<longleftrightarrow>
      (\<forall>k\<in>set (dt_kids t). reserved_child_ok l k)"
    "returns (for_each ch_measure children_next (\<lambda>child. validate_child child l) (node_children nd))"
    using ch.for_each_yields [OF ns(1), of "\<lambda>child. validate_child child l"] by auto
qed

lemma reserved_memory_validate_eq:
  assumes "node_rep st nd t" "addressing_ok t"
  shows "reserved_memory_validate nd = Ok () \<longleftrightarrow> reserved_ok t" "returns (reserved_memory_validate nd)"
proof -
  obtain c where c: "(reserved_memory_node nd :: (_, SemanticError) res) = Ok c"
      "rel_option (node_rep st) c (dt_reserved_node t)"
    using reserved_memory_node_eq [OF assms(1)] by blast
  have "(reserved_memory_validate nd = Ok () \<longleftrightarrow> reserved_ok t) \<and> returns (reserved_memory_validate nd)"
  proof (cases "dt_reserved_node t")
    case None
    with c show ?thesis by (simp add: reserved_memory_validate_def reserved_ok_def)
  next
    case (Some rm)
    with c obtain nd' where nd': "c = Some nd'" "node_rep st nd' rm" by (cases c) auto
    obtain ca where ca: "dt_addressing rm = Some ca"
      using addressing_ok_cells [OF dt_reserved_addressing [OF assms(2) Some]] by blast
    let ?f = "for_each ch_measure children_next (\<lambda>child. validate_child child (layout_of ca)) (node_children nd')"
    have f: "cells_nonzero ca \<Longrightarrow> ?f = Ok () \<longleftrightarrow> (\<forall>k\<in>set (dt_kids rm). reserved_child_ok (layout_of ca) k)"
        "cells_nonzero ca \<Longrightarrow> returns ?f"
      using validate_children_eq [OF nd'(2) layout_of_ok] by (auto simp: cells_nonzero_def)
    have "reserved_memory_validate nd = bind_res (validate_parent nd') (\<lambda>_.
        if cells_nonzero ca then ?f
        else Err (if address_cells_get (ca_address_cells ca) = 0 then InvalidReservedMemoryAddressCells
                  else InvalidReservedMemorySizeCells))"
      by (simp add: reserved_memory_validate_def c(1) nd'(1) child_addressing_eq [OF nd'(2) ca] reg_layout_new_eq
          cells_nonzero_def)
    with f validate_parent_eq [OF nd'(2)] Some ca show ?thesis
      by (auto simp: reserved_ok_def reserved_node_ok_def res_simps intro!: returns_bind)
  qed
  then show "reserved_memory_validate nd = Ok () \<longleftrightarrow> reserved_ok t" "returns (reserved_memory_validate nd)" by auto
qed

section \<open>The iterator after validation\<close>

definition reserved_at :: "children \<Rightarrow> reg_ranges option \<Rightarrow> reg_layout \<Rightarrow> reserved_memory_ranges" where
  "reserved_at nodes current l = \<lparr>rms_nodes = Some nodes, rms_current = current, rms_layout = Some l\<rparr>"

definition reserved_range_from :: "reg_range \<Rightarrow> reserved_memory_range" where
  "reserved_range_from r = \<lparr>rmr_address = rr_address r, rmr_size = rr_size r\<rparr>"

lemma reserved_next_unfold:
  "reserved_memory_ranges_next it =
     bind_res (reserved_memory_ranges_step it)
       (\<lambda>f. case f of Continue it' \<Rightarrow> reserved_memory_ranges_next it' | Break b \<Rightarrow> Ok b)"
  unfolding reserved_memory_ranges_next_def by (rule reserved_loop.run_unfold)

lemmas reserved_step_defs = reserved_memory_ranges_step_def reserved_at_def reserved_range_from_def

lemma reserved_next_current:
  assumes "(reg_ranges_next rs :: (_, 'e) res) = Ok (x, rs')"
  shows "x = Some r \<Longrightarrow> (reserved_memory_ranges_next (reserved_at nodes (Some rs) l) :: (_, 'e) res) =
      Ok (Some (reserved_range_from r), reserved_at nodes (Some rs') l)"
    and "x = None \<Longrightarrow> (reserved_memory_ranges_next (reserved_at nodes (Some rs) l) :: (_, 'e) res) =
      reserved_memory_ranges_next (reserved_at nodes None l)"
  subgoal using assms by (subst reserved_next_unfold) (simp add: reserved_step_defs)
  subgoal using assms by (subst (1 2) reserved_next_unfold) (simp add: reserved_step_defs cong: option.case_cong)
  done

lemma reserved_yields_current:
  assumes "yields (reg_ranges_next :: (_, _, 'e) iter_next) rs xs"
    and "yields (reserved_memory_ranges_next :: (_, _, 'e) iter_next) (reserved_at nodes None l) ys"
  shows "yields (reserved_memory_ranges_next :: (_, _, 'e) iter_next) (reserved_at nodes (Some rs) l)
    (map reserved_range_from xs @ ys)"
  using assms(1)
proof (induction rule: yields.induct)
  case (yields_done rs rs')
  then show ?case using assms(2) yields_next_eq [OF reserved_next_current(2) [OF yields_done(1) refl]] by simp
next
  case (yields_more rs x rs' xs)
  then show ?case using reserved_next_current(1) [OF yields_more.hyps(1) refl] by (auto intro: yields.yields_more)
qed

lemma reserved_next_nodes:
  assumes "(children_next nodes :: (_, 'e) res) = Ok (x, nodes')"
  shows "x = None \<Longrightarrow> (reserved_memory_ranges_next (reserved_at nodes None l) :: (_, 'e) res) =
      Ok (None, reserved_at nodes' None l)"
    and "x = Some nd \<Longrightarrow> (node_property nd REG_PROPERTY :: (_, 'e) res) = Ok (Some reg) \<Longrightarrow>
      (reserved_memory_ranges_next (reserved_at nodes None l) :: (_, 'e) res) =
        reserved_memory_ranges_next (reserved_at nodes' (Some (reg_ranges_new (prop_value reg) l)) l)"
  using assms by (subst reserved_next_unfold; simp add: reserved_step_defs)+

lemma reserved_yields_nodes:
  assumes "yields (children_next :: (_, _, 'e) iter_next) nodes ns" "list_all2 (node_rep st) ns ks" "layout_ok l"
    and "\<forall>k\<in>set ks. reserved_child_ok l k"
    and "\<forall>k\<in>set ks. \<forall>v. dt_prop k REG_PROPERTY = Some v \<longrightarrow> rl_entry_size l dvd length v"
  shows "yields (reserved_memory_ranges_next :: (_, _, 'e) iter_next) (reserved_at nodes None l)
    (map reserved_memory_range_of (concat (map (dt_reg_entries l) ks)))"
  using assms(1,2,4,5)
proof (induction arbitrary: ks rule: yields.induct)
  case (yields_done nodes nodes')
  then show ?case
    using reserved_next_nodes(1) [OF yields_done(1) refl] reserved_next_nodes(1) [OF yields_done(2) refl]
    by (auto intro: yields.yields_done)
next
  case (yields_more nodes nd nodes' ns)
  from yields_more.prems(1) obtain k ks' where ks: "ks = k # ks'" "node_rep st nd k" "list_all2 (node_rep st) ns ks'"
    by (auto simp: list_all2_Cons1)
  have rest: "yields (reserved_memory_ranges_next :: (_, _, 'e) iter_next) (reserved_at nodes' None l)
      (map reserved_memory_range_of (concat (map (dt_reg_entries l) ks')))"
    using yields_more.IH [OF ks(3)] yields_more.prems(2,3) ks(1) by simp
  obtain v where v: "dt_prop k REG_PROPERTY = Some v" "\<forall>r\<in>set (reg_entries l v). range_ok r"
      "rl_entry_size l dvd length v"
    using yields_more.prems(2,3) ks(1) by (auto simp: reserved_child_ok_def split: option.splits)
  have reg: "(node_property nd REG_PROPERTY :: (_, 'e) res) = Ok (Some \<lparr>prop_name = REG_PROPERTY, prop_value = v\<rparr>)"
    using v(1) by (simp add: node_property_eq [OF ks(2)] dt_prop_def)
  have "reserved_range_from \<circ> reg_range_of = reserved_memory_range_of" "dt_reg_entries l k = reg_entries l v"
    using v(1)
    by (auto simp: reserved_range_from_def reg_range_of_def reserved_memory_range_of_def dt_reg_entries_def)
  with reserved_yields_current [OF reg_ranges_yields [OF assms(3) v(3,2)] rest]
    yields_next_eq [OF reserved_next_nodes(2) [OF yields_more.hyps(1) refl reg]] ks(1)
  show ?case by simp
qed

lemma reserved_memory_ranges_yields:
  assumes "node_rep st nd t" "addressing_ok t" "reserved_ok t"
  shows "\<exists>it. (reserved_memory_ranges_new nd :: (_, 'e) res) = Ok it \<and>
    yields (reserved_memory_ranges_next :: (_, _, 'e) iter_next) it (map reserved_memory_range_of (dt_reserved t))"
proof -
  obtain c where c: "(reserved_memory_node nd :: (_, 'e) res) = Ok c" "rel_option (node_rep st) c (dt_reserved_node t)"
    using reserved_memory_node_eq [OF assms(1)] by blast
  show ?thesis
  proof (cases "dt_reserved_node t")
    case None
    let ?it = "\<lparr>rms_nodes = None, rms_current = None, rms_layout = None\<rparr>"
    have "(reserved_memory_ranges_next ?it :: (_, 'e) res) = Ok (None, ?it)"
      by (subst reserved_next_unfold) (simp add: reserved_memory_ranges_step_def)
    then have "yields (reserved_memory_ranges_next :: (_, _, 'e) iter_next) ?it []" by (rule yields_done) fact
    with None c show ?thesis by (simp add: reserved_memory_ranges_new_def dt_reserved_def)
  next
    case (Some rm)
    with c obtain nd' where nd': "c = Some nd'" "node_rep st nd' rm" by (cases c) auto
    note rm_ok = dt_reserved_addressing [OF assms(2) Some]
    obtain ca where ca: "dt_addressing rm = Some ca" using addressing_ok_cells [OF rm_ok] by blast
    obtain ns where ns: "yields (children_next :: (_, _, 'e) iter_next) (node_children nd') ns"
        "list_all2 (node_rep st) ns (dt_kids rm)"
      using node_children_yields [OF nd'(2)] by blast
    have "\<forall>k\<in>set (dt_kids rm). \<forall>v. dt_prop k REG_PROPERTY = Some v \<longrightarrow> rl_entry_size (layout_of ca) dvd length v"
      using rm_ok ca by (cases rm) (auto simp: dt_local_ok_def reg_ok_def REG_PROPERTY_def)
    moreover have "layout_ok (layout_of ca)" "\<forall>k\<in>set (dt_kids rm). reserved_child_ok (layout_of ca) k"
      using assms(3) Some ca layout_of_ok by (auto simp: reserved_ok_def reserved_node_ok_def cells_nonzero_def)
    ultimately have "yields (reserved_memory_ranges_next :: (_, _, 'e) iter_next)
        (reserved_at (node_children nd') None (layout_of ca)) (map reserved_memory_range_of (dt_reserved t))"
      using reserved_yields_nodes [OF ns] ca Some by (simp add: dt_reserved_def)
    then show ?thesis
      by (simp add: reserved_memory_ranges_new_def c(1) nd'(1) child_addressing_eq [OF nd'(2) ca] reg_layout_new_eq
          reserved_at_def)
  qed
qed

lemma reserved_ok_ranges:
  assumes "reserved_ok t" shows "\<forall>r\<in>set (dt_reserved t). range_ok r"
  using assms
  by (auto simp: reserved_ok_def reserved_node_ok_def dt_reserved_def dt_reg_entries_def reserved_child_ok_def
      split: option.splits)

end
