(* ===== verification/Semantic.thy ===== *)
theory Semantic
  imports Reserved_Memory
begin

text \<open>
  The devicetree-wide checks, \<open>fdt/src/structure/semantic.rs\<close>: the required children of the
  root and the composition of all semantic validations.  \<open>semantics_ok\<close> is what they establish
  of the tree.
\<close>

section \<open>Model\<close>

definition validate_required_root_nodes :: "node \<Rightarrow> (unit, SemanticError) res" where
  "validate_required_root_nodes root =
     bind_res (for_in ch_measure children_next
         (\<lambda>child (cpus_seen, memory_seen).
            Ok (Continue (cpus_seen \<or> nd_name child = ascii ''cpus'',
                          memory_seen \<or> node_name_component child = ascii ''memory'')
                :: (bool \<times> bool, unit) flow))
         (node_children root) (False, False)) (\<lambda>(f, _).
     case f of
       Continue (cpus_seen, memory_seen) \<Rightarrow>
         if \<not> cpus_seen then Err MissingCpusNode else
         if \<not> memory_seen then Err MissingMemoryNode else Ok ()
     | Break _ \<Rightarrow> Ok ())"

definition validate_semantics :: "structure_block \<Rightarrow> strings \<Rightarrow> (unit, StructureError) res" where
  "validate_semantics sb st =
     bind_res (structure_root sb st) (\<lambda>root.
     bind_res (map_err StructureError.Semantic (validate_required_root_nodes root)) (\<lambda>_.
     bind_res (map_err StructureError.Semantic (addressing_validate root)) (\<lambda>_.
     bind_res (map_err StructureError.Semantic (memory_validate root)) (\<lambda>_.
     bind_res (map_err StructureError.Semantic (reserved_memory_validate root)) (\<lambda>_.
     Ok ())))))"

section \<open>What validation establishes\<close>

definition required_nodes :: "dtree \<Rightarrow> bool" where
  "required_nodes t \<longleftrightarrow>
     (\<exists>k\<in>set (dt_kids t). dt_name k = ascii ''cpus'') \<and>
     (\<exists>k\<in>set (dt_kids t). component (dt_name k) = ascii ''memory'')"

definition semantics_ok :: "dtree \<Rightarrow> bool" where
  "semantics_ok t \<longleftrightarrow> required_nodes t \<and> addressing_ok t \<and> memory_ok t \<and> reserved_ok t"

lemma fold_flow_seen:
  "fold_flow (\<lambda>x (a, b). Ok (Continue (a \<or> p x, b \<or> q x) :: (bool \<times> bool, unit) flow)) xs (a, b) =
     Ok (Continue (a \<or> (\<exists>x\<in>set xs. p x), b \<or> (\<exists>x\<in>set xs. q x)))"
  by (induction xs arbitrary: a b) auto

lemma list_all2_Bex:
  assumes "list_all2 R xs ys" "\<And>x y. R x y \<Longrightarrow> P x = Q y"
  shows "(\<exists>x\<in>set xs. P x) \<longleftrightarrow> (\<exists>y\<in>set ys. Q y)"
  using assms by (induction rule: list_all2_induct) auto

lemma validate_required_root_nodes_eq:
  assumes "node_rep st nd t"
  shows "validate_required_root_nodes nd = Ok () \<longleftrightarrow> required_nodes t" "returns (validate_required_root_nodes nd)"
proof -
  obtain ns where ns: "yields (children_next :: (_, _, SemanticError) iter_next) (node_children nd) ns"
      "list_all2 (node_rep st) ns (dt_kids t)"
    using node_children_yields [OF assms] by blast
  let ?p = "\<lambda>c. nd_name c = ascii ''cpus''" and ?q = "\<lambda>c. node_name_component c = ascii ''memory''"
  let ?for = "for_in ch_measure children_next
      (\<lambda>child (a, b). Ok (Continue (a \<or> ?p child, b \<or> ?q child) :: (bool \<times> bool, unit) flow)) (node_children nd) (False, False)
      :: (_, SemanticError) res"
  have "bind_res ?for (\<lambda>(f, _). Ok f) = Ok (Continue (\<exists>x\<in>set ns. ?p x, \<exists>x\<in>set ns. ?q x))"
    unfolding ch.for_in_yields [OF ns(1)] fold_flow_seen by simp
  then obtain it where "?for = Ok (Continue (\<exists>x\<in>set ns. ?p x, \<exists>x\<in>set ns. ?q x), it)"
    by (cases ?for) auto
  moreover have "(\<exists>x\<in>set ns. ?p x) \<longleftrightarrow> (\<exists>k\<in>set (dt_kids t). dt_name k = ascii ''cpus'')"
    by (rule list_all2_Bex [OF ns(2)]) (simp add: node_rep_def)
  moreover have "(\<exists>x\<in>set ns. ?q x) \<longleftrightarrow> (\<exists>k\<in>set (dt_kids t). component (dt_name k) = ascii ''memory'')"
    by (rule list_all2_Bex [OF ns(2)]) (simp add: node_rep_def node_name_component_def)
  ultimately show "validate_required_root_nodes nd = Ok () \<longleftrightarrow> required_nodes t" "returns (validate_required_root_nodes nd)"
    by (simp_all add: validate_required_root_nodes_def required_nodes_def)
qed

lemma validate_semantics_eq:
  assumes "encodes st (sb_bytes sb) t" "length (sb_bytes sb) < USIZE_LIMIT"
  shows "validate_semantics sb st = Ok () \<longleftrightarrow> semantics_ok t" "returns (validate_semantics sb st)"
proof -
  obtain nd where nd: "(structure_root sb st :: (_, StructureError) res) = Ok nd" "node_rep st nd t"
    using structure_root_rep [OF assms] by blast
  note addr = addressing_validate_eq [OF nd(2)]
  have mem: "memory_validate nd = Ok () \<longleftrightarrow> memory_ok t" "returns (memory_validate nd)" if "addressing_ok t"
    using memory_validate_eq [OF nd(2)] addressing_ok_cells [OF that] by blast+
  note all = validate_required_root_nodes_eq [OF nd(2)] addr mem reserved_memory_validate_eq [OF nd(2)]
  show "validate_semantics sb st = Ok () \<longleftrightarrow> semantics_ok t"
    using all by (auto simp: validate_semantics_def nd(1) semantics_ok_def res_simps)
  show "returns (validate_semantics sb st)"
    using all by (auto simp: validate_semantics_def nd(1) intro!: returns_bind)
qed

end
