(* ===== verification/Fdt.thy ===== *)
theory Fdt
  imports Header Reservation Semantic
begin

text \<open>
  The top level of the parser, \<open>fdt/src/fdt.rs\<close> and \<open>fdt/src/error.rs\<close>: construction of an
  \<open>Fdt\<close> from a pointer, and its accessors.  Memory is a function from addresses to bytes, as the
  caller of the unsafe constructor promises that the blob's bytes are readable.
\<close>

section \<open>Model\<close>

datatype BlobError =
    NullPointer
  | Misaligned usize usize
  | AddressRangeOverflow usize usize

datatype Error =
    BlobE BlobError
  | HeaderE HeaderError
  | StructureE StructureError
  | ReservationE ReservationError

record fdt =
  fdt_header :: header
  fdt_structure :: structure_block
  fdt_strings :: strings
  fdt_reservations :: reservations

definition read_mem :: "(nat \<Rightarrow> u8) \<Rightarrow> nat \<Rightarrow> nat \<Rightarrow> bytes" where
  "read_mem mem ptr n = map (\<lambda>i. mem (ptr + i)) [0..<n]"

text \<open>Slice indexing by a range panics when the range is not within the slice.\<close>

definition index_range :: "bytes \<Rightarrow> urange \<Rightarrow> (bytes, 'e) res" where
  "index_range bs r = expect_some (slice_range bs (fst r) (snd r))"

text \<open>The loop that lowers the limit of the reservation block.\<close>

definition reservation_limit :: "header \<Rightarrow> usize" where
  "reservation_limit h =
     foldl (\<lambda>limit rng. if fst rng > hd_off_mem_rsvmap h then min limit (fst rng) else limit)
       (hd_total_size h) [hd_structure_range h, hd_strings_range h]"

definition fdt_from_ptr :: "(nat \<Rightarrow> u8) \<Rightarrow> nat \<Rightarrow> (fdt, Error) res" where
  "fdt_from_ptr mem ptr =
     (if ptr = 0 then Err (BlobE NullPointer) else
      let address = ptr in
      if address mod 8 \<noteq> 0 then Err (BlobE (Misaligned address 8)) else
      let header_bytes = read_mem mem ptr HEADER_SIZE in
      bind_res (map_err HeaderE (header_new header_bytes)) (\<lambda>header.
      let total_size = hd_total_size header in
      bind_res (map_err BlobE (ok_or (AddressRangeOverflow address total_size)
          (checked_add_usize address total_size))) (\<lambda>_.
      let bs = read_mem mem ptr total_size in
      bind_res (index_range bs (hd_strings_range header)) (\<lambda>strings_bytes.
      bind_res (index_range bs (hd_structure_range header)) (\<lambda>structure_bytes.
      let st = strings_new strings_bytes in
      bind_res (map_err StructureE (structure_new structure_bytes st)) (\<lambda>sb.
      bind_res (map_err StructureE (validate_semantics sb st)) (\<lambda>_.
      bind_res (index_range bs (hd_off_mem_rsvmap header, reservation_limit header)) (\<lambda>reservation_bytes.
      bind_res (map_err ReservationE (reservations_new reservation_bytes)) (\<lambda>rs.
      Ok \<lparr>fdt_header = header, fdt_structure = sb, fdt_strings = st, fdt_reservations = rs\<rparr>)))))))))"

definition fdt_root :: "fdt \<Rightarrow> (node, 'e) res" where
  "fdt_root f = structure_root (fdt_structure f) (fdt_strings f)"

definition fdt_memory_ranges :: "fdt \<Rightarrow> (memory_ranges, 'e) res" where
  "fdt_memory_ranges f = bind_res (fdt_root f) memory_ranges_new"

definition fdt_memory_reservations :: "fdt \<Rightarrow> memory_reservations" where
  "fdt_memory_reservations f = reservations_iter (fdt_reservations f)"

definition fdt_reserved_memory_ranges :: "fdt \<Rightarrow> (reserved_memory_ranges, 'e) res" where
  "fdt_reserved_memory_ranges f = bind_res (fdt_root f) reserved_memory_ranges_new"

definition fdt_total_size :: "fdt \<Rightarrow> usize" where
  "fdt_total_size f = hd_total_size (fdt_header f)"

section \<open>Accepted blobs\<close>

text \<open>
  A blob describes the tree \<open>t\<close> and the reservations \<open>xs\<close>: its structure and strings blocks
  encode the tree, the tree satisfies the semantic rules, and the reservation block starts with
  the encoding of \<open>xs\<close>.
\<close>

definition sub :: "bytes \<Rightarrow> urange \<Rightarrow> bytes" where
  "sub bs r = take (snd r - fst r) (drop (fst r) bs)"

definition blob_ok :: "header \<Rightarrow> bytes \<Rightarrow> dtree \<Rightarrow> memory_reservation list \<Rightarrow> bool" where
  "blob_ok h bs t xs \<longleftrightarrow>
     encodes (strings_new (sub bs (hd_strings_range h))) (sub bs (hd_structure_range h)) t \<and>
     semantics_ok t \<and>
     (\<exists>rest. sub bs (hd_off_mem_rsvmap h, reservation_limit h) = block_bytes xs @ rest) \<and>
     (\<forall>x\<in>set xs. entry_ok x) \<and> regions_disjoint xs"

definition fdt_of :: "header \<Rightarrow> bytes \<Rightarrow> memory_reservation list \<Rightarrow> fdt" where
  "fdt_of h bs xs =
     \<lparr>fdt_header = h, fdt_structure = \<lparr>sb_bytes = sub bs (hd_structure_range h)\<rparr>,
      fdt_strings = strings_new (sub bs (hd_strings_range h)),
      fdt_reservations = \<lparr>rsv_bytes = block_bytes xs\<rparr>\<rparr>"

lemma length_read_mem [simp]: "length (read_mem mem ptr n) = n"
  by (simp add: read_mem_def)

lemma index_range_eq: "fst r \<le> snd r \<Longrightarrow> snd r \<le> length bs \<Longrightarrow> index_range bs r = Ok (sub bs r)"
  by (simp add: index_range_def slice_range_def sub_def)

lemma length_sub: "length (sub bs r) \<le> length bs"
  by (simp add: sub_def)

lemma reservation_limit_bounds:
  assumes "header_wf h"
  shows "hd_off_mem_rsvmap h \<le> reservation_limit h" "reservation_limit h \<le> hd_total_size h"
  using assms by (auto simp: reservation_limit_def header_wf_def)

text \<open>The pointer and the header found there pass the checks on them.\<close>

definition placed :: "(nat \<Rightarrow> u8) \<Rightarrow> nat \<Rightarrow> header \<Rightarrow> bool" where
  "placed mem ptr h \<longleftrightarrow> ptr \<noteq> 0 \<and> ptr mod 8 = 0 \<and> header_new (read_mem mem ptr HEADER_SIZE) = Ok h \<and>
     ptr + hd_total_size h < USIZE_LIMIT"

lemma not_placed: "\<nexists>h. placed mem ptr h \<Longrightarrow> \<exists>e. fdt_from_ptr mem ptr = Err e"
  using header_new_returns [of "read_mem mem ptr HEADER_SIZE"]
  by (cases "header_new (read_mem mem ptr HEADER_SIZE)")
    (auto simp: fdt_from_ptr_def placed_def Let_def checked_add_usize_def)

text \<open>After the header is accepted, the rest of the constructor.\<close>

lemma from_ptr_header:
  assumes "placed mem ptr h"
  defines "bs \<equiv> read_mem mem ptr (hd_total_size h)"
  defines "st \<equiv> strings_new (sub bs (hd_strings_range h))"
  shows "fdt_from_ptr mem ptr =
     bind_res (map_err StructureE (structure_new (sub bs (hd_structure_range h)) st)) (\<lambda>sb.
     bind_res (map_err StructureE (validate_semantics sb st)) (\<lambda>_.
     bind_res (map_err ReservationE (reservations_new (sub bs (hd_off_mem_rsvmap h, reservation_limit h)))) (\<lambda>rs.
     Ok \<lparr>fdt_header = h, fdt_structure = sb, fdt_strings = st, fdt_reservations = rs\<rparr>)))"
proof -
  have wf: "header_wf h" using assms(1) by (auto simp: placed_def header_new_eq_Ok)
  have ix: "(index_range bs (hd_strings_range h) :: (_, Error) res) = Ok (sub bs (hd_strings_range h))"
    "(index_range bs (hd_structure_range h) :: (_, Error) res) = Ok (sub bs (hd_structure_range h))"
    "(index_range bs (hd_off_mem_rsvmap h, reservation_limit h) :: (_, Error) res) =
      Ok (sub bs (hd_off_mem_rsvmap h, reservation_limit h))"
    using wf reservation_limit_bounds [OF wf] by (auto simp: bs_def header_wf_def intro!: index_range_eq)
  show ?thesis
    using assms(1) ix by (simp add: fdt_from_ptr_def placed_def checked_add_usize_def bs_def st_def Let_def)
qed

lemma blob_lengths:
  assumes "header_wf h" "length bs = hd_total_size h"
  shows "length (sub bs r) < USIZE_LIMIT" "length (str_bytes (strings_new (sub bs r))) < USIZE_LIMIT"
proof -
  have "length bs < USIZE_LIMIT" using assms by (simp add: header_wf_def USIZE_LIMIT_def)
  with length_sub [of bs r] show "length (sub bs r) < USIZE_LIMIT" by simp
  then show "length (str_bytes (strings_new (sub bs r))) < USIZE_LIMIT" by (simp add: strings_new_def)
qed

lemma from_ptr_blob:
  assumes "placed mem ptr h"
  defines "bs \<equiv> read_mem mem ptr (hd_total_size h)"
  shows "fdt_from_ptr mem ptr = Ok f \<longleftrightarrow> (\<exists>t xs. blob_ok h bs t xs \<and> f = fdt_of h bs xs)"
    and "returns (fdt_from_ptr mem ptr)"
proof -
  let ?st = "strings_new (sub bs (hd_strings_range h))" and ?sb = "\<lparr>sb_bytes = sub bs (hd_structure_range h)\<rparr>"
  let ?rsv = "sub bs (hd_off_mem_rsvmap h, reservation_limit h)"
  have wf: "header_wf h" using assms(1) by (auto simp: placed_def header_new_eq_Ok)
  note len = blob_lengths [OF wf, of bs]
  have len_bs: "length bs = hd_total_size h" by (simp add: bs_def)
  note eq = from_ptr_header [OF assms(1), folded bs_def]
  have new: "structure_new (sub bs (hd_structure_range h)) ?st = Ok sb \<longleftrightarrow>
      sb = ?sb \<and> (\<exists>t. encodes ?st (sub bs (hd_structure_range h)) t)" for sb
    by (rule structure_new_iff_encodes) (rule len [OF len_bs])+
  have sem: "validate_semantics ?sb ?st = Ok () \<longleftrightarrow> semantics_ok t" "returns (validate_semantics ?sb ?st)"
    if "encodes ?st (sub bs (hd_structure_range h)) t" for t
    using validate_semantics_eq [of ?st ?sb t] that len(1) [OF len_bs, of "hd_structure_range h"] by auto
  have rsv: "reservations_new ?rsv = Ok rs \<longleftrightarrow>
      (\<exists>xs rest. ?rsv = block_bytes xs @ rest \<and> rs = \<lparr>rsv_bytes = block_bytes xs\<rparr> \<and>
         (\<forall>x\<in>set xs. entry_ok x) \<and> regions_disjoint xs)" for rs
    using reservations_new_eq_Ok [OF len(1) [OF len_bs], of "(hd_off_mem_rsvmap h, reservation_limit h)" rs]
    by (cases rs) auto
  show "fdt_from_ptr mem ptr = Ok f \<longleftrightarrow> (\<exists>t xs. blob_ok h bs t xs \<and> f = fdt_of h bs xs)"
    unfolding eq bind_res_eq_Ok map_err_eq_Ok new rsv blob_ok_def fdt_of_def using sem(1) by auto
  show "returns (fdt_from_ptr mem ptr)"
    unfolding eq
    by (auto intro!: returns_bind structure_new_never_panics [OF len [OF len_bs]]
        reservations_new_returns [OF len(1) [OF len_bs]] intro: sem(2) simp: new)
qed

text \<open>Acceptance of a whole blob, exactly; and no blob makes the constructor panic.\<close>

lemma fdt_from_ptr_eq_Ok:
  "fdt_from_ptr mem ptr = Ok f \<longleftrightarrow>
     (\<exists>h t xs. placed mem ptr h \<and> blob_ok h (read_mem mem ptr (hd_total_size h)) t xs \<and>
        f = fdt_of h (read_mem mem ptr (hd_total_size h)) xs)"
proof (cases "\<exists>h. placed mem ptr h")
  case True
  then obtain h where h: "placed mem ptr h" by blast
  have "h' = h" if "placed mem ptr h'" for h' using h that by (simp add: placed_def)
  with from_ptr_blob(1) [OF h] h show ?thesis by blast
next
  case False
  with not_placed [OF False] show ?thesis by auto
qed

lemma fdt_from_ptr_returns: "returns (fdt_from_ptr mem ptr)"
  using from_ptr_blob(2) not_placed by fastforce

section \<open>The accessors of an accepted blob\<close>

definition fdt_rep :: "fdt \<Rightarrow> dtree \<Rightarrow> memory_reservation list \<Rightarrow> bool" where
  "fdt_rep f t xs \<longleftrightarrow>
     encodes (fdt_strings f) (sb_bytes (fdt_structure f)) t \<and> length (sb_bytes (fdt_structure f)) < USIZE_LIMIT \<and>
     semantics_ok t \<and> rsv_bytes (fdt_reservations f) = block_bytes xs \<and>
     (\<forall>x\<in>set xs. entry_ok x) \<and> regions_disjoint xs"

lemma fdt_from_ptr_rep:
  assumes "fdt_from_ptr mem ptr = Ok f"
  shows "\<exists>t xs. fdt_rep f t xs"
proof -
  obtain h t xs where h: "placed mem ptr h"
      "blob_ok h (read_mem mem ptr (hd_total_size h)) t xs"
      "f = fdt_of h (read_mem mem ptr (hd_total_size h)) xs"
    using assms by (auto simp: fdt_from_ptr_eq_Ok)
  have "header_wf h" using h(1) by (auto simp: placed_def header_new_eq_Ok)
  from blob_lengths(1) [OF this, of "read_mem mem ptr (hd_total_size h)"] h(2,3)
  have "fdt_rep f t xs" by (auto simp: fdt_rep_def blob_ok_def fdt_of_def)
  then show ?thesis by blast
qed

lemma fdt_root_rep:
  assumes "fdt_rep f t xs"
  shows "\<exists>nd. (fdt_root f :: (_, 'e) res) = Ok nd \<and> node_rep (fdt_strings f) nd t"
  using assms structure_root_rep unfolding fdt_rep_def fdt_root_def by blast

lemma fdt_memory_ranges_yields:
  assumes "fdt_rep f t xs"
  shows "\<exists>it. (fdt_memory_ranges f :: (_, 'e) res) = Ok it \<and>
    yields (memory_ranges_next :: (_, _, 'e) iter_next) it (map memory_range_of (dt_memory t))"
proof -
  obtain nd where nd: "(fdt_root f :: (_, 'e) res) = Ok nd" "node_rep (fdt_strings f) nd t"
    using fdt_root_rep [OF assms] by blast
  have "addressing_ok t" "memory_ok t" using assms by (auto simp: fdt_rep_def semantics_ok_def)
  from memory_ranges_yields [OF nd(2) this] show ?thesis by (simp add: fdt_memory_ranges_def nd(1))
qed

lemma fdt_reserved_memory_ranges_yields:
  assumes "fdt_rep f t xs"
  shows "\<exists>it. (fdt_reserved_memory_ranges f :: (_, 'e) res) = Ok it \<and>
    yields (reserved_memory_ranges_next :: (_, _, 'e) iter_next) it (map reserved_memory_range_of (dt_reserved t))"
proof -
  obtain nd where nd: "(fdt_root f :: (_, 'e) res) = Ok nd" "node_rep (fdt_strings f) nd t"
    using fdt_root_rep [OF assms] by blast
  have "addressing_ok t" "reserved_ok t" using assms by (auto simp: fdt_rep_def semantics_ok_def)
  from reserved_memory_ranges_yields [OF nd(2) this] show ?thesis
    by (simp add: fdt_reserved_memory_ranges_def nd(1))
qed

lemma fdt_memory_reservations_yields:
  assumes "fdt_rep f t xs"
  shows "yields memory_reservations_next (fdt_memory_reservations f) xs"
  using assms mrs_yields [of xs "[]"]
  by (auto simp: fdt_rep_def fdt_memory_reservations_def reservations_iter_def entry_ok_def)

section \<open>Counting\<close>

text \<open>
  The property values of a tree are disjoint parts of its encoding, so no iterator over ranges has
  more items than the structure block has bytes; loops over them take this as fuel.
\<close>

definition fdt_fuel :: "fdt \<Rightarrow> nat" where
  "fdt_fuel f = length (sb_bytes (fdt_structure f))"

fun prop_bytes :: "dtree \<Rightarrow> nat" where
  "prop_bytes (DNode n ps ks) = sum_list (map (length \<circ> snd) ps) + sum_list (map prop_bytes ks)"

lemma wgrammar_bytes:
  "wkids st used bs cs r \<Longrightarrow> sum_list (map prop_bytes cs) + length r \<le> length bs"
  "wbody st used bs ps cs r \<Longrightarrow>
     sum_list (map (length \<circ> snd) ps) + sum_list (map prop_bytes cs) + length r \<le> length bs"
proof (induction rule: wkids_wbody.inducts)
  case (wbody_prop bs off v n used ps cs r)
  then show ?case using length_item_rest [OF wbody_prop(1)] by simp
next
  case (wkids_begin bs n used ps ks r1 cs r)
  then show ?case using item_rest_shorter [OF wkids_begin(1)] by (simp add: comp_def)
qed (force dest: item_rest_shorter)+

lemma nops_shorter: "nops bs r \<Longrightarrow> length r \<le> length bs"
  by (induction rule: nops.induct) (auto dest: item_rest_shorter)

lemma length_chunks: "length (chunks_exact_list n xs) \<le> length xs"
proof (induction n xs rule: chunks_exact_list.induct)
  case (1 n xs)
  then show ?case by (subst chunks_exact_list.simps) auto
qed

lemma dt_reg_entries_length: "length (dt_reg_entries l t) \<le> prop_bytes t"
proof (cases "dt_prop t REG_PROPERTY")
  case (Some v)
  then have "(REG_PROPERTY, v) \<in> set (dt_props t)" by (simp add: dt_prop_def map_of_SomeD)
  then have "length v \<le> sum_list (map (length \<circ> snd) (dt_props t))"
    using member_le_sum_list [of "length v" "map (length \<circ> snd) (dt_props t)"] by force
  moreover have "sum_list (map (length \<circ> snd) (dt_props t)) \<le> prop_bytes t" by (cases t) simp
  moreover have "length (dt_reg_entries l t) \<le> length v"
    using Some length_chunks by (simp add: dt_reg_entries_def reg_entries_def)
  ultimately show ?thesis by linarith
qed (simp add: dt_reg_entries_def)

lemma concat_reg_entries_length:
  "length (concat (map (dt_reg_entries l) ks)) \<le> sum_list (map prop_bytes ks)"
  by (induction ks) (use dt_reg_entries_length add_mono in \<open>auto simp: add_mono\<close>)

lemma sum_list_filter_le: "sum_list (map f (filter P ks)) \<le> (sum_list (map f ks) :: nat)"
  by (induction ks) auto

lemma encodes_bytes: "encodes st bs t \<Longrightarrow> prop_bytes t \<le> length bs"
  by (auto simp: encodes_def dest!: wgrammar_bytes(2) nops_shorter item_rest_shorter)

lemma kids_bytes: "sum_list (map prop_bytes (dt_kids t)) \<le> prop_bytes t"
  by (cases t) simp

lemma fdt_counts:
  assumes "fdt_rep f t xs"
  shows "length (dt_memory t) \<le> fdt_fuel f" "length (dt_reserved t) \<le> fdt_fuel f"
proof -
  have bytes: "prop_bytes t \<le> fdt_fuel f" using assms encodes_bytes by (auto simp: fdt_rep_def fdt_fuel_def)
  have "length (concat (map (dt_reg_entries l) (filter is_memory (dt_kids t)))) \<le> prop_bytes t" for l
    using concat_reg_entries_length [of l "filter is_memory (dt_kids t)"] kids_bytes [of t]
      sum_list_filter_le [of prop_bytes is_memory "dt_kids t"] by linarith
  with bytes show "length (dt_memory t) \<le> fdt_fuel f"
    by (auto simp: dt_memory_def split: option.split intro: order_trans)
  show "length (dt_reserved t) \<le> fdt_fuel f"
  proof (cases "dt_reserved_node t")
    case (Some rm)
    then have "rm \<in> set (dt_kids t)" by (auto simp: dt_reserved_node_def find_Some_iff)
    then have "prop_bytes rm \<le> prop_bytes t"
      using member_le_sum_list [of "prop_bytes rm" "map prop_bytes (dt_kids t)"] kids_bytes [of t] by simp
    moreover have "length (concat (map (dt_reg_entries l) (dt_kids rm))) \<le> prop_bytes rm" for l
      using concat_reg_entries_length [of l "dt_kids rm"] kids_bytes [of rm] by linarith
    ultimately show ?thesis using bytes Some by (auto simp: dt_reserved_def split: option.split intro: order_trans)
  qed (simp add: dt_reserved_def)
qed

end
