(* ===== verification/Sample_Blob.thy ===== *)
theory Sample_Blob
  imports Fdt
begin

text \<open>
  A small devicetree blob used to exercise the parser: one memory reservation, a \<open>/cpus\<close> node and
  a \<open>/memory\<close> node with one range of 128 MiB at 2 GiB.
\<close>

definition sample_structure :: bytes where
  "sample_structure = [
    0, 0, 0, 1, 0, 0, 0, 0, 0, 0, 0, 1, 99, 112, 117, 115,
    0, 0, 0, 0, 0, 0, 0, 2, 0, 0, 0, 1, 109, 101, 109, 111,
    114, 121, 0, 0, 0, 0, 0, 3, 0, 0, 0, 7, 0, 0, 0, 0,
    109, 101, 109, 111, 114, 121, 0, 0, 0, 0, 0, 3, 0, 0, 0, 12,
    0, 0, 0, 12, 0, 0, 0, 0, 128, 0, 0, 0, 8, 0, 0, 0,
    0, 0, 0, 2, 0, 0, 0, 2, 0, 0, 0, 9]"

definition sample_strings :: bytes where
  "sample_strings = [
    100, 101, 118, 105, 99, 101, 95, 116, 121, 112, 101, 0, 114, 101, 103, 0]"

definition sample_reservations :: bytes where
  "sample_reservations = [
    0, 0, 0, 0, 128, 0, 0, 0, 0, 0, 0, 0, 0, 0, 16, 0,
    0, 0, 0, 0, 0, 0, 0, 0, 0, 0, 0, 0, 0, 0, 0, 0]"

definition sample_header :: bytes where
  "sample_header = [
    208, 13, 254, 237, 0, 0, 0, 180, 0, 0, 0, 72, 0, 0, 0, 164,
    0, 0, 0, 40, 0, 0, 0, 17, 0, 0, 0, 16, 0, 0, 0, 0,
    0, 0, 0, 16, 0, 0, 0, 92]"

definition sample_blob :: bytes where
  "sample_blob = sample_header @ sample_reservations @ sample_structure @ sample_strings"

text \<open>The blob in memory, at address 64.\<close>

definition sample_address :: nat where
  "sample_address = 64"

definition sample_memory :: "nat \<Rightarrow> u8" where
  "sample_memory a =
     (if a < sample_address \<or> sample_address + length sample_blob \<le> a then 0
      else sample_blob ! (a - sample_address))"

lemma sample_structure_accepted:
  "structure_new sample_structure (strings_new sample_strings) = Ok \<lparr>sb_bytes = sample_structure\<rparr>"
  by code_simp

lemma sample_lengths: "length sample_structure < USIZE_LIMIT" "length (str_bytes (strings_new sample_strings)) < USIZE_LIMIT"
  by (simp_all add: sample_structure_def sample_strings_def strings_new_def USIZE_LIMIT_def)

lemma sample_accepted:
  "case fdt_from_ptr sample_memory sample_address of
     Ok f \<Rightarrow> fdt_total_size f = length sample_blob | _ \<Rightarrow> False"
  by code_simp

text \<open>The tree of the blob.\<close>

definition sample_tree :: dtree where
  "sample_tree = DNode [] [] [
     DNode (ascii ''cpus'') [] [],
     DNode (ascii ''memory'')
       [(ascii ''device_type'', ascii ''memory'' @ [0]), (ascii ''reg'', [0, 0, 0, 0, 128, 0, 0, 0, 8, 0, 0, 0])] []]"

abbreviation sample_at :: "nat \<Rightarrow> bytes" where
  "sample_at n \<equiv> drop n sample_structure"

lemma sample_items:
  "item_at sample_structure = Some (IBegin []) \<and> item_rest (IBegin []) sample_structure = sample_at 8"
  "item_at (sample_at 8) = Some (IBegin (ascii ''cpus'')) \<and> item_rest (IBegin (ascii ''cpus'')) (sample_at 8) = sample_at 20"
  "item_at (sample_at 20) = Some IEnd \<and> item_rest IEnd (sample_at 20) = sample_at 24"
  "item_at (sample_at 24) = Some (IBegin (ascii ''memory'')) \<and> item_rest (IBegin (ascii ''memory'')) (sample_at 24) = sample_at 36"
  "item_at (sample_at 36) = Some (IProp 0 (ascii ''memory'' @ [0])) \<and>
     item_rest (IProp 0 (ascii ''memory'' @ [0])) (sample_at 36) = sample_at 56"
  "item_at (sample_at 56) = Some (IProp 12 [0, 0, 0, 0, 128, 0, 0, 0, 8, 0, 0, 0]) \<and>
     item_rest (IProp 12 [0, 0, 0, 0, 128, 0, 0, 0, 8, 0, 0, 0]) (sample_at 56) = sample_at 80"
  "item_at (sample_at 80) = Some IEnd \<and> item_rest IEnd (sample_at 80) = sample_at 84"
  "item_at (sample_at 84) = Some IEnd \<and> item_rest IEnd (sample_at 84) = sample_at 88"
  "item_at (sample_at 88) = Some IStop \<and> item_rest IStop (sample_at 88) = []"
  by code_simp+

lemma sample_names:
  "name_validate (ascii ''cpus'') = Ok ()" "name_validate (ascii ''memory'') = Ok ()"
  "strings_validate_property_name (strings_new sample_strings) 0 = Ok (ascii ''device_type'')"
  "strings_validate_property_name (strings_new sample_strings) 12 = Ok (ascii ''reg'')"
  "ascii ''memory'' \<noteq> ascii ''cpus''" "ascii ''device_type'' \<noteq> ascii ''reg''"
  by code_simp+

lemma sample_body:
  "wbody (strings_new sample_strings) [] (sample_at 8) (dt_props sample_tree) (dt_kids sample_tree) (sample_at 88)"
proof -
  note item [simp] = sample_items [THEN conjunct1] sample_items [THEN conjunct2]
  have "wkids (strings_new sample_strings) [] (sample_at 80) [] (sample_at 84)" by (simp add: wkids_item)
  then have memory: "wbody (strings_new sample_strings) [] (sample_at 36) (dt_props (dt_kids sample_tree ! 1)) [] (sample_at 84)"
    using sample_names by (simp add: sample_tree_def wbody_item)
  have cpus: "wbody (strings_new sample_strings) [] (sample_at 20) [] [] (sample_at 24)"
    by (simp add: wbody_item wkids_item)
  have "wkids (strings_new sample_strings) us (sample_at 84) [] (sample_at 88)" for us by (simp add: wkids_item)
  with memory cpus show ?thesis
    using sample_names by (simp add: sample_tree_def wbody_item wkids_item name_validate_iff [symmetric])
qed

lemma sample_encodes: "encodes (strings_new sample_strings) sample_structure sample_tree"
  using sample_body sample_items [THEN conjunct1] sample_items [THEN conjunct2]
  by (auto simp: encodes_def nops_item sample_tree_def)

definition sample_root :: node where
  "sample_root = \<lparr>nd_name = [], nd_content = sample_at 8, nd_strings = strings_new sample_strings\<rparr>"

lemma sample_root_rep: "node_rep (strings_new sample_strings) sample_root sample_tree"
  using sample_body sample_lengths(1)
  by (auto simp: node_rep_def sample_root_def sample_tree_def)

lemma sample_fdt: obtains f where "fdt_from_ptr sample_memory sample_address = Ok f"
  using sample_accepted by (cases "fdt_from_ptr sample_memory sample_address") auto

end
