(* ===== verification/Address.thy ===== *)
theory Address
  imports Prelude
begin

text \<open>
  Addresses and address ranges of the kernel, \<open>kernel/src/memory/address.rs\<close> and
  \<open>kernel/src/memory.rs\<close>.  A kernel \<open>usize\<close> is a 64-bit word; every addition that may wrap is
  \<open>checked_add\<close> as in the source.  \<open>addrs\<close> and \<open>vaddrs\<close> are the sets of addresses a
  range covers, and the lemmas say what \<open>overlaps\<close> and the constructors mean for them.
\<close>

section \<open>Model\<close>

type_synonym kusize = "64 word"

datatype PhysAddr = PhysAddr (pa_as_usize: kusize)

datatype VirtAddr = VirtAddr (va_as_usize: kusize)

definition phys_checked_add :: "PhysAddr \<Rightarrow> kusize \<Rightarrow> PhysAddr option" where
  "phys_checked_add a bytes = map_option PhysAddr (checked_add (pa_as_usize a) bytes)"

definition virt_checked_add :: "VirtAddr \<Rightarrow> kusize \<Rightarrow> VirtAddr option" where
  "virt_checked_add a bytes = map_option VirtAddr (checked_add (va_as_usize a) bytes)"

datatype PagePermissions = ReadOnly | ReadWrite | ReadExecute

record phys_range =
  pr_start :: PhysAddr
  pr_end :: PhysAddr

record virt_range =
  vr_start :: VirtAddr
  vr_end :: VirtAddr

definition phys_range_new :: "PhysAddr \<Rightarrow> PhysAddr \<Rightarrow> phys_range option" where
  "phys_range_new start stop =
     (if pa_as_usize stop \<le> pa_as_usize start then None else Some \<lparr>pr_start = start, pr_end = stop\<rparr>)"

definition phys_range_from_start_size :: "PhysAddr \<Rightarrow> kusize \<Rightarrow> phys_range option" where
  "phys_range_from_start_size start sz =
     (if sz = 0 then None else
      case phys_checked_add start sz of None \<Rightarrow> None | Some stop \<Rightarrow> phys_range_new start stop)"

definition phys_overlaps :: "phys_range \<Rightarrow> phys_range \<Rightarrow> bool" where
  "phys_overlaps a b \<longleftrightarrow>
     pa_as_usize (pr_start a) < pa_as_usize (pr_end b) \<and> pa_as_usize (pr_start b) < pa_as_usize (pr_end a)"

definition virt_range_new :: "VirtAddr \<Rightarrow> VirtAddr \<Rightarrow> virt_range option" where
  "virt_range_new start stop =
     (if va_as_usize stop \<le> va_as_usize start then None else Some \<lparr>vr_start = start, vr_end = stop\<rparr>)"

definition virt_range_from_start_size :: "VirtAddr \<Rightarrow> kusize \<Rightarrow> virt_range option" where
  "virt_range_from_start_size start sz =
     (if sz = 0 then None else
      case virt_checked_add start sz of None \<Rightarrow> None | Some stop \<Rightarrow> virt_range_new start stop)"

definition virt_overlaps :: "virt_range \<Rightarrow> virt_range \<Rightarrow> bool" where
  "virt_overlaps a b \<longleftrightarrow>
     va_as_usize (vr_start a) < va_as_usize (vr_end b) \<and> va_as_usize (vr_start b) < va_as_usize (vr_end a)"

section \<open>Ranges as sets of addresses\<close>

abbreviation pa :: "PhysAddr \<Rightarrow> nat" where
  "pa a \<equiv> unat (pa_as_usize a)"

abbreviation va :: "VirtAddr \<Rightarrow> nat" where
  "va a \<equiv> unat (va_as_usize a)"

definition addrs :: "phys_range \<Rightarrow> nat set" where
  "addrs r = {pa (pr_start r) ..< pa (pr_end r)}"

definition vaddrs :: "virt_range \<Rightarrow> nat set" where
  "vaddrs r = {va (vr_start r) ..< va (vr_end r)}"

definition phys_range_ok :: "phys_range \<Rightarrow> bool" where
  "phys_range_ok r \<longleftrightarrow> pa (pr_start r) < pa (pr_end r)"

definition virt_range_ok :: "virt_range \<Rightarrow> bool" where
  "virt_range_ok r \<longleftrightarrow> va (vr_start r) < va (vr_end r)"

lemma unat_kusize: "unat (w :: kusize) < 18446744073709551616"
  using unat_lt2p [of w] by simp

lemma phys_checked_add_Some:
  "phys_checked_add a n = Some b \<longleftrightarrow> pa b = pa a + unat n"
  by (cases b) (auto simp: phys_checked_add_def checked_add_SomeD)

lemma phys_checked_add_None: "phys_checked_add a n = None \<longleftrightarrow> 18446744073709551616 \<le> pa a + unat n"
  by (simp add: phys_checked_add_def checked_add_None)

lemma virt_checked_add_Some:
  "virt_checked_add a n = Some b \<longleftrightarrow> va b = va a + unat n"
  by (cases b) (auto simp: virt_checked_add_def checked_add_SomeD)

lemma virt_checked_add_None: "virt_checked_add a n = None \<longleftrightarrow> 18446744073709551616 \<le> va a + unat n"
  by (simp add: virt_checked_add_def checked_add_None)

lemma phys_range_new_Some:
  "phys_range_new a b = Some r \<longleftrightarrow> pa a < pa b \<and> r = \<lparr>pr_start = a, pr_end = b\<rparr>"
  by (auto simp: phys_range_new_def word_le_nat_alt)

lemma virt_range_new_Some:
  "virt_range_new a b = Some r \<longleftrightarrow> va a < va b \<and> r = \<lparr>vr_start = a, vr_end = b\<rparr>"
  by (auto simp: virt_range_new_def word_le_nat_alt)

text \<open>A range of a given start and size exists exactly when it is not empty and does not wrap.\<close>

lemma phys_range_from_start_size_Some:
  "phys_range_from_start_size a n = Some r \<longleftrightarrow>
     0 < unat n \<and> pr_start r = a \<and> pa (pr_end r) = pa a + unat n"
proof (cases "phys_checked_add a n")
  case None
  moreover from this have "18446744073709551616 \<le> pa a + unat n" by (simp add: phys_checked_add_None)
  ultimately show ?thesis
    using unat_kusize [of "pa_as_usize (pr_end r)"] by (auto simp: phys_range_from_start_size_def)
next
  case (Some b)
  then have "pa b = pa a + unat n" by (simp add: phys_checked_add_Some)
  with Some show ?thesis
    by (cases r, cases b)
      (auto simp: phys_range_from_start_size_def phys_range_new_Some word_unat_eq_iff PhysAddr.expand)
qed

lemma phys_range_from_start_size_ex:
  "(\<exists>r. phys_range_from_start_size a n = Some r) \<longleftrightarrow> 0 < unat n \<and> pa a + unat n < 2 ^ 64"
proof
  assume "0 < unat n \<and> pa a + unat n < 2 ^ 64"
  then have "phys_range_from_start_size a n = Some \<lparr>pr_start = a, pr_end = PhysAddr (pa_as_usize a + n)\<rparr>"
    by (simp add: phys_range_from_start_size_Some unat_word_ariths)
  then show "\<exists>r. phys_range_from_start_size a n = Some r" ..
next
  assume "\<exists>r. phys_range_from_start_size a n = Some r"
  then obtain r where "phys_range_from_start_size a n = Some r" ..
  then have "0 < unat n" "pa (pr_end r) = pa a + unat n" by (auto simp: phys_range_from_start_size_Some)
  then show "0 < unat n \<and> pa a + unat n < 2 ^ 64" using unat_kusize [of "pa_as_usize (pr_end r)"] by simp
qed

lemma virt_range_from_start_size_Some:
  "virt_range_from_start_size a n = Some r \<longleftrightarrow>
     0 < unat n \<and> vr_start r = a \<and> va (vr_end r) = va a + unat n"
proof (cases "virt_checked_add a n")
  case None
  moreover from this have "18446744073709551616 \<le> va a + unat n" by (simp add: virt_checked_add_None)
  ultimately show ?thesis
    using unat_kusize [of "va_as_usize (vr_end r)"] by (auto simp: virt_range_from_start_size_def)
next
  case (Some b)
  then have "va b = va a + unat n" by (simp add: virt_checked_add_Some)
  with Some show ?thesis
    by (cases r, cases b)
      (auto simp: virt_range_from_start_size_def virt_range_new_Some word_unat_eq_iff VirtAddr.expand)
qed

lemma phys_overlaps_addrs:
  assumes "phys_range_ok a" "phys_range_ok b"
  shows "phys_overlaps a b \<longleftrightarrow> addrs a \<inter> addrs b \<noteq> {}"
  using assms
  by (auto simp: phys_overlaps_def addrs_def phys_range_ok_def word_less_nat_alt max_def min_def)

lemma virt_overlaps_vaddrs:
  assumes "virt_range_ok a" "virt_range_ok b"
  shows "virt_overlaps a b \<longleftrightarrow> vaddrs a \<inter> vaddrs b \<noteq> {}"
  using assms
  by (auto simp: virt_overlaps_def vaddrs_def virt_range_ok_def word_less_nat_alt max_def min_def)

end
