(* ===== verification/Frame.thy ===== *)
theory Frame
  imports Address
begin

text \<open>
  Physical frames, \<open>kernel/src/memory/frame.rs\<close>: construction, rounding to frame boundaries, and
  the interface of frame allocators as a locale.  \<open>frame_no\<close> numbers the frames.
\<close>

section \<open>Model\<close>

definition FRAME_SIZE :: kusize where
  "FRAME_SIZE = 4096"

datatype PhysFrame = PhysFrame (pf_start_address: PhysAddr)

datatype AllocatedFrame = AllocatedFrame (af_frame: PhysFrame)

definition phys_frame_from_start :: "PhysAddr \<Rightarrow> PhysFrame option" where
  "phys_frame_from_start start =
     (if pa_as_usize start mod FRAME_SIZE \<noteq> 0 then None else
      if phys_checked_add start FRAME_SIZE = None then None else Some (PhysFrame start))"

definition phys_frame_range :: "PhysFrame \<Rightarrow> (phys_range, 'e) res" where
  "phys_frame_range f = expect_some (phys_range_from_start_size (pf_start_address f) FRAME_SIZE)"

definition align_up :: "PhysAddr \<Rightarrow> PhysAddr option" where
  "align_up address = (
     let v = pa_as_usize address; remainder = v mod FRAME_SIZE in
     if remainder = 0 then Some address else
     case checked_sub FRAME_SIZE remainder of
       None \<Rightarrow> None
     | Some adjustment \<Rightarrow> phys_checked_add address adjustment)"

definition align_down :: "PhysAddr \<Rightarrow> PhysAddr" where
  "align_down address = (let v = pa_as_usize address in PhysAddr (v - v mod FRAME_SIZE))"

section \<open>Frame boundaries\<close>

definition round_up :: "nat \<Rightarrow> nat" where
  "round_up n = (n + 4095) div 4096 * 4096"

definition round_down :: "nat \<Rightarrow> nat" where
  "round_down n = n div 4096 * 4096"

lemma round_up_cases: "round_up n = (if n mod 4096 = 0 then n else n + (4096 - n mod 4096))"
proof -
  define q r where "q = n div 4096" and "r = n mod 4096"
  have n: "n = q * 4096 + r" and r: "r < 4096" by (simp_all add: q_def r_def)
  have "(n + 4095) div 4096 = q + (r + 4095) div 4096" by (simp add: n add.assoc)
  moreover have "(r + 4095) div 4096 = (if r = 0 then 0 else 1)" using r by (auto intro: div_nat_eqI)
  ultimately show ?thesis using r by (simp add: round_up_def n r_def [symmetric])
qed

lemma round_up_le: "n \<le> m * 4096 \<longleftrightarrow> round_up n \<le> m * 4096"
proof -
  have "(n + 4095) div 4096 \<le> m \<longleftrightarrow> n + 4095 < Suc m * 4096" by (simp add: div_less_iff_less_mult less_Suc_eq_le [symmetric] del: mult_Suc)
  then show ?thesis by (simp add: round_up_def) linarith
qed

lemma round_up_ge: "n \<le> round_up n"
  using round_up_le [of n "round_up n div 4096"] by (simp add: round_up_def)

lemma round_up_aligned [simp]: "round_up n mod 4096 = 0"
  by (simp add: round_up_def)

lemma round_down_aligned [simp]: "round_down n mod 4096 = 0"
  by (simp add: round_down_def)

lemma round_down_le: "round_down n \<le> n"
  by (simp add: round_down_def)

section \<open>Frames by number\<close>

lemma unat_FRAME_SIZE [simp]: "unat FRAME_SIZE = 4096"
  by (simp add: FRAME_SIZE_def)

lemma unat_mod_FRAME_SIZE [simp]: "unat (w mod FRAME_SIZE) = unat w mod 4096"
  by (simp add: unat_mod FRAME_SIZE_def)

lemma mod_FRAME_SIZE_eq_0: "w mod FRAME_SIZE = 0 \<longleftrightarrow> unat w mod 4096 = 0"
  by (metis unat_mod_FRAME_SIZE unat_eq_0)

definition frame_aligned :: "PhysAddr \<Rightarrow> bool" where
  "frame_aligned a \<longleftrightarrow> pa a mod 4096 = 0"

definition frame_ok :: "PhysFrame \<Rightarrow> bool" where
  "frame_ok f \<longleftrightarrow> frame_aligned (pf_start_address f) \<and> pa (pf_start_address f) + 4096 < 2 ^ 64"

definition frame_no :: "PhysFrame \<Rightarrow> nat" where
  "frame_no f = pa (pf_start_address f) div 4096"

definition frame_addrs :: "nat \<Rightarrow> nat set" where
  "frame_addrs k = {k * 4096 ..< k * 4096 + 4096}"

lemma phys_frame_from_start_Some:
  "phys_frame_from_start a = Some f \<longleftrightarrow> frame_aligned a \<and> pa a + 4096 < 2 ^ 64 \<and> f = PhysFrame a"
proof -
  have "phys_checked_add a FRAME_SIZE \<noteq> None \<longleftrightarrow> pa a + 4096 < 2 ^ 64"
    by (simp add: phys_checked_add_None not_le)
  then show ?thesis by (auto simp: phys_frame_from_start_def mod_FRAME_SIZE_eq_0 frame_aligned_def)
qed

lemma phys_frame_range_eq:
  assumes "frame_ok f"
  shows "\<exists>r. phys_frame_range f = Ok r \<and> pr_start r = pf_start_address f \<and>
    pa (pr_end r) = pa (pf_start_address f) + 4096 \<and> phys_range_ok r \<and> addrs r = frame_addrs (frame_no f)"
proof -
  define stop where "stop = PhysAddr (pa_as_usize (pf_start_address f) + FRAME_SIZE)"
  have stop: "pa stop = pa (pf_start_address f) + 4096"
    using assms by (simp add: stop_def frame_ok_def unat_word_ariths)
  let ?r = "\<lparr>pr_start = pf_start_address f, pr_end = stop\<rparr>"
  have "phys_range_from_start_size (pf_start_address f) FRAME_SIZE = Some ?r"
    by (simp add: phys_range_from_start_size_Some stop)
  moreover have "addrs ?r = frame_addrs (frame_no f)"
    using assms stop by (auto simp: addrs_def frame_addrs_def frame_no_def frame_ok_def frame_aligned_def)
  ultimately show ?thesis using stop by (auto simp: phys_frame_range_def phys_range_ok_def intro!: exI [of _ ?r])
qed

text \<open>Rounding up gives the least frame boundary at or above, unless it does not exist.\<close>

lemma align_up_Some:
  "align_up a = Some b \<longleftrightarrow> pa b = round_up (pa a)"
proof -
  let ?v = "pa_as_usize a" and ?n = "pa a"
  note boundary = round_up_cases [of ?n]
  show ?thesis
  proof (cases "?n mod 4096 = 0")
    case True
    then show ?thesis
      using boundary by (auto simp: align_up_def mod_FRAME_SIZE_eq_0 Let_def PhysAddr.expand word_unat_eq_iff)
  next
    case False
    have "checked_sub FRAME_SIZE (?v mod FRAME_SIZE) \<noteq> None" by (simp add: checked_sub_None)
    then obtain adj where adj: "checked_sub FRAME_SIZE (?v mod FRAME_SIZE) = Some adj" by blast
    then have "unat adj = 4096 - ?n mod 4096" by (simp add: checked_sub_SomeD)
    with False adj boundary show ?thesis
      by (auto simp: align_up_def mod_FRAME_SIZE_eq_0 Let_def phys_checked_add_Some)
  qed
qed

lemma align_up_None: "align_up a = None \<longleftrightarrow> 2 ^ 64 - 4096 < pa a"
proof
  assume none: "align_up a = None"
  show "2 ^ 64 - 4096 < pa a"
  proof (rule ccontr)
    assume "\<not> ?thesis"
    then have "round_up (pa a) \<le> 4503599627370495 * 4096" using round_up_le [of "pa a" 4503599627370495] by simp
    then have "unat (word_of_nat (round_up (pa a)) :: kusize) = round_up (pa a)" by (simp add: unat_of_nat)
    then have "align_up a = Some (PhysAddr (word_of_nat (round_up (pa a))))" by (simp add: align_up_Some)
    with none show False by simp
  qed
next
  assume big: "2 ^ 64 - 4096 < pa a"
  show "align_up a = None"
  proof (cases "align_up a")
    case (Some b)
    then have "pa b = round_up (pa a)" by (simp add: align_up_Some)
    moreover have "\<not> round_up (pa a) \<le> 4503599627370495 * 4096"
      using big round_up_le [of "pa a" 4503599627370495] by simp
    moreover have "pa b \<le> 4503599627370495 * 4096" if "pa b mod 4096 = 0"
      using that unat_kusize [of "pa_as_usize b"] div_le_mono [of "pa b" 18446744073709551615 4096]
      by (auto simp: dvd_eq_mod_eq_0 [symmetric] elim!: dvdE)
    ultimately show ?thesis by (metis round_up_aligned)
  qed
qed

lemma align_down_eq: "pa (align_down a) = round_down (pa a)"
proof -
  have "pa_as_usize a mod FRAME_SIZE \<le> pa_as_usize a" by (simp add: word_le_nat_alt)
  then have "pa (align_down a) = pa a - pa a mod 4096" by (simp add: align_down_def unat_sub Let_def)
  then show ?thesis by (simp add: round_down_def minus_mod_eq_div_mult)
qed

text \<open>The same, as least and greatest boundaries.\<close>

lemma boundary_unique:
  assumes "m mod 4096 = 0" "n \<le> m" "m < n + 4096"
  shows "m = round_up n"
proof -
  from assms(1) obtain k where k: "m = k * 4096" by (auto simp: dvd_eq_mod_eq_0 [symmetric] elim!: dvdE)
  have "(n + 4095) div 4096 = k" by (rule div_nat_eqI) (use assms(2,3) k in simp_all)
  then show ?thesis by (simp add: round_up_def k)
qed

lemma round_up_less: "round_up n < n + 4096"
  using round_up_cases [of n] by (cases "n mod 4096 = 0") simp_all

lemma round_down_greater: "n < round_down n + 4096"
proof -
  have "n mod 4096 < 4096" by simp
  moreover have "round_down n = n - n mod 4096" unfolding round_down_def by (rule minus_mod_eq_div_mult [symmetric])
  ultimately show ?thesis by linarith
qed

lemma align_up_boundary:
  "align_up a = Some b \<longleftrightarrow> frame_aligned b \<and> pa a \<le> pa b \<and> pa b < pa a + 4096"
proof
  assume "align_up a = Some b"
  then have "pa b = round_up (pa a)" by (simp add: align_up_Some)
  then show "frame_aligned b \<and> pa a \<le> pa b \<and> pa b < pa a + 4096"
    using round_up_ge [of "pa a"] round_up_less [of "pa a"] by (simp add: frame_aligned_def)
next
  assume "frame_aligned b \<and> pa a \<le> pa b \<and> pa b < pa a + 4096"
  then have "pa b = round_up (pa a)" using boundary_unique by (simp add: frame_aligned_def)
  then show "align_up a = Some b" by (simp add: align_up_Some)
qed

lemma align_down_boundary:
  "frame_aligned (align_down a) \<and> pa (align_down a) \<le> pa a \<and> pa a < pa (align_down a) + 4096"
  unfolding frame_aligned_def align_down_eq using round_down_le round_down_greater by simp

section \<open>The interface of frame allocators\<close>

text \<open>The frames of a sequence of successful allocations.\<close>

inductive allocates :: "('s \<Rightarrow> (AllocatedFrame option \<times> 's, 'e) res) \<Rightarrow> 's \<Rightarrow> PhysFrame list \<Rightarrow> 's \<Rightarrow> bool" for alloc where
  allocates_none: "allocates alloc s [] s"
| allocates_some: "alloc s = Ok (Some f, s') \<Longrightarrow> allocates alloc s' fs s'' \<Longrightarrow> allocates alloc s (af_frame f # fs) s''"

text \<open>
  \<open>FrameAllocator\<close>: the frames an allocator can still give out form a list, and allocation takes
  the first.  What a client relies on, that every frame is well formed and that no frame is given
  out twice, follows.
\<close>

locale frame_allocator =
  fixes allocate :: "'s \<Rightarrow> (AllocatedFrame option \<times> 's, 'e) res"
    and inv :: "'s \<Rightarrow> bool"
    and free :: "'s \<Rightarrow> nat list"
  assumes allocate_empty: "inv s \<Longrightarrow> free s = [] \<Longrightarrow> \<exists>s'. allocate s = Ok (None, s') \<and> inv s' \<and> free s' = []"
    and allocate_next: "inv s \<Longrightarrow> free s = k # ks \<Longrightarrow>
      \<exists>f s'. allocate s = Ok (Some f, s') \<and> inv s' \<and> free s' = ks \<and> frame_ok (af_frame f) \<and> frame_no (af_frame f) = k"
    and free_distinct: "inv s \<Longrightarrow> distinct (free s)"
begin

lemma allocate_never_panics: "inv s \<Longrightarrow> \<exists>r s'. allocate s = Ok (r, s') \<and> inv s'"
  using allocate_empty allocate_next by (cases "free s") blast+

lemma allocate_Some:
  assumes "inv s" "allocate s = Ok (Some f, s')"
  shows "inv s' \<and> free s = frame_no (af_frame f) # free s' \<and> frame_ok (af_frame f)"
  using assms allocate_empty [OF assms(1)] allocate_next [OF assms(1)] by (cases "free s") fastforce+

lemma allocates_prefix:
  assumes "allocates allocate s fs s'" "inv s"
  shows "inv s' \<and> free s = map frame_no fs @ free s' \<and> (\<forall>f\<in>set fs. frame_ok f)"
  using assms by (induction rule: allocates.induct) (auto dest: allocate_Some)

lemma allocates_distinct:
  assumes "allocates allocate s fs s'" "inv s"
  shows "distinct (map frame_no fs)"
  using allocates_prefix [OF assms] free_distinct [OF assms(2)] by (metis distinct_append)

end

end
