(* ===== verification/Boot_Allocator.thy ===== *)
theory Boot_Allocator
  imports Fdt Frame
begin

text \<open>
  The boot-time frame allocator, \<open>kernel/src/memory/frame/boot_allocator.rs\<close>, over the ranges of
  an accepted devicetree.  \<open>free_frames\<close> abstracts an allocator state to the list of frames it
  can still give out; the allocator is shown to implement the \<open>frame_allocator\<close> interface with
  it.  Log output is not modelled.
\<close>

section \<open>Model\<close>

datatype BootFrameAllocatorError =
    OverlappingMemoryRanges phys_range phys_range
  | AlreadyClaimed

record current_memory_range =
  cmr_cursor :: PhysAddr
  cmr_end :: PhysAddr

record boot_frame_allocator =
  ba_fdt :: fdt
  ba_memory_ranges :: memory_ranges
  ba_current :: "current_memory_range option"
  ba_kernel :: phys_range
  ba_dtb :: phys_range

text \<open>The conversions from \<open>u64\<close> cannot fail on a 64-bit target.\<close>

definition fdt_range :: "u64 \<Rightarrow> u64 \<Rightarrow> (phys_range, 'e) res" where
  "fdt_range address sz = expect_some (phys_range_from_start_size (PhysAddr address) sz)"

definition overlap_second :: "phys_range \<Rightarrow> memory_range \<Rightarrow> unit
    \<Rightarrow> ((unit, unit) flow, BootFrameAllocatorError) res" where
  "overlap_second first second _ =
     bind_res (fdt_range (mmr_address second) (mmr_size second)) (\<lambda>second.
     if phys_overlaps first second then Err (OverlappingMemoryRanges first second) else Ok (Continue ()))"

definition overlap_first :: "fdt \<Rightarrow> memory_range \<Rightarrow> usize
    \<Rightarrow> ((usize, unit) flow, BootFrameAllocatorError) res" where
  "overlap_first f first index =
     bind_res (fdt_range (mmr_address first) (mmr_size first)) (\<lambda>first.
     case checked_add_usize index 1 of
       None \<Rightarrow> Ok (Break ())
     | Some next_index \<Rightarrow>
         bind_res (fdt_memory_ranges f) (\<lambda>it.
         bind_res (for_in (\<lambda>_. fdt_fuel f) (skip_next memory_ranges_next) (overlap_second first) (next_index, it) ())
           (\<lambda>_. Ok (Continue next_index))))"

definition validate_memory_ranges :: "fdt \<Rightarrow> (unit, BootFrameAllocatorError) res" where
  "validate_memory_ranges f =
     bind_res (fdt_memory_ranges f) (\<lambda>it.
     bind_res (for_in (\<lambda>_. fdt_fuel f) memory_ranges_next (overlap_first f) it 0) (\<lambda>_. Ok ()))"

text \<open>
  The static flag \<open>BOOT_FRAME_ALLOCATOR_CLAIMED\<close> is an argument and a result.  The call of
  \<open>memory_ranges\<close>, which returns no error, has the error type of the allocator's other uses of it.
\<close>

definition boot_claim :: "bool \<Rightarrow> fdt \<Rightarrow> phys_range \<Rightarrow> phys_range
    \<Rightarrow> (boot_frame_allocator, BootFrameAllocatorError) res \<times> bool" where
  "boot_claim claimed f kernel_rng dtb =
     (case validate_memory_ranges f of
        Ok _ \<Rightarrow>
          if claimed then (Err AlreadyClaimed, claimed)
          else (bind_res (expect (fdt_memory_ranges f :: (memory_ranges, infallible) res)) (\<lambda>memory_ranges.
                  Ok \<lparr>ba_fdt = f, ba_memory_ranges = memory_ranges, ba_current = None,
                      ba_kernel = kernel_rng, ba_dtb = dtb\<rparr>), True)
      | Err e \<Rightarrow> (Err e, claimed)
      | Panic \<Rightarrow> (Panic, claimed)
      | Diverge \<Rightarrow> (Diverge, claimed))"

definition advance_body :: "memory_range \<Rightarrow> unit \<Rightarrow> ((unit, current_memory_range) flow, infallible) res" where
  "advance_body rng _ =
     bind_res (fdt_range (mmr_address rng) (mmr_size rng)) (\<lambda>rng.
     case align_up (pr_start rng) of
       None \<Rightarrow> Ok (Continue ())
     | Some start \<Rightarrow>
         let stop = align_down (pr_end rng) in
         if pa_as_usize stop \<le> pa_as_usize start then Ok (Continue ())
         else Ok (Break \<lparr>cmr_cursor = start, cmr_end = stop\<rparr>))"

definition advance_memory_range ::
    "boot_frame_allocator \<Rightarrow> (bool \<times> boot_frame_allocator, infallible) res" where
  "advance_memory_range ba =
     bind_res (for_in (\<lambda>_. fdt_fuel (ba_fdt ba)) memory_ranges_next advance_body (ba_memory_ranges ba) ())
       (\<lambda>(f, memory_ranges).
     case f of
       Break c \<Rightarrow> Ok (True, ba\<lparr>ba_memory_ranges := memory_ranges, ba_current := Some c\<rparr>)
     | Continue _ \<Rightarrow> Ok (False, ba\<lparr>ba_memory_ranges := memory_ranges\<rparr>))"

definition reservation_body :: "phys_range \<Rightarrow> memory_reservation \<Rightarrow> unit
    \<Rightarrow> ((unit, phys_range) flow, infallible) res" where
  "reservation_body candidate reservation _ =
     (if mr_size reservation = 0 then Ok (Continue ()) else
      bind_res (fdt_range (mr_address reservation) (mr_size reservation)) (\<lambda>rng.
      if phys_overlaps candidate rng then Ok (Break rng) else Ok (Continue ())))"

definition reserved_body :: "phys_range \<Rightarrow> reserved_memory_range \<Rightarrow> unit
    \<Rightarrow> ((unit, phys_range) flow, infallible) res" where
  "reserved_body candidate reservation _ =
     bind_res (fdt_range (rmr_address reservation) (rmr_size reservation)) (\<lambda>rng.
     if phys_overlaps candidate rng then Ok (Break rng) else Ok (Continue ()))"

definition overlapping_reservation ::
    "boot_frame_allocator \<Rightarrow> phys_range \<Rightarrow> (phys_range option, infallible) res" where
  "overlapping_reservation ba candidate =
     (if phys_overlaps candidate (ba_kernel ba) then Ok (Some (ba_kernel ba)) else
      if phys_overlaps candidate (ba_dtb ba) then Ok (Some (ba_dtb ba)) else
      bind_res (for_in mrs_measure memory_reservations_next (reservation_body candidate)
          (fdt_memory_reservations (ba_fdt ba)) ()) (\<lambda>(f, _).
      case f of
        Break rng \<Rightarrow> Ok (Some rng)
      | Continue _ \<Rightarrow>
          bind_res (fdt_reserved_memory_ranges (ba_fdt ba)) (\<lambda>it.
          bind_res (for_in (\<lambda>_. fdt_fuel (ba_fdt ba)) reserved_memory_ranges_next (reserved_body candidate) it ())
            (\<lambda>(f, _).
          case f of Break rng \<Rightarrow> Ok (Some rng) | Continue _ \<Rightarrow> Ok None))))"

definition set_cursor :: "boot_frame_allocator \<Rightarrow> current_memory_range \<Rightarrow> PhysAddr \<Rightarrow> boot_frame_allocator" where
  "set_cursor ba current nxt =
     (if pa_as_usize (cmr_end current) \<le> pa_as_usize nxt then ba\<lparr>ba_current := None\<rparr>
      else ba\<lparr>ba_current := Some \<lparr>cmr_cursor = nxt, cmr_end = cmr_end current\<rparr>\<rparr>)"

text \<open>One iteration: first the test of the candidate at the cursor, then the whole.\<close>

definition allocate_candidate :: "boot_frame_allocator \<Rightarrow> current_memory_range
    \<Rightarrow> ((boot_frame_allocator, AllocatedFrame option \<times> boot_frame_allocator) flow, infallible) res" where
  "allocate_candidate ba current =
     bind_res (expect_some (phys_frame_from_start (cmr_cursor current))) (\<lambda>frame.
     bind_res (phys_frame_range frame) (\<lambda>frame_range.
     bind_res (overlapping_reservation ba frame_range) (\<lambda>hit.
     case hit of
       Some reserved \<Rightarrow>
         (case align_up (pr_end reserved) of
            None \<Rightarrow> Ok (Continue (ba\<lparr>ba_current := None\<rparr>))
          | Some nxt \<Rightarrow> Ok (Continue (set_cursor ba current nxt)))
     | None \<Rightarrow>
         Ok (Break (Some (AllocatedFrame frame), set_cursor ba current (pr_end frame_range))))))"

definition allocate_step :: "boot_frame_allocator
    \<Rightarrow> ((boot_frame_allocator, AllocatedFrame option \<times> boot_frame_allocator) flow, infallible) res" where
  "allocate_step ba =
     bind_res (if ba_current ba = None then advance_memory_range ba else Ok (True, ba)) (\<lambda>(found, ba).
     if \<not> found then Ok (Break (None, ba)) else
     case ba_current ba of
       None \<Rightarrow> Ok (Break (None, ba))
     | Some current \<Rightarrow> allocate_candidate ba current)"

text \<open>
  The ranges an allocator has still to visit.  The measure of the allocation loop is their number
  and, within one, the distance of the cursor to the end; it is not meant to be computed.
\<close>

definition ba_ranges :: "boot_frame_allocator \<Rightarrow> memory_range list" where
  "ba_ranges ba =
     collect (fdt_fuel (ba_fdt ba)) (memory_ranges_next :: (_, _, infallible) iter_next) (ba_memory_ranges ba)"

definition current_left :: "boot_frame_allocator \<Rightarrow> nat" where
  "current_left ba = (case ba_current ba of None \<Rightarrow> 0 | Some c \<Rightarrow> pa (cmr_end c) - pa (cmr_cursor c))"

definition ba_measure :: "boot_frame_allocator \<Rightarrow> nat" where
  "ba_measure ba = length (ba_ranges ba) * 2 ^ 64 + current_left ba"

definition allocate ::
    "boot_frame_allocator \<Rightarrow> (AllocatedFrame option \<times> boot_frame_allocator, infallible) res" where
  "allocate ba = run ba_measure allocate_step ba"

lemma allocate_code [code]:
  "allocate ba =
     loop_int (int (length (ba_ranges ba)) * 18446744073709551616 +
       (case ba_current ba of
          None \<Rightarrow> 0
        | Some c \<Rightarrow> max 0 (uint (pa_as_usize (cmr_end c)) - uint (pa_as_usize (cmr_cursor c)))) + 1) allocate_step ba"
proof -
  have "int (pa e - pa c) = max 0 (uint (pa_as_usize e) - uint (pa_as_usize c))" for c e
  proof -
    have "int (m - n) = max 0 (int m - int n)" for m n by simp
    then show ?thesis unfolding uint_nat .
  qed
  then show ?thesis by (simp add: allocate_def run_loop_int ba_measure_def current_left_def split: option.split)
qed

section \<open>The frames left\<close>

text \<open>The range of validated devicetree values, and the reserved ranges in the order they are checked.\<close>

definition range_at :: "u64 \<Rightarrow> u64 \<Rightarrow> phys_range" where
  "range_at address sz = \<lparr>pr_start = PhysAddr address, pr_end = PhysAddr (address + sz)\<rparr>"

definition ba_reserved :: "boot_frame_allocator \<Rightarrow> phys_range list" where
  "ba_reserved ba =
     [ba_kernel ba, ba_dtb ba] @
     map (\<lambda>x. range_at (mr_address x) (mr_size x))
       (filter (\<lambda>x. mr_size x \<noteq> 0)
          (collect (mrs_measure (fdt_memory_reservations (ba_fdt ba)))
             (memory_reservations_next :: (_, _, infallible) iter_next) (fdt_memory_reservations (ba_fdt ba)))) @
     (case (fdt_reserved_memory_ranges (ba_fdt ba) :: (_, infallible) res) of
        Ok it \<Rightarrow> map (\<lambda>x. range_at (rmr_address x) (rmr_size x))
          (collect (fdt_fuel (ba_fdt ba)) (reserved_memory_ranges_next :: (_, _, infallible) iter_next) it)
      | _ \<Rightarrow> [])"

definition reserved_frame :: "phys_range list \<Rightarrow> nat \<Rightarrow> bool" where
  "reserved_frame R k \<longleftrightarrow> (\<exists>r\<in>set R. frame_addrs k \<inter> addrs r \<noteq> {})"

definition mem_region :: "memory_range \<Rightarrow> nat set" where
  "mem_region r = {unat (mmr_address r) ..< unat (mmr_address r) + unat (mmr_size r)}"

definition mem_frames :: "memory_range \<Rightarrow> nat list" where
  "mem_frames r =
     [round_up (unat (mmr_address r)) div 4096 ..< (unat (mmr_address r) + unat (mmr_size r)) div 4096]"

definition cur_frames :: "current_memory_range option \<Rightarrow> nat list" where
  "cur_frames c = (case c of None \<Rightarrow> [] | Some c \<Rightarrow> [pa (cmr_cursor c) div 4096 ..< pa (cmr_end c) div 4096])"

definition free_frames :: "boot_frame_allocator \<Rightarrow> nat list" where
  "free_frames ba =
     filter (\<lambda>k. \<not> reserved_frame (ba_reserved ba) k) (cur_frames (ba_current ba) @ concat (map mem_frames (ba_ranges ba)))"

section \<open>Ranges of validated values\<close>

definition mem_ok :: "memory_range \<Rightarrow> bool" where
  "mem_ok r \<longleftrightarrow> 0 < unat (mmr_size r) \<and> unat (mmr_address r) + unat (mmr_size r) < 2 ^ 64"

lemma range_at_props:
  assumes "0 < unat sz" "unat a + unat sz < 2 ^ 64"
  shows "fdt_range a sz = Ok (range_at a sz)" "phys_range_ok (range_at a sz)"
    "addrs (range_at a sz) = {unat a ..< unat a + unat sz}" "pa (pr_end (range_at a sz)) = unat a + unat sz"
proof -
  have e: "unat (a + sz) = unat a + unat sz" using assms(2) by (simp add: unat_word_ariths)
  then show "fdt_range a sz = Ok (range_at a sz)"
    using assms(1) by (simp add: fdt_range_def phys_range_from_start_size_Some range_at_def)
  show "phys_range_ok (range_at a sz)" "addrs (range_at a sz) = {unat a ..< unat a + unat sz}"
    "pa (pr_end (range_at a sz)) = unat a + unat sz"
    using e assms(1) by (auto simp: phys_range_ok_def addrs_def range_at_def)
qed

lemma memory_range_of_ok: "range_ok r \<Longrightarrow> mem_ok (memory_range_of r)"
  by (cases r) (auto simp: range_ok_def mem_ok_def memory_range_of_def unat_of_nat)

lemma mem_region_of: "range_ok r \<Longrightarrow> mem_region (memory_range_of r) = {fst r ..< fst r + snd r}"
  by (cases r) (auto simp: range_ok_def mem_region_def memory_range_of_def unat_of_nat)

lemma reserved_range_of_ok:
  "range_ok r \<Longrightarrow> 0 < unat (rmr_size (reserved_memory_range_of r)) \<and>
     unat (rmr_address (reserved_memory_range_of r)) + unat (rmr_size (reserved_memory_range_of r)) < 2 ^ 64"
  by (cases r) (auto simp: range_ok_def reserved_memory_range_of_def unat_of_nat)

section \<open>The reserved ranges\<close>

lemma fdt_rep_reservations_length:
  "fdt_rep f t xs \<Longrightarrow> length xs \<le> mrs_measure (fdt_memory_reservations f)"
  by (simp add: fdt_rep_def mrs_measure_def fdt_memory_reservations_def reservations_iter_def)

lemma ba_reserved_eq:
  assumes "fdt_rep (ba_fdt ba) t xs"
  shows "ba_reserved ba = [ba_kernel ba, ba_dtb ba] @
     map (\<lambda>x. range_at (mr_address x) (mr_size x)) (filter (\<lambda>x. mr_size x \<noteq> 0) xs) @
     map (\<lambda>x. range_at (rmr_address x) (rmr_size x)) (map reserved_memory_range_of (dt_reserved t))"
proof -
  obtain it where it: "(fdt_reserved_memory_ranges (ba_fdt ba) :: (_, infallible) res) = Ok it"
      "yields (reserved_memory_ranges_next :: (_, _, infallible) iter_next) it (map reserved_memory_range_of (dt_reserved t))"
    using fdt_reserved_memory_ranges_yields [OF assms] by blast
  have "collect (fdt_fuel (ba_fdt ba)) (reserved_memory_ranges_next :: (_, _, infallible) iter_next) it =
      map reserved_memory_range_of (dt_reserved t)"
    using collect_yields [OF it(2)] fdt_counts(2) [OF assms] by simp
  moreover have "collect (mrs_measure (fdt_memory_reservations (ba_fdt ba)))
      (memory_reservations_next :: (_, _, infallible) iter_next) (fdt_memory_reservations (ba_fdt ba)) = xs"
    by (rule collect_yields [OF fdt_memory_reservations_yields [OF assms] fdt_rep_reservations_length [OF assms]])
  ultimately show ?thesis by (simp add: ba_reserved_def it(1))
qed

lemma first_split_find': "(case first_split (\<lambda>x. if p x then Some (g x) else None) xs of None \<Rightarrow> Continue () | Some (b, _) \<Rightarrow> Break b) =
    (case List.find p xs of None \<Rightarrow> Continue () | Some x \<Rightarrow> Break (g x))"
  by (induction xs) auto

lemma find_filter: "List.find p (filter q xs) = List.find (\<lambda>x. q x \<and> p x) xs"
  by (induction xs) auto

lemma find_map: "List.find p (map g xs) = map_option g (List.find (\<lambda>x. p (g x)) xs)"
  by (induction xs) auto

lemma find_append: "List.find p (xs @ ys) = (case List.find p xs of None \<Rightarrow> List.find p ys | Some x \<Rightarrow> Some x)"
  by (induction xs) auto

lemma overlapping_reservation_eq:
  assumes "fdt_rep (ba_fdt ba) t xs"
  shows "overlapping_reservation ba cand = Ok (List.find (phys_overlaps cand) (ba_reserved ba))"
proof -
  have ok: "range_ok r" if "r \<in> set (dt_reserved t)" for r
    using that assms reserved_ok_ranges by (auto simp: fdt_rep_def semantics_ok_def)
  let ?h1 = "\<lambda>x. if mr_size x \<noteq> 0 \<and> phys_overlaps cand (range_at (mr_address x) (mr_size x))
      then Some (range_at (mr_address x) (mr_size x)) else None"
  let ?h2 = "\<lambda>x. if phys_overlaps cand (range_at (rmr_address x) (rmr_size x))
      then Some (range_at (rmr_address x) (rmr_size x)) else None"
  have body1: "reservation_body cand x () = Ok (case ?h1 x of None \<Rightarrow> Continue () | Some b \<Rightarrow> Break b)" if "x \<in> set xs" for x
  proof (cases "mr_size x = 0")
    case False
    moreover have "unat (mr_address x) + unat (mr_size x) < 2 ^ 64"
      using assms that by (auto simp: fdt_rep_def entry_ok_def)
    ultimately show ?thesis
      using range_at_props(1) [of "mr_size x" "mr_address x", where ?'a = infallible]
      by (simp add: reservation_body_def unat_gt_0)
  qed (simp add: reservation_body_def)
  have body2: "reserved_body cand x () = Ok (case ?h2 x of None \<Rightarrow> Continue () | Some b \<Rightarrow> Break b)"
    if "x \<in> set (map reserved_memory_range_of (dt_reserved t))" for x
  proof -
    from that obtain r where r: "x = reserved_memory_range_of r" "range_ok r" using ok by auto
    have "(fdt_range (rmr_address x) (rmr_size x) :: (_, infallible) res) = Ok (range_at (rmr_address x) (rmr_size x))"
      using reserved_range_of_ok [OF r(2)] r(1) by (simp add: range_at_props(1))
    then show ?thesis by (simp add: reserved_body_def)
  qed
  obtain s1 where s1: "for_in mrs_measure memory_reservations_next (reservation_body cand)
      (fdt_memory_reservations (ba_fdt ba)) () =
      Ok (case first_split ?h1 xs of None \<Rightarrow> Continue () | Some (b, _) \<Rightarrow> Break b, s1)"
    using for_in_first [where m = mrs_measure and body = "reservation_body cand" and h = ?h1,
        OF fdt_memory_reservations_yields [OF assms] fdt_rep_reservations_length [OF assms] body1] by blast
  obtain it where it: "(fdt_reserved_memory_ranges (ba_fdt ba) :: (_, infallible) res) = Ok it"
      "yields (reserved_memory_ranges_next :: (_, _, infallible) iter_next) it (map reserved_memory_range_of (dt_reserved t))"
    using fdt_reserved_memory_ranges_yields [OF assms] by blast
  obtain s2 where s2: "for_in (\<lambda>_. fdt_fuel (ba_fdt ba)) reserved_memory_ranges_next (reserved_body cand) it () =
      Ok (case first_split ?h2 (map reserved_memory_range_of (dt_reserved t)) of None \<Rightarrow> Continue () | Some (b, _) \<Rightarrow> Break b, s2)"
    using for_in_first [where m = "\<lambda>_. fdt_fuel (ba_fdt ba)" and body = "reserved_body cand" and h = ?h2,
        OF it(2) _ body2] fdt_counts(2) [OF assms] by auto
  show ?thesis
    unfolding overlapping_reservation_def s1 ba_reserved_eq [OF assms] first_split_find'
    by (auto simp: it(1) s2 [unfolded first_split_find'] find_append find_filter find_map comp_def split: option.split)
qed

lemma ba_reserved_ok:
  assumes "fdt_rep (ba_fdt ba) t xs" "phys_range_ok (ba_kernel ba)" "phys_range_ok (ba_dtb ba)"
  shows "\<forall>r\<in>set (ba_reserved ba). phys_range_ok r"
proof -
  have "range_ok r" if "r \<in> set (dt_reserved t)" for r
    using that assms reserved_ok_ranges by (auto simp: fdt_rep_def semantics_ok_def)
  then show ?thesis
    unfolding ba_reserved_eq [OF assms(1)] using assms reserved_range_of_ok
    by (auto simp: fdt_rep_def entry_ok_def unat_gt_0 intro!: range_at_props(2))
qed

end
