(* ===== verification/Boot_Allocator_Correct.thy ===== *)
theory Boot_Allocator_Correct
  imports Boot_Allocator
begin

text \<open>
  The boot allocator implements the \<open>frame_allocator\<close> interface: from a state that satisfies
  \<open>ba_inv\<close>, \<open>allocate\<close> gives out exactly the frames of \<open>free_frames\<close>, in order, and never
  panics.  \<open>boot_claim\<close> establishes the invariant.
\<close>

section \<open>Invariant\<close>

definition cur_ok :: "current_memory_range \<Rightarrow> bool" where
  "cur_ok c \<longleftrightarrow> frame_aligned (cmr_cursor c) \<and> frame_aligned (cmr_end c) \<and> pa (cmr_cursor c) < pa (cmr_end c)"

definition cur_region :: "current_memory_range option \<Rightarrow> nat set" where
  "cur_region c = (case c of None \<Rightarrow> {} | Some c \<Rightarrow> {pa (cmr_cursor c) ..< pa (cmr_end c)})"

definition ranges_left :: "boot_frame_allocator \<Rightarrow> memory_range list \<Rightarrow> bool" where
  "ranges_left ba rs \<longleftrightarrow>
     yields (memory_ranges_next :: (_, _, infallible) iter_next) (ba_memory_ranges ba) rs \<and>
     length rs \<le> fdt_fuel (ba_fdt ba) \<and> (\<forall>r\<in>set rs. mem_ok r) \<and>
     sorted_wrt (\<lambda>x y. mem_region x \<inter> mem_region y = {}) rs \<and>
     (\<forall>r\<in>set rs. cur_region (ba_current ba) \<inter> mem_region r = {})"

definition ba_inv :: "boot_frame_allocator \<Rightarrow> bool" where
  "ba_inv ba \<longleftrightarrow>
     (\<exists>t xs. fdt_rep (ba_fdt ba) t xs) \<and> (\<exists>rs. ranges_left ba rs) \<and>
     (case ba_current ba of None \<Rightarrow> True | Some c \<Rightarrow> cur_ok c) \<and>
     phys_range_ok (ba_kernel ba) \<and> phys_range_ok (ba_dtb ba)"

lemma ba_ranges_eq: "ranges_left ba rs \<Longrightarrow> ba_ranges ba = rs"
  by (simp add: ranges_left_def ba_ranges_def collect_yields)

lemma ba_current_update [simp]:
  "ba_reserved (ba\<lparr>ba_current := c\<rparr>) = ba_reserved ba" "ba_ranges (ba\<lparr>ba_current := c\<rparr>) = ba_ranges ba"
  by (simp_all add: ba_reserved_def ba_ranges_def cong: res.case_cong)

lemma ranges_left_current:
  assumes "ranges_left ba rs" "cur_region c \<subseteq> cur_region (ba_current ba)"
  shows "ranges_left (ba\<lparr>ba_current := c\<rparr>) rs"
  using assms by (fastforce simp: ranges_left_def)

lemma ba_inv_current:
  assumes "ba_inv ba" "cur_region c \<subseteq> cur_region (ba_current ba)" "case c of None \<Rightarrow> True | Some c \<Rightarrow> cur_ok c"
  shows "ba_inv (ba\<lparr>ba_current := c\<rparr>)"
  using assms ranges_left_current [OF _ assms(2)] by (auto simp: ba_inv_def)

section \<open>Frames and reservations\<close>

lemma frame_reserved:
  assumes "r \<in> set R" "pa (pr_start r) < k * 4096 + 4096" "k \<le> j" "j * 4096 < pa (pr_end r)"
    "phys_range_ok r"
  shows "reserved_frame R j"
proof -
  have "k * 4096 \<le> j * 4096" using assms(3) by simp
  then have "max (j * 4096) (pa (pr_start r)) \<in> frame_addrs j \<inter> addrs r"
    using assms by (auto simp: frame_addrs_def addrs_def phys_range_ok_def max_def)
  then show ?thesis using assms(1) by (auto simp: reserved_frame_def)
qed

lemma filter_upt_skip:
  assumes "\<And>j. k \<le> j \<Longrightarrow> j < n \<Longrightarrow> j < m \<Longrightarrow> \<not> P j" "k \<le> n"
  shows "filter P [k..<m] = filter P [n..<m]"
proof (cases "n \<le> m")
  case True
  then have "[k..<m] = [k..<n] @ [n..<m]" using assms(2) by (metis le_Suc_ex upt_add_eq_append)
  moreover have "filter P [k..<n] = []" using assms True by (auto simp: filter_empty_conv)
  ultimately show ?thesis by simp
next
  case False
  then show ?thesis using assms by (auto simp: filter_empty_conv)
qed

lemma set_cursor_current:
  assumes "cur_ok c" "frame_aligned nxt"
  shows "\<exists>c'. set_cursor ba c nxt = ba\<lparr>ba_current := c'\<rparr> \<and>
    cur_frames c' = [pa nxt div 4096 ..< pa (cmr_end c) div 4096] \<and>
    (case c' of None \<Rightarrow> True | Some d \<Rightarrow> cur_ok d) \<and>
    (pa (cmr_cursor c) < pa nxt \<longrightarrow> cur_region c' \<subseteq> cur_region (Some c) \<and>
       (case c' of None \<Rightarrow> 0 | Some d \<Rightarrow> pa (cmr_end d) - pa (cmr_cursor d)) < pa (cmr_end c) - pa (cmr_cursor c))"
proof (cases "pa_as_usize (cmr_end c) \<le> pa_as_usize nxt")
  case True
  then have "pa (cmr_end c) \<le> pa nxt" by (simp add: word_le_nat_alt)
  then have "pa (cmr_end c) div 4096 \<le> pa nxt div 4096" by (rule div_le_mono)
  with True assms show ?thesis
    by (intro exI [of _ None]) (simp add: set_cursor_def cur_frames_def cur_region_def cur_ok_def)
next
  case False
  with assms show ?thesis
    by (intro exI [of _ "Some \<lparr>cmr_cursor = nxt, cmr_end = cmr_end c\<rparr>"])
      (auto simp: set_cursor_def cur_frames_def cur_region_def cur_ok_def word_le_nat_alt)
qed

lemma aligned_step: "a mod 4096 = 0 \<Longrightarrow> b mod 4096 = 0 \<Longrightarrow> a < b \<Longrightarrow> a + 4096 \<le> (b::nat)"
  by (auto simp: dvd_eq_mod_eq_0 [symmetric] elim!: dvdE)

section \<open>One candidate\<close>

lemma candidate_frame:
  assumes "cur_ok c"
  obtains r where "phys_frame_from_start (cmr_cursor c) = Some (PhysFrame (cmr_cursor c))"
    "phys_frame_range (PhysFrame (cmr_cursor c)) = Ok r" "frame_ok (PhysFrame (cmr_cursor c))"
    "pr_start r = cmr_cursor c" "pa (pr_end r) = pa (cmr_cursor c) + 4096" "phys_range_ok r"
    "addrs r = frame_addrs (pa (cmr_cursor c) div 4096)"
proof -
  have "pa (cmr_cursor c) + 4096 \<le> pa (cmr_end c)"
    using assms aligned_step by (simp add: cur_ok_def frame_aligned_def)
  then have small: "pa (cmr_cursor c) + 4096 < 2 ^ 64" using unat_kusize [of "pa_as_usize (cmr_end c)"] by simp
  with assms have "frame_ok (PhysFrame (cmr_cursor c))" by (simp add: frame_ok_def cur_ok_def)
  moreover have "phys_frame_from_start (cmr_cursor c) = Some (PhysFrame (cmr_cursor c))"
    using small assms by (simp add: phys_frame_from_start_Some cur_ok_def)
  ultimately show thesis
    using phys_frame_range_eq [of "PhysFrame (cmr_cursor c)"] that by (auto simp: frame_no_def)
qed

definition step_ok :: "boot_frame_allocator
    \<Rightarrow> ((boot_frame_allocator, AllocatedFrame option \<times> boot_frame_allocator) flow, infallible) res \<Rightarrow> bool" where
  "step_ok ba out \<longleftrightarrow>
     (\<exists>ba'. out = Ok (Break (None, ba')) \<and> ba_inv ba' \<and> free_frames ba = [] \<and> free_frames ba' = []) \<or>
     (\<exists>f ba'. out = Ok (Break (Some f, ba')) \<and> ba_inv ba' \<and> frame_ok (af_frame f) \<and>
        free_frames ba = frame_no (af_frame f) # free_frames ba') \<or>
     (\<exists>ba'. out = Ok (Continue ba') \<and> ba_inv ba' \<and> ba_measure ba' < ba_measure ba \<and> free_frames ba' = free_frames ba)"

lemma free_frames_current:
  "free_frames (ba\<lparr>ba_current := c\<rparr>) =
     filter (\<lambda>k. \<not> reserved_frame (ba_reserved ba) k) (cur_frames c) @
     filter (\<lambda>k. \<not> reserved_frame (ba_reserved ba) k) (concat (map mem_frames (ba_ranges ba)))"
  by (simp add: free_frames_def)

lemma ba_measure_current:
  "ba_measure (ba\<lparr>ba_current := c\<rparr>) =
     length (ba_ranges ba) * 2 ^ 64 + (case c of None \<Rightarrow> 0 | Some d \<Rightarrow> pa (cmr_end d) - pa (cmr_cursor d))"
  by (simp add: ba_measure_def current_left_def)

lemma candidate_free:
  assumes inv: "ba_inv ba" and cur: "ba_current ba = Some c"
    and free: "\<not> reserved_frame (ba_reserved ba) (pa (cmr_cursor c) div 4096)"
    and nxt: "pa nxt = pa (cmr_cursor c) + 4096"
  shows "step_ok ba (Ok (Break (Some (AllocatedFrame (PhysFrame (cmr_cursor c))), set_cursor ba c nxt)))"
proof -
  have c: "cur_ok c" using inv cur by (simp add: ba_inv_def)
  have "frame_aligned nxt" using c nxt by (simp add: cur_ok_def frame_aligned_def)
  from set_cursor_current [OF c this, of ba] nxt obtain c' where
    c': "set_cursor ba c nxt = ba\<lparr>ba_current := c'\<rparr>" "cur_frames c' = [pa nxt div 4096 ..< pa (cmr_end c) div 4096]"
      "case c' of None \<Rightarrow> True | Some d \<Rightarrow> cur_ok d" "cur_region c' \<subseteq> cur_region (Some c)" by auto
  have "pa (cmr_cursor c) div 4096 < pa (cmr_end c) div 4096"
    using c by (auto simp: cur_ok_def frame_aligned_def dvd_eq_mod_eq_0 [symmetric] elim!: dvdE)
  then have "cur_frames (Some c) = pa (cmr_cursor c) div 4096 # cur_frames c'"
    unfolding c'(2) nxt by (simp add: cur_frames_def upt_conv_Cons div_add_self2)
  then have "free_frames (ba\<lparr>ba_current := Some c\<rparr>) = pa (cmr_cursor c) div 4096 # free_frames (ba\<lparr>ba_current := c'\<rparr>)"
    using free by (simp add: free_frames_current)
  moreover have "ba\<lparr>ba_current := Some c\<rparr> = ba" using cur by simp
  moreover have "ba_inv (ba\<lparr>ba_current := c'\<rparr>)" using ba_inv_current [OF inv _ c'(3)] c'(4) cur by simp
  moreover have "frame_ok (PhysFrame (cmr_cursor c))" by (rule candidate_frame [OF c])
  ultimately show ?thesis unfolding step_ok_def c'(1) by (simp add: frame_no_def)
qed

text \<open>
  A candidate that overlaps a reservation: every frame up to the end of the reservation overlaps it
  too, so skipping to the next boundary loses no free frame.
\<close>

lemma candidate_skip:
  assumes inv: "ba_inv ba" and cur: "ba_current ba = Some c" and R: "\<forall>r\<in>set (ba_reserved ba). phys_range_ok r"
    and r: "r \<in> set (ba_reserved ba)" "pa (pr_start r) < pa (cmr_cursor c) + 4096" "pa (cmr_cursor c) < pa (pr_end r)"
  shows "align_up (pr_end r) = None \<Longrightarrow> step_ok ba (Ok (Continue (ba\<lparr>ba_current := None\<rparr>)))"
    and "align_up (pr_end r) = Some nxt \<Longrightarrow> step_ok ba (Ok (Continue (set_cursor ba c nxt)))"
proof -
  let ?k = "pa (cmr_cursor c) div 4096" and ?free = "\<lambda>k. \<not> reserved_frame (ba_reserved ba) k"
  have c: "cur_ok c" using inv cur by (simp add: ba_inv_def)
  have k: "?k * 4096 = pa (cmr_cursor c)" using c by (auto simp: cur_ok_def frame_aligned_def)
  have e: "pa (cmr_end c) div 4096 * 4096 = pa (cmr_end c)" using c by (auto simp: cur_ok_def frame_aligned_def)
  have taken: "reserved_frame (ba_reserved ba) j" if "?k \<le> j" "j * 4096 < pa (pr_end r)" for j
    using frame_reserved [OF r(1) _ that] r R k by simp
  have same: "ba\<lparr>ba_current := Some c\<rparr> = ba" using cur by simp
  note free_cur = free_frames_current [where ba = ba and c = "Some c", unfolded same]
  have meas: "ba_measure ba = length (ba_ranges ba) * 2 ^ 64 + (pa (cmr_end c) - pa (cmr_cursor c))"
    using ba_measure_current [where ba = ba and c = "Some c", unfolded same] by simp
  { assume "align_up (pr_end r) = None"
    then have big: "2 ^ 64 - 4096 < pa (pr_end r)" by (simp add: align_up_None)
    have "reserved_frame (ba_reserved ba) j" if "?k \<le> j" "j < pa (cmr_end c) div 4096" for j
    proof (rule taken [OF that(1)])
      have "j * 4096 + 4096 \<le> pa (cmr_end c) div 4096 * 4096" using that(2) by simp
      then show "j * 4096 < pa (pr_end r)" using big unat_kusize [of "pa_as_usize (cmr_end c)"] e by simp
    qed
    then have "filter ?free (cur_frames (Some c)) = []" by (auto simp: cur_frames_def filter_empty_conv)
    then have "free_frames (ba\<lparr>ba_current := None\<rparr>) = free_frames ba"
      unfolding free_cur free_frames_current by (simp add: cur_frames_def)
    moreover have "ba_inv (ba\<lparr>ba_current := None\<rparr>)" by (rule ba_inv_current [OF inv]) (simp_all add: cur_region_def)
    moreover have "ba_measure (ba\<lparr>ba_current := None\<rparr>) < ba_measure ba"
      unfolding ba_measure_current meas option.case using c [unfolded cur_ok_def] by linarith
    ultimately show "step_ok ba (Ok (Continue (ba\<lparr>ba_current := None\<rparr>)))" unfolding step_ok_def by blast }
  { assume "align_up (pr_end r) = Some nxt"
    then have nxt: "pa nxt = round_up (pa (pr_end r))" by (simp add: align_up_Some)
    then have al: "frame_aligned nxt" and gt: "pa (cmr_cursor c) < pa nxt"
      using r(3) round_up_ge [of "pa (pr_end r)"] by (simp_all add: frame_aligned_def)
    from set_cursor_current [OF c al, of ba] gt obtain c' where
      c': "set_cursor ba c nxt = ba\<lparr>ba_current := c'\<rparr>" "cur_frames c' = [pa nxt div 4096 ..< pa (cmr_end c) div 4096]"
        "case c' of None \<Rightarrow> True | Some d \<Rightarrow> cur_ok d" "cur_region c' \<subseteq> cur_region (Some c)"
        "(case c' of None \<Rightarrow> 0 | Some d \<Rightarrow> pa (cmr_end d) - pa (cmr_cursor d)) < pa (cmr_end c) - pa (cmr_cursor c)"
      by auto
    have start: "cur_frames (Some c) = [?k ..< pa (cmr_end c) div 4096]" by (simp add: cur_frames_def)
    have "filter ?free (cur_frames (Some c)) = filter ?free (cur_frames c')"
      unfolding c'(2) start
    proof (rule filter_upt_skip)
      show "?k \<le> pa nxt div 4096" using gt by (intro div_le_mono) simp
      show "\<not> \<not> reserved_frame (ba_reserved ba) j" if "?k \<le> j" "j < pa nxt div 4096" for j
      proof -
        have "\<not> pa (pr_end r) \<le> j * 4096"
          using that(2) nxt round_up_le [of "pa (pr_end r)" j] by (auto simp: less_eq_div_iff_mult_less_eq dest: leD)
        then show ?thesis using taken [OF that(1)] by simp
      qed
    qed
    then have "free_frames (ba\<lparr>ba_current := c'\<rparr>) = free_frames ba"
      unfolding free_cur free_frames_current by simp
    moreover have "ba_inv (ba\<lparr>ba_current := c'\<rparr>)" using ba_inv_current [OF inv _ c'(3)] c'(4) cur by simp
    moreover have "ba_measure (ba\<lparr>ba_current := c'\<rparr>) < ba_measure ba"
      unfolding ba_measure_current meas using c'(5) by simp
    ultimately show "step_ok ba (Ok (Continue (set_cursor ba c nxt)))" unfolding step_ok_def c'(1) by blast }
qed

lemma allocate_candidate_ok:
  assumes inv: "ba_inv ba" and cur: "ba_current ba = Some c"
  shows "step_ok ba (allocate_candidate ba c)"
proof -
  from inv obtain t xs where rep: "fdt_rep (ba_fdt ba) t xs" by (auto simp: ba_inv_def)
  have R: "\<forall>r\<in>set (ba_reserved ba). phys_range_ok r" using ba_reserved_ok [OF rep] inv by (simp add: ba_inv_def)
  have c: "cur_ok c" using inv cur by (simp add: ba_inv_def)
  from c obtain fr where fr: "phys_frame_from_start (cmr_cursor c) = Some (PhysFrame (cmr_cursor c))"
    "(phys_frame_range (PhysFrame (cmr_cursor c)) :: (_, infallible) res) = Ok fr"
    "pr_start fr = cmr_cursor c" "pa (pr_end fr) = pa (cmr_cursor c) + 4096" "phys_range_ok fr"
    "addrs fr = frame_addrs (pa (cmr_cursor c) div 4096)"
    by (rule candidate_frame)
  note over = overlapping_reservation_eq [OF rep, of fr]
  show ?thesis
  proof (cases "List.find (phys_overlaps fr) (ba_reserved ba)")
    case None
    then have "\<not> phys_overlaps fr r" if "r \<in> set (ba_reserved ba)" for r using that by (simp add: find_None_iff)
    then have "\<not> reserved_frame (ba_reserved ba) (pa (cmr_cursor c) div 4096)"
      using R phys_overlaps_addrs [OF fr(5)] fr(6) by (auto simp: reserved_frame_def)
    from candidate_free [OF inv cur this fr(4)] None fr over show ?thesis by (simp add: allocate_candidate_def)
  next
    case (Some r)
    then have r: "r \<in> set (ba_reserved ba)" "phys_overlaps fr r" by (auto simp: find_Some_iff)
    then have "pa (pr_start r) < pa (cmr_cursor c) + 4096" "pa (cmr_cursor c) < pa (pr_end r)"
      using fr(3,4) by (auto simp: phys_overlaps_def word_less_nat_alt)
    from candidate_skip [OF inv cur R r(1) this] Some fr over show ?thesis
      by (cases "align_up (pr_end r)") (simp_all add: allocate_candidate_def)
  qed
qed

section \<open>Entering the next range\<close>

definition aligned_part :: "memory_range \<Rightarrow> current_memory_range option" where
  "aligned_part r =
     (case align_up (PhysAddr (mmr_address r)) of
        None \<Rightarrow> None
      | Some start \<Rightarrow>
          let stop = align_down (pr_end (range_at (mmr_address r) (mmr_size r))) in
          if pa_as_usize stop \<le> pa_as_usize start then None else Some \<lparr>cmr_cursor = start, cmr_end = stop\<rparr>)"

lemma advance_body_eq:
  assumes "mem_ok r"
  shows "advance_body r () = Ok (case aligned_part r of None \<Rightarrow> Continue () | Some c \<Rightarrow> Break c)"
proof -
  have "(fdt_range (mmr_address r) (mmr_size r) :: (_, infallible) res) = Ok (range_at (mmr_address r) (mmr_size r))"
    by (rule range_at_props) (use assms in \<open>simp_all add: mem_ok_def\<close>)
  then show ?thesis
    by (simp add: advance_body_def aligned_part_def Let_def range_at_def split: option.split)
qed

lemma aligned_part_props:
  assumes "mem_ok r"
  shows "cur_frames (aligned_part r) = mem_frames r" "cur_region (aligned_part r) \<subseteq> mem_region r"
    "case aligned_part r of None \<Rightarrow> True | Some c \<Rightarrow> cur_ok c"
proof -
  let ?a = "unat (mmr_address r)" and ?e = "unat (mmr_address r) + unat (mmr_size r)"
  define stop where "stop = align_down (pr_end (range_at (mmr_address r) (mmr_size r)))"
  have e: "pa (pr_end (range_at (mmr_address r) (mmr_size r))) = ?e" "?e < 2 ^ 64"
    using assms range_at_props(4) [of "mmr_size r" "mmr_address r"] by (simp_all add: mem_ok_def)
  then have stop: "pa stop = round_down ?e" by (simp add: stop_def align_down_eq)
  then have stop_no: "pa stop div 4096 = ?e div 4096" by (simp add: round_down_def)
  have "cur_frames (aligned_part r) = mem_frames r \<and> cur_region (aligned_part r) \<subseteq> mem_region r \<and>
    (case aligned_part r of None \<Rightarrow> True | Some c \<Rightarrow> cur_ok c)"
  proof (cases "align_up (PhysAddr (mmr_address r))")
    case None
    then have "2 ^ 64 - 4096 < ?a" by (simp add: align_up_None)
    then have "?e div 4096 * 4096 \<le> round_up ?a"
      using e(2) round_up_ge [of ?a] div_le_mono [of ?e "2 ^ 64 - 1" 4096] by simp
    then have "?e div 4096 \<le> round_up ?a div 4096" by (simp add: less_eq_div_iff_mult_less_eq)
    with None show ?thesis by (simp add: aligned_part_def cur_frames_def mem_frames_def cur_region_def)
  next
    case (Some start)
    then have start: "pa start = round_up ?a" by (simp add: align_up_Some)
    show ?thesis
    proof (cases "pa stop \<le> pa start")
      case True
      then have "?e div 4096 \<le> round_up ?a div 4096"
        using div_le_mono [OF True, of 4096] stop_no start by simp
      with True Some show ?thesis
        by (simp add: aligned_part_def cur_frames_def mem_frames_def cur_region_def stop_def [symmetric] word_le_nat_alt)
    next
      case False
      with Some have part: "aligned_part r = Some \<lparr>cmr_cursor = start, cmr_end = stop\<rparr>"
        by (simp add: aligned_part_def stop_def [symmetric] word_le_nat_alt)
      show ?thesis
        using False stop start stop_no round_up_ge [of ?a] round_down_le [of ?e]
        by (auto simp: part cur_frames_def mem_frames_def cur_region_def mem_region_def cur_ok_def frame_aligned_def)
    qed
  qed
  then show "cur_frames (aligned_part r) = mem_frames r" "cur_region (aligned_part r) \<subseteq> mem_region r"
    "case aligned_part r of None \<Rightarrow> True | Some c \<Rightarrow> cur_ok c" by blast+
qed

lemma first_aligned_part:
  assumes "\<forall>r\<in>set rs. mem_ok r"
  shows "case first_split aligned_part rs of
      None \<Rightarrow> concat (map mem_frames rs) = []
    | Some (c, zs) \<Rightarrow> \<exists>ys r. rs = ys @ r # zs \<and> aligned_part r = Some c \<and>
        concat (map mem_frames rs) = cur_frames (Some c) @ concat (map mem_frames zs)"
  using assms
proof (induction rs)
  case (Cons r rs)
  then have frames: "cur_frames (aligned_part r) = mem_frames r" by (simp add: aligned_part_props)
  show ?case
  proof (cases "aligned_part r")
    case None
    then have "mem_frames r = []" using frames by (simp add: cur_frames_def)
    with Cons None show ?thesis by (auto split: option.splits)
  next
    case (Some c)
    then show ?thesis using frames by auto
  qed
qed simp

lemma ba_ranges_update [simp]:
  "ba_reserved (ba\<lparr>ba_memory_ranges := it\<rparr>) = ba_reserved ba"
  by (simp add: ba_reserved_def cong: res.case_cong)

lemma free_frames_left:
  assumes "ranges_left ba rs"
  shows "free_frames ba = filter (\<lambda>k. \<not> reserved_frame (ba_reserved ba) k)
    (cur_frames (ba_current ba) @ concat (map mem_frames rs))"
  by (simp add: free_frames_def ba_ranges_eq [OF assms])

lemma ba_measure_left: "ranges_left ba rs \<Longrightarrow> ba_measure ba = length rs * 2 ^ 64 + current_left ba"
  by (simp add: ba_measure_def ba_ranges_eq)

text \<open>The two outcomes of \<open>advance_memory_range\<close>.\<close>

definition advance_ok :: "boot_frame_allocator \<Rightarrow> bool \<Rightarrow> boot_frame_allocator \<Rightarrow> bool" where
  "advance_ok ba found ba' \<longleftrightarrow> ba_inv ba' \<and> free_frames ba' = free_frames ba \<and>
     (if found then ba_current ba' \<noteq> None \<and> ba_measure ba' < ba_measure ba else free_frames ba = [])"

lemma advance_memory_range_eq:
  assumes inv: "ba_inv ba" and cur: "ba_current ba = None"
  shows "\<exists>found ba'. advance_memory_range ba = Ok (found, ba') \<and> advance_ok ba found ba'"
proof -
  obtain rs where rs: "ranges_left ba rs" using inv by (auto simp: ba_inv_def)
  then have ok: "\<forall>r\<in>set rs. mem_ok r" by (simp add: ranges_left_def)
  let ?fs = "first_split aligned_part rs"
  obtain it where it: "for_in (\<lambda>_. fdt_fuel (ba_fdt ba)) memory_ranges_next advance_body (ba_memory_ranges ba) () =
      Ok (case ?fs of None \<Rightarrow> Continue () | Some (c, _) \<Rightarrow> Break c, it)"
    "yields (memory_ranges_next :: (_, _, infallible) iter_next) it (case ?fs of None \<Rightarrow> [] | Some (_, zs) \<Rightarrow> zs)"
    using for_in_first [where nxt = memory_ranges_next and s = "ba_memory_ranges ba" and xs = rs
        and m = "\<lambda>_. fdt_fuel (ba_fdt ba)" and body = advance_body and h = aligned_part] rs advance_body_eq
    by (auto simp: ranges_left_def)
  note frames = free_frames_left [OF rs]
  show ?thesis
  proof (cases ?fs)
    case None
    let ?ba = "ba\<lparr>ba_memory_ranges := it\<rparr>"
    have empty: "free_frames ba = []" using frames first_aligned_part [OF ok] None cur by (simp add: cur_frames_def)
    have left: "ranges_left ?ba []" using it(2) None by (simp add: ranges_left_def)
    have "free_frames ?ba = []" using free_frames_left [OF left] cur by (simp add: cur_frames_def)
    moreover have "ba_inv ?ba" using inv left cur by (auto simp: ba_inv_def)
    ultimately show ?thesis
      using it(1) None empty by (intro exI [of _ False] exI [of _ ?ba]) (simp add: advance_memory_range_def advance_ok_def)
  next
    case (Some p)
    then obtain c zs where fs: "?fs = Some (c, zs)" by (cases p) auto
    let ?ba = "ba\<lparr>ba_memory_ranges := it, ba_current := Some c\<rparr>"
    obtain ys r where r: "rs = ys @ r # zs" "aligned_part r = Some c"
        "concat (map mem_frames rs) = cur_frames (Some c) @ concat (map mem_frames zs)"
      using first_aligned_part [OF ok] fs by auto
    have c: "cur_ok c" "cur_region (Some c) \<subseteq> mem_region r" using aligned_part_props(2,3) [of r] ok r(1,2) by auto
    have left: "ranges_left ?ba zs"
      using rs it(2) fs c(2) r(1) by (auto simp: ranges_left_def sorted_wrt_append)
    have "free_frames ?ba = free_frames ba"
      using free_frames_left [OF left] frames r(3) cur by (simp add: cur_frames_def)
    moreover have "ba_inv ?ba" using inv left c by (auto simp: ba_inv_def)
    moreover have "current_left ?ba < 2 ^ 64"
      using unat_kusize [of "pa_as_usize (cmr_end c)"] by (simp add: current_left_def)
    then have "ba_measure ?ba < ba_measure ba"
      unfolding ba_measure_left [OF left] ba_measure_left [OF rs] using r(1) by simp
    ultimately show ?thesis
      using it(1) fs by (intro exI [of _ True] exI [of _ ?ba]) (simp add: advance_memory_range_def advance_ok_def)
  qed
qed

section \<open>Allocation\<close>

lemma allocate_step_ok:
  assumes inv: "ba_inv ba"
  shows "step_ok ba (allocate_step ba)"
proof (cases "ba_current ba")
  case None
  then obtain found ba' where adv: "advance_memory_range ba = Ok (found, ba')" "advance_ok ba found ba'"
    using advance_memory_range_eq [OF inv] by blast
  show ?thesis
  proof (cases found)
    case True
    with adv(2) obtain c where c: "ba_inv ba'" "free_frames ba' = free_frames ba" "ba_current ba' = Some c"
        "ba_measure ba' < ba_measure ba" by (auto simp: advance_ok_def)
    then have "step_ok ba' (allocate_candidate ba' c)" by (intro allocate_candidate_ok)
    moreover have "allocate_step ba = allocate_candidate ba' c"
      using None adv(1) True c(3) by (simp add: allocate_step_def)
    ultimately show ?thesis using c(2,4) by (auto simp: step_ok_def)
  next
    case False
    then show ?thesis using None adv by (auto simp: allocate_step_def step_ok_def advance_ok_def)
  qed
next
  case (Some c)
  then show ?thesis using allocate_candidate_ok [OF inv Some] by (simp add: allocate_step_def)
qed

interpretation allocate_loop: invariant_loop ba_inv ba_measure allocate_step
  by unfold_locales (use allocate_step_ok in \<open>fastforce simp: step_ok_def\<close>)

lemma allocate_eq:
  assumes "ba_inv ba"
  shows "(\<exists>ba'. allocate ba = Ok (None, ba') \<and> ba_inv ba' \<and> free_frames ba = [] \<and> free_frames ba' = []) \<or>
    (\<exists>f ba'. allocate ba = Ok (Some f, ba') \<and> ba_inv ba' \<and> frame_ok (af_frame f) \<and>
        free_frames ba = frame_no (af_frame f) # free_frames ba')"
  using assms unfolding allocate_def
proof (induction rule: allocate_loop.run_induct)
  case (step ba)
  note run = allocate_loop.run_unfold [OF step.hyps]
  show ?case
    using allocate_step_ok [OF step.hyps] step.IH unfolding step_ok_def run by fastforce
qed

section \<open>No frame is given out twice\<close>

lemma mem_frames_region: "k \<in> set (mem_frames r) \<Longrightarrow> frame_addrs k \<subseteq> mem_region r"
proof -
  assume "k \<in> set (mem_frames r)"
  then have k: "round_up (unat (mmr_address r)) div 4096 \<le> k" "Suc k \<le> (unat (mmr_address r) + unat (mmr_size r)) div 4096"
    by (auto simp: mem_frames_def)
  have "unat (mmr_address r) \<le> k * 4096"
    using k(1) round_up_ge [of "unat (mmr_address r)"] round_up_le [of "unat (mmr_address r)" k]
    by (auto simp: round_up_def)
  moreover have "k * 4096 + 4096 \<le> unat (mmr_address r) + unat (mmr_size r)"
    using k(2) by (simp add: less_eq_div_iff_mult_less_eq)
  ultimately show ?thesis by (auto simp: frame_addrs_def mem_region_def)
qed

lemma cur_frames_region:
  assumes "cur_ok c" "k \<in> set (cur_frames (Some c))"
  shows "frame_addrs k \<subseteq> cur_region (Some c)"
proof -
  have k: "pa (cmr_cursor c) div 4096 \<le> k" "Suc k \<le> pa (cmr_end c) div 4096"
    using assms(2) by (auto simp: cur_frames_def)
  have "pa (cmr_cursor c) div 4096 * 4096 \<le> k * 4096" "Suc k * 4096 \<le> pa (cmr_end c) div 4096 * 4096"
    using k by (simp_all only: mult_le_mono1)
  moreover have "pa (cmr_cursor c) div 4096 * 4096 = pa (cmr_cursor c)" "pa (cmr_end c) div 4096 * 4096 = pa (cmr_end c)"
    using assms(1) by (auto simp: cur_ok_def frame_aligned_def)
  ultimately show ?thesis by (auto simp: frame_addrs_def cur_region_def)
qed

lemma disjoint_frames:
  assumes "k \<in> set ks" "k \<in> set ls" "\<forall>k\<in>set ks. frame_addrs k \<subseteq> A" "\<forall>k\<in>set ls. frame_addrs k \<subseteq> B"
  shows "A \<inter> B \<noteq> {}"
proof -
  have "k * 4096 \<in> frame_addrs k" by (simp add: frame_addrs_def)
  with assms have "k * 4096 \<in> A \<inter> B" by blast
  then show ?thesis by blast
qed

lemma distinct_mem_frames:
  assumes "sorted_wrt (\<lambda>x y. mem_region x \<inter> mem_region y = {}) rs"
  shows "distinct (concat (map mem_frames rs))"
  using assms
proof (induction rs)
  case (Cons r rs)
  have "set (mem_frames r) \<inter> set (mem_frames s) = {}" if "s \<in> set rs" for s
    using Cons.prems that disjoint_frames [of _ "mem_frames r" "mem_frames s" "mem_region r" "mem_region s"]
      mem_frames_region by auto
  then have "set (mem_frames r) \<inter> set (concat (map mem_frames rs)) = {}" by auto
  moreover have "distinct (mem_frames r)" by (simp add: mem_frames_def)
  ultimately show ?case using Cons by simp
qed simp

lemma free_frames_distinct:
  assumes "ba_inv ba"
  shows "distinct (free_frames ba)"
proof -
  obtain rs where rs: "ranges_left ba rs" using assms by (auto simp: ba_inv_def)
  have "set (cur_frames (ba_current ba)) \<inter> set (mem_frames r) = {}" if "r \<in> set rs" for r
  proof (cases "ba_current ba")
    case None
    then show ?thesis by (simp add: cur_frames_def)
  next
    case (Some c)
    then have "cur_region (Some c) \<inter> mem_region r = {}" "cur_ok c"
      using rs that assms by (auto simp: ranges_left_def ba_inv_def)
    then show ?thesis
      using disjoint_frames [of _ "cur_frames (Some c)" "mem_frames r" "cur_region (Some c)" "mem_region r"]
        mem_frames_region cur_frames_region Some by auto
  qed
  moreover have "distinct (concat (map mem_frames rs))"
    using rs distinct_mem_frames by (simp add: ranges_left_def)
  moreover have "distinct (cur_frames (ba_current ba))" by (simp add: cur_frames_def split: option.split)
  ultimately show ?thesis unfolding free_frames_left [OF rs] by auto
qed

interpretation boot: frame_allocator allocate ba_inv free_frames
proof
  fix ba assume inv: "ba_inv ba"
  show "distinct (free_frames ba)" by (rule free_frames_distinct [OF inv])
  show "\<exists>ba'. allocate ba = Ok (None, ba') \<and> ba_inv ba' \<and> free_frames ba' = []" if "free_frames ba = []"
    using allocate_eq [OF inv] that by auto
  show "\<exists>f ba'. allocate ba = Ok (Some f, ba') \<and> ba_inv ba' \<and> free_frames ba' = ks \<and>
      frame_ok (af_frame f) \<and> frame_no (af_frame f) = k" if "free_frames ba = k # ks" for k ks
    using allocate_eq [OF inv] that by auto
qed

section \<open>Claiming the allocator\<close>

definition fdt_memory_list :: "fdt \<Rightarrow> memory_range list" where
  "fdt_memory_list f =
     (case (fdt_memory_ranges f :: (_, infallible) res) of
        Ok it \<Rightarrow> collect (fdt_fuel f) (memory_ranges_next :: (_, _, infallible) iter_next) it
      | _ \<Rightarrow> [])"

definition memory_disjoint :: "memory_range list \<Rightarrow> bool" where
  "memory_disjoint rs \<longleftrightarrow> sorted_wrt (\<lambda>x y. mem_region x \<inter> mem_region y = {}) rs"

lemma fdt_memory_list_eq:
  assumes "fdt_rep f t xs"
  shows "fdt_memory_list f = map memory_range_of (dt_memory t)" "length (fdt_memory_list f) \<le> fdt_fuel f"
    "\<forall>r\<in>set (fdt_memory_list f). mem_ok r"
    "\<exists>it. (fdt_memory_ranges f :: (_, 'e) res) = Ok it \<and>
       yields (memory_ranges_next :: (_, _, 'e) iter_next) it (fdt_memory_list f)"
proof -
  obtain it where it: "(fdt_memory_ranges f :: (_, infallible) res) = Ok it"
      "yields (memory_ranges_next :: (_, _, infallible) iter_next) it (map memory_range_of (dt_memory t))"
    using fdt_memory_ranges_yields [OF assms] by blast
  then show eq: "fdt_memory_list f = map memory_range_of (dt_memory t)"
    using fdt_counts(1) [OF assms] by (simp add: fdt_memory_list_def collect_yields)
  then show "length (fdt_memory_list f) \<le> fdt_fuel f" using fdt_counts(1) [OF assms] by simp
  show "\<forall>r\<in>set (fdt_memory_list f). mem_ok r"
    using assms memory_ok_ranges memory_range_of_ok unfolding eq by (auto simp: fdt_rep_def semantics_ok_def)
  show "\<exists>it. (fdt_memory_ranges f :: (_, 'e) res) = Ok it \<and>
       yields (memory_ranges_next :: (_, _, 'e) iter_next) it (fdt_memory_list f)"
    unfolding eq by (rule fdt_memory_ranges_yields [OF assms])
qed

text \<open>The first pair of overlapping ranges, in the order of the two nested loops.\<close>

abbreviation mem_range_at :: "memory_range \<Rightarrow> phys_range" where
  "mem_range_at r \<equiv> range_at (mmr_address r) (mmr_size r)"

fun first_overlap :: "memory_range list \<Rightarrow> (phys_range \<times> phys_range) option" where
  "first_overlap [] = None"
| "first_overlap (r # rs) =
     (case List.find (\<lambda>s. phys_overlaps (mem_range_at r) (mem_range_at s)) rs of
        Some s \<Rightarrow> Some (mem_range_at r, mem_range_at s)
      | None \<Rightarrow> first_overlap rs)"

lemma first_overlap_None:
  "\<forall>r\<in>set rs. mem_ok r \<Longrightarrow> first_overlap rs = None \<longleftrightarrow> memory_disjoint rs"
proof (induction rs)
  case (Cons r rs)
  have "phys_overlaps (mem_range_at r) (mem_range_at s) \<longleftrightarrow> mem_region r \<inter> mem_region s \<noteq> {}" if "s \<in> set rs" for s
    using Cons.prems that range_at_props(2,3) [of "mmr_size r" "mmr_address r"] range_at_props(2,3) [of "mmr_size s" "mmr_address s"]
    by (subst phys_overlaps_addrs) (auto simp: mem_ok_def mem_region_def)
  with Cons show ?case by (auto simp: memory_disjoint_def find_None_iff find_Some_iff split: option.split)
qed (simp add: memory_disjoint_def)

lemma first_overlap_Some: "first_overlap rs = Some (a, b) \<Longrightarrow> phys_overlaps a b"
  by (induction rs) (auto simp: find_Some_iff split: option.splits)

lemma fdt_range_mem: "mem_ok r \<Longrightarrow> fdt_range (mmr_address r) (mmr_size r) = Ok (mem_range_at r)"
  by (rule range_at_props) (simp_all add: mem_ok_def)

lemma overlap_second_fold:
  "\<forall>r\<in>set rs. mem_ok r \<Longrightarrow> fold_flow (overlap_second fr) rs () =
     (case List.find (\<lambda>s. phys_overlaps fr (mem_range_at s)) rs of
        Some s \<Rightarrow> Err (OverlappingMemoryRanges fr (mem_range_at s)) | None \<Rightarrow> Ok (Continue ()))"
  by (induction rs) (simp_all add: overlap_second_def fdt_range_mem)

lemma overlap_first_eq:
  assumes rep: "fdt_rep f t xs" and r: "mem_ok r" and i: "i < length (fdt_memory_list f)"
  shows "overlap_first f r i =
    (case List.find (\<lambda>s. phys_overlaps (mem_range_at r) (mem_range_at s)) (drop (Suc i) (fdt_memory_list f)) of
       Some s \<Rightarrow> Err (OverlappingMemoryRanges (mem_range_at r) (mem_range_at s)) | None \<Rightarrow> Ok (Continue (Suc i)))"
proof -
  let ?body = "overlap_second (mem_range_at r)" and ?rest = "drop (Suc i) (fdt_memory_list f)"
  obtain it where it: "(fdt_memory_ranges f :: (_, BootFrameAllocatorError) res) = Ok it"
      "yields (memory_ranges_next :: (_, _, BootFrameAllocatorError) iter_next) it (fdt_memory_list f)"
    using fdt_memory_list_eq(4) [OF rep] by blast
  note len = fdt_memory_list_eq(2) [OF rep]
  have loop: "bind_res (for_in (\<lambda>_. fdt_fuel f) (skip_next memory_ranges_next) ?body (Suc i, it) ()) (\<lambda>(f, _). Ok f) =
      fold_flow ?body ?rest ()"
    by (rule for_in_fold [OF skip_next_yields [OF it(2)]]) (use len in simp)
  have small: "checked_add_usize i 1 = Some (Suc i)"
    using i len rep by (simp add: checked_add_usize_def fdt_rep_def fdt_fuel_def)
  have "\<forall>r\<in>set ?rest. mem_ok r" using fdt_memory_list_eq(3) [OF rep] by (auto dest: in_set_dropD)
  then show ?thesis
    unfolding overlap_first_def fdt_range_mem [OF r] bind_res_simps small option.case it(1)
      bind_res_ignore [of "for_in _ _ _ _ _"] loop
    by (simp add: overlap_second_fold split: option.split)
qed

lemma overlap_first_fold:
  assumes rep: "fdt_rep f t xs" and "ys = drop i (fdt_memory_list f)"
  shows "fold_flow (overlap_first f) ys i =
    (case first_overlap ys of
       Some (a, b) \<Rightarrow> Err (OverlappingMemoryRanges a b) | None \<Rightarrow> Ok (Continue (i + length ys)))"
  using assms(2)
proof (induction ys arbitrary: i)
  case (Cons r ys)
  then have i: "i < length (fdt_memory_list f)" by (metis drop_all list.distinct(1) not_le)
  with Cons.prems have "r # ys = fdt_memory_list f ! i # drop (Suc i) (fdt_memory_list f)"
    by (simp add: Cons_nth_drop_Suc)
  with i have ys: "ys = drop (Suc i) (fdt_memory_list f)" and r: "r \<in> set (fdt_memory_list f)" by auto
  from r fdt_memory_list_eq(3) [OF rep] have "mem_ok r" by blast
  from overlap_first_eq [OF rep this i] Cons.IH [OF ys] show ?case
    by (simp add: ys [symmetric] split: option.split)
qed simp

lemma validate_memory_ranges_eq:
  assumes rep: "fdt_rep f t xs"
  shows "validate_memory_ranges f =
    (case first_overlap (fdt_memory_list f) of
       Some (a, b) \<Rightarrow> Err (OverlappingMemoryRanges a b) | None \<Rightarrow> Ok ())"
proof -
  obtain it where it: "(fdt_memory_ranges f :: (_, BootFrameAllocatorError) res) = Ok it"
      "yields (memory_ranges_next :: (_, _, BootFrameAllocatorError) iter_next) it (fdt_memory_list f)"
    using fdt_memory_list_eq(4) [OF rep] by blast
  have "bind_res (for_in (\<lambda>_. fdt_fuel f) memory_ranges_next (overlap_first f) it 0) (\<lambda>(f, _). Ok f) =
      fold_flow (overlap_first f) (fdt_memory_list f) 0"
    by (rule for_in_fold [OF it(2)]) (use fdt_memory_list_eq(2) [OF rep] in simp)
  also have "\<dots> = (case first_overlap (fdt_memory_list f) of
      Some (a, b) \<Rightarrow> Err (OverlappingMemoryRanges a b) | None \<Rightarrow> Ok (Continue (length (fdt_memory_list f))))"
    using overlap_first_fold [OF rep, of "fdt_memory_list f" 0] by (simp split: option.split)
  finally show ?thesis
    unfolding validate_memory_ranges_def it(1) bind_res_simps bind_res_ignore [of "for_in _ _ _ _ _"]
    by (simp split: option.split)
qed

text \<open>
  A claim succeeds exactly for disjoint memory and the first time; the allocator then has the free
  frames of all the memory.
\<close>

definition claimed_allocator :: "fdt \<Rightarrow> phys_range \<Rightarrow> phys_range \<Rightarrow> memory_ranges \<Rightarrow> boot_frame_allocator" where
  "claimed_allocator f k d it =
     \<lparr>ba_fdt = f, ba_memory_ranges = it, ba_current = None, ba_kernel = k, ba_dtb = d\<rparr>"

lemma boot_claim_eq:
  assumes rep: "fdt_rep f t xs"
  shows "\<exists>it. yields (memory_ranges_next :: (_, _, infallible) iter_next) it (fdt_memory_list f) \<and>
    boot_claim claimed f k d =
      (case first_overlap (fdt_memory_list f) of
         Some (a, b) \<Rightarrow> (Err (OverlappingMemoryRanges a b), claimed)
       | None \<Rightarrow> if claimed then (Err AlreadyClaimed, True) else (Ok (claimed_allocator f k d it), True))"
proof -
  obtain it where "(fdt_memory_ranges f :: (_, infallible) res) = Ok it"
      "yields (memory_ranges_next :: (_, _, infallible) iter_next) it (fdt_memory_list f)"
    using fdt_memory_list_eq(4) [OF rep] by blast
  then show ?thesis
    by (intro exI [of _ it])
      (simp add: boot_claim_def validate_memory_ranges_eq [OF rep] claimed_allocator_def split: option.split)
qed

lemma claimed_inv:
  assumes rep: "fdt_rep f t xs" and ranges: "phys_range_ok k" "phys_range_ok d"
    and it: "yields (memory_ranges_next :: (_, _, infallible) iter_next) it (fdt_memory_list f)"
    and disj: "memory_disjoint (fdt_memory_list f)"
  shows "ba_inv (claimed_allocator f k d it)"
    "free_frames (claimed_allocator f k d it) =
       filter (\<lambda>n. \<not> reserved_frame (ba_reserved (claimed_allocator f k d it)) n)
         (concat (map mem_frames (fdt_memory_list f)))"
proof -
  have left: "ranges_left (claimed_allocator f k d it) (fdt_memory_list f)"
    using it disj fdt_memory_list_eq(2,3) [OF rep]
    by (simp add: ranges_left_def claimed_allocator_def memory_disjoint_def cur_region_def)
  then show "ba_inv (claimed_allocator f k d it)"
    using rep ranges by (auto simp: ba_inv_def claimed_allocator_def)
  show "free_frames (claimed_allocator f k d it) =
       filter (\<lambda>n. \<not> reserved_frame (ba_reserved (claimed_allocator f k d it)) n)
         (concat (map mem_frames (fdt_memory_list f)))"
    unfolding free_frames_left [OF left] by (simp add: cur_frames_def claimed_allocator_def)
qed

lemma mem_frames_iff: "k \<in> set (mem_frames r) \<longleftrightarrow> frame_addrs k \<subseteq> mem_region r"
proof
  assume "frame_addrs k \<subseteq> mem_region r"
  moreover have "k * 4096 \<in> frame_addrs k" "k * 4096 + 4095 \<in> frame_addrs k" by (simp_all add: frame_addrs_def)
  ultimately have "unat (mmr_address r) \<le> k * 4096" "Suc k * 4096 \<le> unat (mmr_address r) + unat (mmr_size r)"
    by (auto simp: mem_region_def)
  then have "round_up (unat (mmr_address r)) \<le> k * 4096" "Suc k \<le> (unat (mmr_address r) + unat (mmr_size r)) div 4096"
    by (simp_all add: round_up_le [symmetric] less_eq_div_iff_mult_less_eq)
  then show "k \<in> set (mem_frames r)" by (auto simp: mem_frames_def round_up_def)
qed (rule mem_frames_region)

text \<open>The state an accepted blob and a successful claim lead to.\<close>

lemma claimed_state:
  assumes "fdt_from_ptr mem ptr = Ok f" "phys_range_ok k" "phys_range_ok d" "boot_claim c f k d = (Ok ba, c')"
  obtains t xs where "fdt_rep f t xs" "ba_inv ba" "ba_kernel ba = k" "ba_dtb ba = d" "ba_fdt ba = f"
    "\<And>n. n \<in> set (free_frames ba) \<longleftrightarrow>
       (\<exists>r\<in>set (fdt_memory_list f). frame_addrs n \<subseteq> mem_region r) \<and> \<not> reserved_frame (ba_reserved ba) n"
proof -
  obtain t xs where rep: "fdt_rep f t xs" using fdt_from_ptr_rep [OF assms(1)] by blast
  obtain it where it: "yields (memory_ranges_next :: (_, _, infallible) iter_next) it (fdt_memory_list f)"
      "first_overlap (fdt_memory_list f) = None" "ba = claimed_allocator f k d it"
    using boot_claim_eq [OF rep, of c k d] assms(4)
    by (cases "first_overlap (fdt_memory_list f)") (auto split: if_splits)
  then have "memory_disjoint (fdt_memory_list f)"
    using first_overlap_None fdt_memory_list_eq(3) [OF rep] by blast
  from claimed_inv [OF rep assms(2,3) it(1) this] it(3) rep show thesis
    by (intro that) (auto simp: claimed_allocator_def mem_frames_iff)
qed

lemma reserved_frame_fdt:
  assumes "fdt_rep (ba_fdt ba) t xs"
  shows "reserved_frame (ba_reserved ba) n \<longleftrightarrow>
    frame_addrs n \<inter> addrs (ba_kernel ba) \<noteq> {} \<or> frame_addrs n \<inter> addrs (ba_dtb ba) \<noteq> {} \<or>
    (\<exists>x\<in>set xs. frame_addrs n \<inter> region x \<noteq> {}) \<or>
    (\<exists>(a, s)\<in>set (dt_reserved t). frame_addrs n \<inter> {a ..< a + s} \<noteq> {})"
proof -
  have x: "addrs (range_at (mr_address x) (mr_size x)) = region x" if "x \<in> set xs" "mr_size x \<noteq> 0" for x
    using that assms by (subst range_at_props) (auto simp: region_def fdt_rep_def entry_ok_def unat_gt_0)
  have y: "region x = {}" if "mr_size x = 0" for x using that by (simp add: region_def)
  have r: "addrs (range_at (rmr_address (reserved_memory_range_of r)) (rmr_size (reserved_memory_range_of r))) =
      {fst r ..< fst r + snd r}" if "r \<in> set (dt_reserved t)" for r
  proof -
    have ok: "range_ok r" using that assms reserved_ok_ranges by (auto simp: fdt_rep_def semantics_ok_def)
    show ?thesis using reserved_range_of_ok [OF ok] ok
      by (subst range_at_props) (auto simp: reserved_memory_range_of_def range_ok_def unat_of_nat split: prod.splits)
  qed
  have "reserved_frame (ba_reserved ba) n \<longleftrightarrow>
    frame_addrs n \<inter> addrs (ba_kernel ba) \<noteq> {} \<or> frame_addrs n \<inter> addrs (ba_dtb ba) \<noteq> {} \<or>
    (\<exists>x\<in>set xs. mr_size x \<noteq> 0 \<and> frame_addrs n \<inter> addrs (range_at (mr_address x) (mr_size x)) \<noteq> {}) \<or>
    (\<exists>r\<in>set (dt_reserved t). frame_addrs n \<inter>
       addrs (range_at (rmr_address (reserved_memory_range_of r)) (rmr_size (reserved_memory_range_of r))) \<noteq> {})"
    unfolding reserved_frame_def ba_reserved_eq [OF assms] by auto
  also have "(\<exists>x\<in>set xs. mr_size x \<noteq> 0 \<and> frame_addrs n \<inter> addrs (range_at (mr_address x) (mr_size x)) \<noteq> {}) \<longleftrightarrow>
      (\<exists>x\<in>set xs. frame_addrs n \<inter> region x \<noteq> {})" using x y by fastforce
  finally show ?thesis using r by (auto simp: case_prod_beta)
qed

end
