(* ===== verification/Sample_Boot.thy ===== *)
theory Sample_Boot
  imports Sample_Blob Boot_Allocator_Correct
begin

text \<open>
  The boot allocator run on the sample blob, with the kernel placed in the second page of memory
  and the blob outside it.  The reservation block takes the first page.
\<close>

definition sample_kernel :: phys_range where
  "sample_kernel = \<lparr>pr_start = PhysAddr 0x80001000, pr_end = PhysAddr 0x80003000\<rparr>"

definition sample_dtb :: phys_range where
  "sample_dtb = \<lparr>pr_start = PhysAddr 64, pr_end = PhysAddr 244\<rparr>"

lemma sample_first_frame:
  "case fdt_from_ptr sample_memory sample_address of
     Ok f \<Rightarrow>
       (case fst (boot_claim False f sample_kernel sample_dtb) of
          Ok ba \<Rightarrow>
            (case allocate ba of
               Ok (fr, ba') \<Rightarrow> fr = Some (AllocatedFrame (PhysFrame (PhysAddr 0x80003000)))
             | _ \<Rightarrow> False)
        | _ \<Rightarrow> False)
   | _ \<Rightarrow> False"
  by code_simp

lemma sample_run:
  obtains f ba c' ba' where "fdt_from_ptr sample_memory sample_address = Ok f"
    "boot_claim False f sample_kernel sample_dtb = (Ok ba, c')"
    "allocates allocate ba [PhysFrame (PhysAddr 0x80003000)] ba'"
proof -
  obtain f where f: "fdt_from_ptr sample_memory sample_address = Ok f" by (rule sample_fdt)
  obtain ba where ba: "fst (boot_claim False f sample_kernel sample_dtb) = Ok ba"
    using sample_first_frame f by (auto split: res.splits)
  obtain ba' where "allocate ba = Ok (Some (AllocatedFrame (PhysFrame (PhysAddr 0x80003000))), ba')"
    using sample_first_frame f ba by (auto split: res.splits prod.splits)
  from allocates_some [of allocate, OF this allocates_none] f ba that show thesis
    by (cases "boot_claim False f sample_kernel sample_dtb") auto
qed

lemma sample_ranges_ok: "phys_range_ok sample_kernel" "phys_range_ok sample_dtb"
  by (simp_all add: sample_kernel_def sample_dtb_def phys_range_ok_def)

text \<open>A kernel that takes all of the memory leaves no frame.\<close>

definition sample_big_kernel :: phys_range where
  "sample_big_kernel = \<lparr>pr_start = PhysAddr 0x80000000, pr_end = PhysAddr 0x88000000\<rparr>"

lemma sample_big_kernel_ok: "phys_range_ok sample_big_kernel"
  by (simp add: sample_big_kernel_def phys_range_ok_def)

lemma sample_exhausted:
  "case fdt_from_ptr sample_memory sample_address of
     Ok f \<Rightarrow>
       (case fst (boot_claim False f sample_big_kernel sample_dtb) of
          Ok ba \<Rightarrow> (case allocate ba of Ok (fr, ba') \<Rightarrow> fr = None | _ \<Rightarrow> False)
        | _ \<Rightarrow> False)
   | _ \<Rightarrow> False"
  by code_simp

lemma sample_exhausted_run:
  obtains f ba c' ba' where "fdt_from_ptr sample_memory sample_address = Ok f"
    "boot_claim False f sample_big_kernel sample_dtb = (Ok ba, c')" "allocate ba = Ok (None, ba')"
proof -
  obtain f where f: "fdt_from_ptr sample_memory sample_address = Ok f" by (rule sample_fdt)
  obtain ba where ba: "fst (boot_claim False f sample_big_kernel sample_dtb) = Ok ba"
    using sample_exhausted f by (auto split: res.splits)
  obtain ba' where "allocate ba = Ok (None, ba')" using sample_exhausted f ba by (auto split: res.splits prod.splits)
  with f ba that show thesis by (cases "boot_claim False f sample_big_kernel sample_dtb") auto
qed

end
