(* ===== verification/Word_Bits.thy ===== *)
theory Word_Bits
  imports Prelude
begin

text \<open>
  Masks, shifts and alignment of words, read as arithmetic on natural numbers.  The kernel's
  address computations (\<open>a & !(align - 1)\<close>, \<open>a >> 12\<close>, \<open>(a >> 30) & 0x1ff\<close>) all go through
  these lemmas.
\<close>

unbundle bit_operations_syntax

named_theorems word_nat \<open>bit operations on words as division and remainder\<close>

section \<open>Setting and clearing bits\<close>

lemma mask_or: "((w :: 'l::len word) AND NOT m) OR m = w OR m" "(w AND NOT m) AND NOT m = w AND NOT m"
  by (rule bit_word_eqI, auto simp: bit_simps)+

lemma mask_id: "(w :: 'l::len word) AND m = m \<Longrightarrow> w OR m = w" "w AND m = 0 \<Longrightarrow> w AND NOT m = w"
  by (auto simp: bit_eq_iff bit_simps)

lemma and_single: "(w :: 'l::len word) AND 2 ^ n = (if bit w n then 2 ^ n else 0)"
  by (rule bit_word_eqI) (auto simp: bit_simps)

section \<open>Low bits and shifts\<close>

lemma unat_and_mask [word_nat]: "unat ((w :: 'l::len word) AND mask n) = unat w mod 2 ^ n"
  unfolding take_bit_eq_mask [symmetric] unsigned_take_bit_eq by (rule take_bit_eq_mod)

lemma unat_drop_bit [word_nat]: "unat (drop_bit n (w :: 'l::len word)) = unat w div 2 ^ n"
proof -
  have "take_bit LENGTH('l) (unat w) = unat w" by (simp add: take_bit_eq_mod unat_lt2p)
  then show ?thesis unfolding unsigned_drop_bit_eq by (simp only: drop_bit_eq_div)
qed

lemma and_mask_split: "(w :: 'l::len word) = (w AND NOT (mask n)) + (w AND mask n)"
  by (subst disjunctive_add) (auto simp: bit_eq_iff bit_simps)

lemma unat_clear_mask [word_nat]:
  "unat ((w :: 'l::len word) AND NOT (mask n)) = unat w div 2 ^ n * 2 ^ n"
proof -
  let ?hi = "w AND NOT (mask n)" and ?lo = "w AND mask n"
  have lo: "unat ?lo = unat w mod 2 ^ n" by (rule unat_and_mask)
  have le: "?lo \<le> w" unfolding word_le_nat_alt lo by simp
  have "?hi = w - ?lo" by (subst eq_diff_eq) (rule and_mask_split [symmetric])
  then have "unat ?hi = unat w - unat w mod 2 ^ n" using le lo by (simp add: unat_sub)
  then show ?thesis by (simp add: minus_mod_eq_div_mult)
qed

lemma and_mask_0: "(w :: 'l::len word) AND mask n = 0 \<longleftrightarrow> unat w mod 2 ^ n = 0"
  by (metis unat_and_mask unat_eq_0)

lemma minus_one_mask: "(2 :: 'l::len word) ^ n - 1 = mask n"
  by (simp add: mask_eq_decr_exp)

text \<open>A power of two, as an alignment.\<close>

definition is_power_of_two :: "'l::len word \<Rightarrow> bool" where
  "is_power_of_two w \<longleftrightarrow> (\<exists>n < LENGTH('l). w = 2 ^ n)"

lemma unat_power: "n < LENGTH('l) \<Longrightarrow> unat (2 ^ n :: 'l::len word) = 2 ^ n"
  using unat_of_nat [of "2 ^ n", where ?'a = 'l] by simp

lemma unat_align_down:
  assumes "is_power_of_two (a :: 'l::len word)"
  shows "unat (w AND NOT (a - 1)) = unat w div unat a * unat a"
  using assms by (auto simp: is_power_of_two_def minus_one_mask unat_clear_mask unat_power)

lemma align_down_le: "is_power_of_two a \<Longrightarrow> unat (w AND NOT (a - 1)) \<le> unat w"
  by (simp add: unat_align_down)

lemma align_down_mod: "is_power_of_two a \<Longrightarrow> unat (w AND NOT (a - 1)) mod unat a = 0"
  by (simp add: unat_align_down)

end
