(* ===== verification/Phys_Mem.thy ===== *)
theory Phys_Mem
  imports Word_Bits Frame
begin

text \<open>
  Physical memory as bytes, with the little-endian 64-bit accesses of the processor.  A page-table
  entry is the doubleword of one cell: frame number and index.
\<close>

unbundle bit_operations_syntax

section \<open>Model\<close>

type_synonym mem = "nat \<Rightarrow> u8"

definition load64 :: "mem \<Rightarrow> nat \<Rightarrow> kusize" where
  "load64 m a =
     ucast (m a) OR push_bit 8 (ucast (m (a + 1))) OR push_bit 16 (ucast (m (a + 2))) OR
     push_bit 24 (ucast (m (a + 3))) OR push_bit 32 (ucast (m (a + 4))) OR push_bit 40 (ucast (m (a + 5))) OR
     push_bit 48 (ucast (m (a + 6))) OR push_bit 56 (ucast (m (a + 7)))"

definition store64 :: "mem \<Rightarrow> nat \<Rightarrow> kusize \<Rightarrow> mem" where
  "store64 m a w = (\<lambda>x. if a \<le> x \<and> x < a + 8 then ucast (drop_bit (8 * (x - a)) w) else m x)"

text \<open>\<open>ptr::write_bytes\<close> and \<open>ptr::copy_nonoverlapping\<close>.\<close>

definition write_bytes :: "mem \<Rightarrow> nat \<Rightarrow> u8 \<Rightarrow> nat \<Rightarrow> mem" where
  "write_bytes m a v n = (\<lambda>x. if a \<le> x \<and> x < a + n then v else m x)"

definition copy_bytes :: "mem \<Rightarrow> nat \<Rightarrow> bytes \<Rightarrow> mem" where
  "copy_bytes m a bs = (\<lambda>x. if a \<le> x \<and> x < a + length bs then bs ! (x - a) else m x)"

section \<open>Doublewords\<close>

lemma bit_load64:
  "bit (load64 m a) n \<longleftrightarrow> n < 64 \<and> bit (m (a + n div 8)) (n mod 8)"
proof (cases "n < 64")
  case True
  have u8 [simp]: "8 \<le> k \<Longrightarrow> \<not> bit (b :: u8) k" for b k using bit_imp_le_length by fastforce
  define q r where "q = n div 8" and "r = n mod 8"
  have n: "n = q * 8 + r" and r: "r < 8" by (simp_all add: q_def r_def)
  with True have "q < 8" by simp
  then consider "q = 0" | "q = 1" | "q = 2" | "q = 3" | "q = 4" | "q = 5" | "q = 6" | "q = 7" by linarith
  then have "bit (load64 m a) n \<longleftrightarrow> bit (m (a + q)) r"
    by cases (use r in \<open>auto simp: n load64_def bit_or_iff bit_push_bit_iff bit_ucast_iff\<close>)
  with True show ?thesis by (simp add: q_def r_def)
qed (use bit_imp_le_length [of "load64 m a" n] in auto)

lemma load64_cong: "(\<And>i. i < 8 \<Longrightarrow> m (a + i) = m' (a + i)) \<Longrightarrow> load64 m a = load64 m' a"
  by (rule bit_word_eqI) (simp add: bit_load64)

lemma load64_store64 [simp]: "load64 (store64 m a w) a = w"
proof (rule bit_word_eqI)
  fix n assume n: "n < LENGTH(64)"
  have "n div 8 < 8" using n by simp
  then show "bit (load64 (store64 m a w) a) n \<longleftrightarrow> bit w n"
    using n by (simp add: bit_load64 store64_def bit_ucast_iff bit_drop_bit_eq)
qed

lemma store64_other: "x < a \<or> a + 8 \<le> x \<Longrightarrow> store64 m a w x = m x"
  by (auto simp: store64_def)

lemma store64_load64 [simp]: "store64 m a (load64 m a) = m"
proof
  fix x
  show "store64 m a (load64 m a) x = m x"
  proof (cases "a \<le> x \<and> x < a + 8")
    case True
    then obtain i where i: "x = a + i" "i < 8" by (metis le_Suc_ex nat_add_left_cancel_less)
    have "bit (ucast (drop_bit (8 * i) (load64 m a)) :: u8) n = bit (m (a + i)) n" if "n < 8" for n
    proof -
      have "(8 * i + n) div 8 = i" "(8 * i + n) mod 8 = n" "8 * i + n < 64" using that i by simp_all
      then show ?thesis using that by (simp add: bit_ucast_iff bit_drop_bit_eq bit_load64)
    qed
    then have "(ucast (drop_bit (8 * i) (load64 m a)) :: u8) = m (a + i)" by (auto intro: bit_word_eqI)
    with i show ?thesis by (simp add: store64_def)
  qed (auto simp: store64_def)
qed

lemma store64_store64 [simp]: "store64 (store64 m a v) a w = store64 m a w"
  by (auto simp: store64_def)

lemma store64_commute: "a + 8 \<le> b \<or> b + 8 \<le> a \<Longrightarrow> store64 (store64 m a v) b w = store64 (store64 m b w) a v"
  by (auto simp: store64_def)

lemma load64_store64_other: "a + 8 \<le> b \<or> b + 8 \<le> a \<Longrightarrow> load64 (store64 m a w) b = load64 m b"
  by (rule load64_cong) (auto intro: store64_other)

section \<open>Cells of frames\<close>

definition cell :: "nat \<Rightarrow> nat \<Rightarrow> nat" where
  "cell f i = f * 4096 + 8 * i"

abbreviation pte_at :: "mem \<Rightarrow> nat \<Rightarrow> nat \<Rightarrow> kusize" where
  "pte_at m f i \<equiv> load64 m (cell f i)"

definition set_entry :: "mem \<Rightarrow> nat \<Rightarrow> nat \<Rightarrow> kusize \<Rightarrow> mem" where
  "set_entry m f i w = store64 m (cell f i) w"

definition clear_frame :: "mem \<Rightarrow> nat \<Rightarrow> mem" where
  "clear_frame m f = write_bytes m (f * 4096) 0 4096"

lemma cell_disjoint:
  assumes "i < 512" "j < 512" "(f, i) \<noteq> (g, j)"
  shows "cell f i + 8 \<le> cell g j \<or> cell g j + 8 \<le> cell f i"
proof -
  consider "f < g" | "g < f" | "f = g" "i < j" | "f = g" "j < i" using assms(3) by force
  then show ?thesis
  proof cases
    case 1
    then have "f * 4096 + 4096 \<le> g * 4096" by simp
    then show ?thesis using assms(1) unfolding cell_def by linarith
  next
    case 2
    then have "g * 4096 + 4096 \<le> f * 4096" by simp
    then show ?thesis using assms(2) unfolding cell_def by linarith
  qed (auto simp: cell_def)
qed

lemma cell_eq [simp]: "i < 512 \<Longrightarrow> j < 512 \<Longrightarrow> cell f i = cell g j \<longleftrightarrow> f = g \<and> i = j"
  using cell_disjoint [of i j f g] by (cases "(f, i) = (g, j)") auto

lemma cell_frame [simp]: "i < 512 \<Longrightarrow> cell f i div 4096 = f"
  unfolding cell_def by (rule div_nat_eqI) auto

lemma entry_set_entry:
  "i < 512 \<Longrightarrow> j < 512 \<Longrightarrow> pte_at (set_entry m f i w) g j = (if f = g \<and> i = j then w else pte_at m g j)"
  using cell_disjoint [of i j f g] load64_store64_other [of "cell f i" "cell g j" m w] by (auto simp: set_entry_def)

lemma set_entry_other:
  assumes "i < 512" "x div 4096 \<noteq> f" shows "set_entry m f i w x = m x"
proof -
  have "x < cell f i \<or> cell f i + 8 \<le> x"
  proof (rule ccontr)
    assume "\<not> ?thesis"
    then have "x div 4096 = f" using assms(1) unfolding cell_def by (intro div_nat_eqI) simp_all
    with assms(2) show False by simp
  qed
  then show ?thesis by (simp add: set_entry_def store64_other)
qed

lemma clear_frame_apply: "clear_frame m f x = (if x div 4096 = f then 0 else m x)"
proof -
  have "f * 4096 \<le> x \<and> x < f * 4096 + 4096 \<longleftrightarrow> x div 4096 = f"
    using div_nat_eqI [of f 4096 x] div_times_less_eq_dividend [of x 4096] dividend_less_div_times [of 4096 x]
    by (auto simp: mult.commute)
  then show ?thesis by (simp add: clear_frame_def write_bytes_def)
qed

lemma cell_byte_frame: "i < 512 \<Longrightarrow> k < 8 \<Longrightarrow> (cell f i + k) div 4096 = f"
  unfolding cell_def by (intro div_nat_eqI) simp_all

lemma entry_cong: "i < 512 \<Longrightarrow> (\<And>x. x div 4096 = f \<Longrightarrow> m x = m' x) \<Longrightarrow> pte_at m f i = pte_at m' f i"
  by (rule load64_cong) (simp add: cell_byte_frame)

lemma entry_clear_frame:
  assumes "i < 512" shows "pte_at (clear_frame m f) g i = (if f = g then 0 else pte_at m g i)"
proof (cases "f = g")
  case True
  have "pte_at (clear_frame m f) g i = pte_at (\<lambda>_. 0) g i"
    using assms by (intro entry_cong) (auto simp: clear_frame_apply True)
  then show ?thesis using True by (simp add: load64_def)
next
  case False
  then show ?thesis using assms by (auto intro: entry_cong simp: clear_frame_apply)
qed

lemma set_entry_clear_commute:
  assumes "i < 512" "f \<noteq> g" shows "set_entry (clear_frame m g) f i w = clear_frame (set_entry m f i w) g"
proof
  fix x
  show "set_entry (clear_frame m g) f i w x = clear_frame (set_entry m f i w) g x"
  proof (cases "x div 4096 = f")
    case True
    then show ?thesis using assms by (auto simp: clear_frame_apply set_entry_def store64_def)
  next
    case False
    then show ?thesis using assms by (simp add: clear_frame_apply set_entry_other)
  qed
qed

end
