(* ===== verification/State_Result.thy ===== *)
theory State_Result
  imports Prelude
begin

text \<open>
  Operations that change a state and may fail.  The state is returned in every case: what an
  operation changed before it failed stays changed, as with \<open>&mut self\<close> in the sources.
\<close>

type_synonym ('s, 'a, 'e) op = "'s \<Rightarrow> ('a, 'e) res \<times> 's"

named_theorems op_simps \<open>simplification of stateful operations\<close>

definition ret_op :: "'a \<Rightarrow> ('s, 'a, 'e) op" where
  "ret_op a s = (Ok a, s)"

definition err_op :: "'e \<Rightarrow> ('s, 'a, 'e) op" where
  "err_op e s = (Err e, s)"

text \<open>A computation that does not touch the state.\<close>

definition lift_op :: "('a, 'e) res \<Rightarrow> ('s, 'a, 'e) op" where
  "lift_op r s = (r, s)"

text \<open>The question-mark operator.\<close>

definition bind_op :: "('s, 'a, 'e) op \<Rightarrow> ('a \<Rightarrow> ('s, 'b, 'e) op) \<Rightarrow> ('s, 'b, 'e) op" where
  "bind_op m f s =
     (case m s of (r, s') \<Rightarrow>
        (case r of Ok a \<Rightarrow> f a s' | Err e \<Rightarrow> (Err e, s') | Panic \<Rightarrow> (Panic, s') | Diverge \<Rightarrow> (Diverge, s')))"

definition map_err_op :: "('e \<Rightarrow> 'f) \<Rightarrow> ('s, 'a, 'e) op \<Rightarrow> ('s, 'a, 'f) op" where
  "map_err_op g m s = (case m s of (r, s') \<Rightarrow> (map_err g r, s'))"

definition get_op :: "('s \<Rightarrow> 'a) \<Rightarrow> ('s, 'a, 'e) op" where
  "get_op f s = (Ok (f s), s)"

definition modify_op :: "('s \<Rightarrow> 's) \<Rightarrow> ('s, unit, 'e) op" where
  "modify_op f s = (Ok (), f s)"

text \<open>A \<open>for\<close> loop over a list, left at the first failure.\<close>

fun for_op :: "('a \<Rightarrow> ('s, unit, 'e) op) \<Rightarrow> 'a list \<Rightarrow> ('s, unit, 'e) op" where
  "for_op f [] s = (Ok (), s)"
| "for_op f (x # xs) s =
     (case f x s of (r, s') \<Rightarrow>
        (case r of Ok _ \<Rightarrow> for_op f xs s' | Err e \<Rightarrow> (Err e, s') | Panic \<Rightarrow> (Panic, s') | Diverge \<Rightarrow> (Diverge, s')))"

lemma op_simps_basic [simp, op_simps]:
  "ret_op a s = (Ok a, s)" "err_op e s = (Err e, s)" "lift_op r s = (r, s)"
  "get_op g s = (Ok (g s), s)" "modify_op h s = (Ok (), h s)"
  by (simp_all add: ret_op_def err_op_def lift_op_def get_op_def modify_op_def)

lemma bind_op_apply [op_simps]:
  "m s = (Ok a, s') \<Longrightarrow> bind_op m f s = f a s'"
  "m s = (Err e, s') \<Longrightarrow> bind_op m f s = (Err e, s')"
  "m s = (Panic, s') \<Longrightarrow> bind_op m f s = (Panic, s')"
  "m s = (Diverge, s') \<Longrightarrow> bind_op m f s = (Diverge, s')"
  by (simp_all add: bind_op_def)

lemma map_err_op_apply [op_simps]: "m s = (r, s') \<Longrightarrow> map_err_op g m s = (map_err g r, s')"
  by (simp add: map_err_op_def)

lemma for_op_append: "for_op f (xs @ ys) = bind_op (for_op f xs) (\<lambda>_. for_op f ys)"
proof
  fix s
  show "for_op f (xs @ ys) s = bind_op (for_op f xs) (\<lambda>_. for_op f ys) s"
    by (induction xs arbitrary: s) (auto simp: bind_op_def split: prod.splits res.splits)
qed

lemma bind_op_OkE:
  assumes "bind_op m f s = (Ok b, s'')"
  obtains a s' where "m s = (Ok a, s')" "f a s' = (Ok b, s'')"
  using assms by (cases "m s"; cases "fst (m s)") (auto simp: bind_op_def)

lemma bind_op_cases:
  assumes "bind_op m f s = (r, s'')"
  obtains (Ok) a s' where "m s = (Ok a, s')" "f a s' = (r, s'')"
    | (Err) e where "m s = (Err e, s'')" "r = Err e"
    | (Panic) "m s = (Panic, s'')" "r = Panic"
    | (Diverge) "m s = (Diverge, s'')" "r = Diverge"
  using assms by (cases "m s"; cases "fst (m s)") (auto simp: bind_op_def)

lemma bind_op_assoc: "bind_op (bind_op m f) g = bind_op m (\<lambda>x. bind_op (f x) g)"
  by (rule ext) (auto simp: bind_op_def split: prod.split res.split)

text \<open>An operation that returns either fails or hands its value on.\<close>

lemma bind_op_returns:
  assumes "bind_op m f s = (r, s'')" "returns (fst (m s))"
  obtains (Err) e where "m s = (Err e, s'')" "r = Err e"
    | (Ok) a s' where "m s = (Ok a, s')" "f a s' = (r, s'')"
  using assms by (cases rule: bind_op_cases) auto

end
