(* ===== verification/Sv39.thy ===== *)
theory Sv39
  imports Phys_Mem State_Result
begin

text \<open>
  Sv39 page-table entries and the address translation of the processor.  The constants, the errors
  and the functions on entries are those of \<open>kernel/src/arch/riscv64/paging.rs\<close>.  \<open>translate\<close>
  is the walk the RISC-V privileged specification gives for supervisor accesses: it is what the
  page tables mean, and the specification of the mapping code.  Translations are looked up in
  memory at every access, so the fences of the sources have no effect of their own here.
\<close>

unbundle bit_operations_syntax

section \<open>Constants\<close>

definition SV39_HIGH_HALF_BASE :: kusize where "SV39_HIGH_HALF_BASE = 0xFFFFFFC000000000"
definition SV39_HIGH_HALF_VPN2 :: kusize where "SV39_HIGH_HALF_VPN2 = 0x100"
definition SV39_LOW_HALF_END :: kusize where "SV39_LOW_HALF_END = 0x4000000000"
definition PAGE_SIZE :: kusize where "PAGE_SIZE = 4096"
definition PAGE_MASK :: kusize where "PAGE_MASK = 0xFFF"
definition PAGE_TABLE_ENTRIES :: kusize where "PAGE_TABLE_ENTRIES = 512"
definition GIGAPAGE_SIZE :: kusize where "GIGAPAGE_SIZE = 0x40000000"
definition GIGAPAGE_MASK :: kusize where "GIGAPAGE_MASK = 0x3FFFFFFF"
definition VPN_MASK :: kusize where "VPN_MASK = 0x1FF"
definition PTE_VALID :: kusize where "PTE_VALID = 1"
definition PTE_READ :: kusize where "PTE_READ = 2"
definition PTE_WRITE :: kusize where "PTE_WRITE = 4"
definition PTE_EXECUTE :: kusize where "PTE_EXECUTE = 8"
definition PTE_USER :: kusize where "PTE_USER = 16"
definition PTE_ACCESSED :: kusize where "PTE_ACCESSED = 64"
definition PTE_DIRTY :: kusize where "PTE_DIRTY = 128"
definition PTE_LEAF_MASK :: kusize where "PTE_LEAF_MASK = PTE_READ OR PTE_WRITE OR PTE_EXECUTE"
definition BOOT_FDT_PTE_FLAGS :: kusize where "BOOT_FDT_PTE_FLAGS = PTE_VALID OR PTE_READ OR PTE_ACCESSED"
definition BOOT_FDT_WINDOW_BASE :: kusize where "BOOT_FDT_WINDOW_BASE = SV39_HIGH_HALF_BASE"
definition BOOT_FDT_WINDOW_VPN2 :: kusize where "BOOT_FDT_WINDOW_VPN2 = SV39_HIGH_HALF_VPN2"
definition BOOT_FDT_WINDOW_GIGAPAGES :: nat where "BOOT_FDT_WINDOW_GIGAPAGES = 5"
definition BOOT_FRAME_WINDOW_VPN2 :: kusize where "BOOT_FRAME_WINDOW_VPN2 = VPN_MASK"
definition BOOT_FRAME_WINDOW_BASE :: kusize where
  "BOOT_FRAME_WINDOW_BASE = SV39_HIGH_HALF_BASE + (BOOT_FRAME_WINDOW_VPN2 - SV39_HIGH_HALF_VPN2) * GIGAPAGE_SIZE"
definition FRAME_WINDOW_PTE_FLAGS :: kusize where
  "FRAME_WINDOW_PTE_FLAGS = PTE_VALID OR PTE_READ OR PTE_WRITE OR PTE_ACCESSED OR PTE_DIRTY"
definition SATP_MODE_MASK :: kusize where "SATP_MODE_MASK = 0xF"
definition SATP_MODE_SV39 :: kusize where "SATP_MODE_SV39 = 8"
definition SATP_PPN_MASK :: kusize where "SATP_PPN_MASK = 0xFFFFFFFFFFF"
definition MAX_PHYSICAL_ADDRESS :: kusize where "MAX_PHYSICAL_ADDRESS = 0xFFFFFFFFFFFFFF"

section \<open>Errors and entries\<close>

datatype PagingError =
    VirtualAddressNotUser kusize
  | RootEntryInUse kusize kusize
  | UnexpectedAddressTranslationMode kusize
  | PhysicalAddressNotRepresentable PhysAddr
  | PhysicalRangeNotRepresentable PhysAddr kusize
  | InvalidKernelSection virt_range
  | InvalidDtbMapping VirtAddr phys_range
  | OutOfPhysicalFrames
  | VirtualAddressNotPageAligned kusize
  | VirtualAddressNotCanonical kusize
  | InvalidIntermediateEntry kusize kusize
  | PageAlreadyMapped kusize kusize
  | PageTableIndexOutOfRange kusize
  | VirtualAddressNotKernel kusize
  | ReservedVirtualPage kusize
  | BootstrapPagingAlreadyClaimed
  | KernelHeapAlreadyClaimed

datatype PagePrivilege = Supervisor | User

definition permission_bits :: "PagePermissions \<Rightarrow> kusize" where
  "permission_bits permissions =
     (case permissions of
        ReadOnly \<Rightarrow> PTE_READ
      | ReadWrite \<Rightarrow> PTE_READ OR PTE_WRITE
      | ReadExecute \<Rightarrow> PTE_READ OR PTE_EXECUTE)"

definition page_table_entry :: "PhysAddr \<Rightarrow> kusize \<Rightarrow> (kusize, PagingError) res" where
  "page_table_entry physical_address flags =
     (if pa_as_usize physical_address > MAX_PHYSICAL_ADDRESS
      then Err (PhysicalAddressNotRepresentable physical_address)
      else Ok (push_bit 10 (drop_bit 12 (pa_as_usize physical_address)) OR flags))"

definition intermediate_frame :: "kusize \<Rightarrow> kusize \<Rightarrow> (PhysFrame, PagingError) res" where
  "intermediate_frame index entry =
     (if entry AND PTE_VALID = 0 \<or> entry AND PTE_LEAF_MASK \<noteq> 0 then Err (InvalidIntermediateEntry index entry)
      else
        let physical_page_number = drop_bit 10 entry AND SATP_PPN_MASK;
            physical_address = PhysAddr (push_bit 12 physical_page_number) in
        (case phys_frame_from_start physical_address of
           None \<Rightarrow> Err (InvalidIntermediateEntry index entry)
         | Some frame \<Rightarrow> Ok frame))"

section \<open>Address translation\<close>

text \<open>The fields of an entry, and of a virtual address.\<close>

definition pte_ppn :: "kusize \<Rightarrow> nat" where
  "pte_ppn e = unat e div 2 ^ 10 mod 2 ^ 44"

definition pte_link :: "kusize \<Rightarrow> bool" where
  "pte_link e \<longleftrightarrow> bit e 0 \<and> \<not> bit e 1 \<and> \<not> bit e 2 \<and> \<not> bit e 3"

definition vpn :: "nat \<Rightarrow> nat \<Rightarrow> nat" where
  "vpn level a = a div 2 ^ (12 + 9 * level) mod 512"

definition canonical :: "nat \<Rightarrow> bool" where
  "canonical a \<longleftrightarrow> a < 2 ^ 38 \<or> 2 ^ 64 - 2 ^ 38 \<le> a"

datatype access_kind = Load | Store

text \<open>
  A leaf permits a supervisor access when it is valid, well formed, readable or writable as asked,
  not a user page, and its accessed and dirty bits need no update.
\<close>

definition leaf_permits :: "access_kind \<Rightarrow> kusize \<Rightarrow> bool" where
  "leaf_permits k e \<longleftrightarrow> bit e 0 \<and> bit e 1 \<and> \<not> bit e 4 \<and> bit e 6 \<and> (k = Store \<longrightarrow> bit e 2 \<and> bit e 7) \<and>
     unat e div 2 ^ 54 = 0"

text \<open>One step of the walk at a level: a link is followed, a leaf must be aligned to its size.\<close>

fun walk :: "mem \<Rightarrow> access_kind \<Rightarrow> nat \<Rightarrow> nat \<Rightarrow> nat \<Rightarrow> nat option" where
  "walk m k a level table = (
     let e = pte_at m table (vpn level a) in
     if pte_link e \<and> unat e div 2 ^ 54 = 0 then (case level of 0 \<Rightarrow> None | Suc l \<Rightarrow> walk m k a l (pte_ppn e))
     else if leaf_permits k e \<and> pte_ppn e mod 512 ^ level = 0
       then Some (pte_ppn e * 4096 + a mod (4096 * 512 ^ level))
     else None)"

definition satp_root :: "kusize \<Rightarrow> nat option" where
  "satp_root satp = (if unat satp div 2 ^ 60 = 8 then Some (unat satp mod 2 ^ 44) else None)"

definition translate :: "mem \<Rightarrow> kusize \<Rightarrow> access_kind \<Rightarrow> nat \<Rightarrow> nat option" where
  "translate m satp k a =
     (case satp_root satp of None \<Rightarrow> None | Some root \<Rightarrow> if canonical a then walk m k a 2 root else None)"

declare walk.simps [simp del]

section \<open>Entries and frames by number\<close>

definition frame_of :: "nat \<Rightarrow> PhysFrame" where
  "frame_of n = PhysFrame (PhysAddr (word_of_nat (n * 4096)))"

definition mk_pte :: "nat \<Rightarrow> kusize \<Rightarrow> kusize" where
  "mk_pte n flags = push_bit 10 (word_of_nat n) OR flags"

text \<open>The page numbers an entry can hold.\<close>

definition representable :: "nat \<Rightarrow> bool" where
  "representable n \<longleftrightarrow> n < 2 ^ 44"

lemma unat_kusize_of_nat: "n < 2 ^ 64 \<Longrightarrow> unat (word_of_nat n :: kusize) = n"
  by (simp only: unat_of_nat) simp

lemma pa_frame_of: "representable n \<Longrightarrow> pa (pf_start_address (frame_of n)) = n * 4096"
  using unat_kusize_of_nat [of "n * 4096"] by (simp add: frame_of_def representable_def)

lemma frame_no_frame_of [simp]: "representable n \<Longrightarrow> frame_no (frame_of n) = n"
  by (simp add: frame_no_def pa_frame_of)

lemma frame_ok_frame_of [simp]: "representable n \<Longrightarrow> frame_ok (frame_of n)"
  by (simp add: frame_ok_def frame_aligned_def pa_frame_of) (simp add: representable_def)

lemma pa_frame_no: "frame_ok f \<Longrightarrow> pa (pf_start_address f) = frame_no f * 4096"
  unfolding frame_ok_def frame_aligned_def frame_no_def by (metis mod_0_imp_dvd dvd_div_mult_self)

lemma frame_of_frame_no: "frame_ok f \<Longrightarrow> frame_of (frame_no f) = f"
  using pa_frame_no [of f] by (simp add: frame_of_def flip: pa_frame_no)

lemma pte_representable [simp]: "representable (pte_ppn e)"
  by (simp add: representable_def pte_ppn_def)

lemma max_physical_iff: "frame_ok f \<Longrightarrow> pa_as_usize (pf_start_address f) > MAX_PHYSICAL_ADDRESS \<longleftrightarrow> \<not> representable (frame_no f)"
proof -
  assume ok: "frame_ok f"
  have "pa (pf_start_address f) > 72057594037927935 \<longleftrightarrow> \<not> frame_no f < 2 ^ 44"
    unfolding pa_frame_no [OF ok] by simp linarith
  then show ?thesis by (simp add: MAX_PHYSICAL_ADDRESS_def word_less_nat_alt representable_def)
qed

lemma page_table_entry_frame:
  assumes "frame_ok f"
  shows "page_table_entry (pf_start_address f) flags =
    (if representable (frame_no f) then Ok (mk_pte (frame_no f) flags)
     else Err (PhysicalAddressNotRepresentable (pf_start_address f)))"
proof -
  have "drop_bit 12 (pa_as_usize (pf_start_address f)) = word_of_nat (frame_no f)"
  proof -
    have "pa (pf_start_address f) div 4096 < 2 ^ 64" using unat_kusize [of "pa_as_usize (pf_start_address f)"] by simp
    then show ?thesis
      unfolding word_unat_eq_iff unat_drop_bit frame_no_def by (subst unat_kusize_of_nat) simp_all
  qed
  then show ?thesis using max_physical_iff [OF assms] by (simp add: page_table_entry_def mk_pte_def)
qed

lemma bit_mk_pte: "n < 10 \<Longrightarrow> bit (mk_pte f flags) n \<longleftrightarrow> bit flags n"
  by (simp add: mk_pte_def bit_or_iff bit_push_bit_iff)

lemma unat_mk_pte:
  assumes "representable f" "unat flags < 1024"
  shows "unat (mk_pte f flags) = f * 1024 + unat flags"
proof -
  let ?p = "push_bit 10 (word_of_nat f) :: kusize"
  have p: "unat ?p = f * 1024"
    using assms(1) by (simp add: push_bit_eq_mult unat_word_ariths unat_of_nat representable_def)
  have low: "\<not> bit flags n" if "10 \<le> n" for n
  proof -
    have "take_bit 10 flags = flags"
      using assms(2) unfolding word_unat_eq_iff unsigned_take_bit_eq by (simp add: take_bit_nat_eq_self_iff)
    with that show ?thesis by (metis bit_take_bit_iff not_le)
  qed
  have "mk_pte f flags = ?p + flags"
    unfolding mk_pte_def by (rule disjunctive_add [symmetric]) (use low in \<open>auto simp: bit_push_bit_iff\<close>)
  then show ?thesis using p assms by (simp add: unat_word_ariths representable_def)
qed

lemma pte_ppn_mk_pte:
  assumes "representable f" "unat flags < 1024"
  shows "pte_ppn (mk_pte f flags) = f" "unat (mk_pte f flags) div 2 ^ 54 = 0"
proof -
  have "(f * 1024 + unat flags) div 1024 = f" using assms(2) by simp
  then show "pte_ppn (mk_pte f flags) = f" using assms by (simp add: pte_ppn_def unat_mk_pte representable_def)
  show "unat (mk_pte f flags) div 2 ^ 54 = 0" using assms by (simp add: unat_mk_pte representable_def)
qed

lemma pte_link_iff: "\<not> (e AND PTE_VALID = 0 \<or> e AND PTE_LEAF_MASK \<noteq> 0) \<longleftrightarrow> pte_link e"
proof -
  have "e AND PTE_VALID = 0 \<longleftrightarrow> \<not> bit e 0" using and_single [of e 0] by (simp add: PTE_VALID_def)
  moreover have "e AND PTE_LEAF_MASK = 0 \<longleftrightarrow> e AND 2 = 0 \<and> e AND 4 = 0 \<and> e AND 8 = 0"
    unfolding PTE_LEAF_MASK_def PTE_READ_def PTE_WRITE_def PTE_EXECUTE_def bit.conj_disj_distrib or_eq_0_iff by simp
  moreover have "e AND 2 = 0 \<longleftrightarrow> \<not> bit e 1" "e AND 4 = 0 \<longleftrightarrow> \<not> bit e 2" "e AND 8 = 0 \<longleftrightarrow> \<not> bit e 3"
    using and_single [of e 1] and_single [of e 2] and_single [of e 3] by simp_all
  ultimately show ?thesis by (simp add: pte_link_def)
qed

lemma intermediate_frame_eq:
  "intermediate_frame i e =
     (if pte_link e then Ok (frame_of (pte_ppn e)) else Err (InvalidIntermediateEntry i e))"
proof -
  let ?p = "push_bit 12 (drop_bit 10 e AND SATP_PPN_MASK)"
  have mask: "SATP_PPN_MASK = mask 44" by (simp add: SATP_PPN_MASK_def mask_eq_decr_exp)
  have ppn: "unat (drop_bit 10 e AND SATP_PPN_MASK) = pte_ppn e"
    by (simp add: mask unat_and_mask unat_drop_bit pte_ppn_def)
  have un: "unat ?p = pte_ppn e * 4096"
    using pte_representable [of e] unfolding representable_def
    by (simp add: push_bit_eq_mult unat_word_ariths ppn)
  then have "?p = word_of_nat (pte_ppn e * 4096)" by (simp flip: un)
  then have "PhysFrame (PhysAddr ?p) = frame_of (pte_ppn e)" by (simp add: frame_of_def)
  moreover have "phys_frame_from_start (PhysAddr ?p) = Some (PhysFrame (PhysAddr ?p))"
    using frame_ok_frame_of [OF pte_representable, of e] unfolding phys_frame_from_start_Some calculation [symmetric]
    by (simp only: frame_ok_def PhysFrame.sel)
  ultimately show ?thesis
    unfolding intermediate_frame_def Let_def using pte_link_iff [of e] by auto
qed

lemma vpn_lt [simp]: "vpn l a < 512"
  by (simp add: vpn_def)

lemma unat_vpn:
  "unat (drop_bit 30 w AND VPN_MASK) = vpn 2 (unat w)" "unat (drop_bit 21 w AND VPN_MASK) = vpn 1 (unat w)"
  "unat (drop_bit 12 w AND VPN_MASK) = vpn 0 (unat w)"
proof -
  have mask: "VPN_MASK = mask 9" by (simp add: VPN_MASK_def mask_eq_decr_exp)
  show "unat (drop_bit 30 w AND VPN_MASK) = vpn 2 (unat w)" "unat (drop_bit 21 w AND VPN_MASK) = vpn 1 (unat w)"
    "unat (drop_bit 12 w AND VPN_MASK) = vpn 0 (unat w)"
    by (simp_all add: mask unat_and_mask unat_drop_bit vpn_def)
qed

end
