(* ===== verification/Heap.thy ===== *)
theory Heap
  imports State_Result Word_Bits Frame
begin

text \<open>
  The kernel heap, \<open>kernel/src/memory/heap.rs\<close>: a downward-growing allocator over a reserved
  virtual range whose pages are backed on demand.  The trait \<open>HeapBacking\<close> is the locale
  \<open>heap_backing\<close>; the lemmas on blocks are proved in it, and the paging component interprets it
  with its own \<open>map_page\<close>.
\<close>

unbundle bit_operations_syntax

section \<open>Model\<close>

text \<open>\<open>core::alloc::Layout\<close>: a size and an alignment, which is a power of two.\<close>

record layout =
  ly_size :: kusize
  ly_align :: kusize

datatype 'e HeapError =
    HeapInvalidRange virt_range
  | ZeroSizedAllocation
  | Exhausted
  | Backing 'e

record kernel_heap =
  hp_range :: virt_range
  hp_cursor :: VirtAddr
  hp_mapped_start :: VirtAddr

type_synonym ('b, 'e) backing = "VirtAddr \<Rightarrow> ('b, unit, 'e) op"

function back_to :: "('b, 'e) backing \<Rightarrow> VirtAddr \<Rightarrow> (kernel_heap \<times> 'b, unit, 'e HeapError) op" where
  "back_to map_page start (heap, b) =
     (if va_as_usize start < va_as_usize (hp_mapped_start heap) then
        (case checked_sub (va_as_usize (hp_mapped_start heap)) FRAME_SIZE of
           None \<Rightarrow> (Err Exhausted, (heap, b))
         | Some address \<Rightarrow>
             (case map_page (VirtAddr address) b of (r, b') \<Rightarrow>
                (case r of
                   Ok _ \<Rightarrow> back_to map_page start (heap\<lparr>hp_mapped_start := VirtAddr address\<rparr>, b')
                 | Err e \<Rightarrow> (Err (Backing e), (heap, b'))
                 | Panic \<Rightarrow> (Panic, (heap, b'))
                 | Diverge \<Rightarrow> (Diverge, (heap, b')))))
      else (Ok (), (heap, b)))"
  by pat_completeness auto
termination
  by (relation "measure (\<lambda>(f, start, heap, b). va (hp_mapped_start heap))")
    (simp_all add: checked_sub_SomeD)

declare back_to.simps [simp del]

definition heap_new :: "virt_range \<Rightarrow> ('b, 'e) backing \<Rightarrow> ('b, kernel_heap, 'e HeapError) op" where
  "heap_new rng map_page b = (
     let start = va_as_usize (vr_start rng); stop = va_as_usize (vr_end rng) in
     if start = 0 \<or> start mod FRAME_SIZE \<noteq> 0 \<or> stop mod FRAME_SIZE \<noteq> 0 then (Err (HeapInvalidRange rng), b)
     else (
       let heap = \<lparr>hp_range = rng, hp_cursor = vr_end rng, hp_mapped_start = vr_end rng\<rparr> in
       case checked_sub stop FRAME_SIZE of
         None \<Rightarrow> (Err (HeapInvalidRange rng), b)
       | Some first_page \<Rightarrow>
           (case back_to map_page (VirtAddr first_page) (heap, b) of (r, heap', b') \<Rightarrow>
              (bind_res r (\<lambda>_. Ok heap'), b'))))"

text \<open>A pointer is the address it exposes; \<open>NonNull::new\<close> rejects zero.\<close>

definition non_null :: "kusize \<Rightarrow> kusize option" where
  "non_null address = (if address = 0 then None else Some address)"

definition block_address :: "kernel_heap \<Rightarrow> layout \<Rightarrow> kusize option" where
  "block_address heap layout =
     (case map_option (\<lambda>address. address AND NOT (ly_align layout - 1))
             (checked_sub (va_as_usize (hp_cursor heap)) (ly_size layout)) of
        None \<Rightarrow> None
      | Some address \<Rightarrow> if address \<ge> va_as_usize (vr_start (hp_range heap)) then Some address else None)"

definition heap_allocate ::
    "layout \<Rightarrow> ('b, 'e) backing \<Rightarrow> (kernel_heap \<times> 'b, kusize, 'e HeapError) op" where
  "heap_allocate layout map_page =
     (if ly_size layout = 0 then err_op ZeroSizedAllocation else
      bind_op (\<lambda>s. (ok_or Exhausted (block_address (fst s) layout), s)) (\<lambda>address.
      bind_op (lift_op (ok_or Exhausted (non_null address))) (\<lambda>pointer.
      let first_page = VirtAddr (address AND NOT (FRAME_SIZE - 1)) in
      bind_op (back_to map_page first_page) (\<lambda>_.
      bind_op (modify_op (\<lambda>(heap, b). (heap\<lparr>hp_cursor := VirtAddr address\<rparr>, b))) (\<lambda>_.
      ret_op pointer)))))"

section \<open>The state of a heap\<close>

definition alloc_layout_ok :: "layout \<Rightarrow> bool" where
  "alloc_layout_ok l \<longleftrightarrow> is_power_of_two (ly_align l)"

definition page_aligned :: "nat \<Rightarrow> bool" where
  "page_aligned n \<longleftrightarrow> n mod 4096 = 0"

text \<open>The pages between two aligned addresses, by their first byte.\<close>

definition pages :: "nat \<Rightarrow> nat \<Rightarrow> nat set" where
  "pages lo hi = {p. page_aligned p \<and> lo \<le> p \<and> p < hi}"

definition heap_lo :: "kernel_heap \<Rightarrow> nat" where "heap_lo h = va (vr_start (hp_range h))"
definition heap_hi :: "kernel_heap \<Rightarrow> nat" where "heap_hi h = va (vr_end (hp_range h))"

definition heap_ok :: "kernel_heap \<Rightarrow> bool" where
  "heap_ok h \<longleftrightarrow> 0 < heap_lo h \<and> page_aligned (heap_lo h) \<and> page_aligned (heap_hi h) \<and>
     page_aligned (va (hp_mapped_start h)) \<and> heap_lo h \<le> va (hp_mapped_start h) \<and>
     va (hp_mapped_start h) \<le> va (hp_cursor h) \<and> va (hp_cursor h) \<le> heap_hi h"

text \<open>The block a request would get.\<close>

definition block_at :: "kernel_heap \<Rightarrow> layout \<Rightarrow> nat" where
  "block_at h l = (va (hp_cursor h) - unat (ly_size l)) div unat (ly_align l) * unat (ly_align l)"

definition fits :: "kernel_heap \<Rightarrow> layout \<Rightarrow> bool" where
  "fits h l \<longleftrightarrow> unat (ly_size l) \<le> va (hp_cursor h) \<and> heap_lo h \<le> block_at h l"

lemma block_address_eq:
  assumes "alloc_layout_ok l"
  shows "block_address h l = (if fits h l then Some (word_of_nat (block_at h l)) else None)"
proof (cases "checked_sub (va_as_usize (hp_cursor h)) (ly_size l)")
  case None
  then have "\<not> fits h l" by (auto simp: fits_def checked_sub_None)
  with None show ?thesis by (simp add: block_address_def)
next
  case (Some d)
  then have d: "unat d = va (hp_cursor h) - unat (ly_size l)" "unat (ly_size l) \<le> va (hp_cursor h)"
    by (simp_all add: checked_sub_SomeD)
  let ?a = "d AND NOT (ly_align l - 1)"
  have a: "unat ?a = block_at h l"
    using assms by (simp add: alloc_layout_ok_def unat_align_down block_at_def d)
  then have "?a = word_of_nat (block_at h l)" by (simp flip: a)
  with a d(2) Some show ?thesis
    by (simp add: block_address_def fits_def heap_lo_def word_le_nat_alt)
qed

lemma block_at_bounds:
  assumes "alloc_layout_ok l" "fits h l"
  shows "block_at h l + unat (ly_size l) \<le> va (hp_cursor h)" "block_at h l mod unat (ly_align l) = 0"
    "block_at h l < 2 ^ 64"
proof -
  have "block_at h l \<le> va (hp_cursor h) - unat (ly_size l)" by (simp add: block_at_def)
  then show "block_at h l + unat (ly_size l) \<le> va (hp_cursor h)" using assms(2) unfolding fits_def by linarith
  then show "block_at h l < 2 ^ 64" using unat_lt2p [of "va_as_usize (hp_cursor h)"] by simp
qed (simp add: block_at_def)

lemma aligned_gap: "page_aligned p \<Longrightarrow> page_aligned q \<Longrightarrow> p < q \<Longrightarrow> p + 4096 \<le> q"
  by (auto simp: page_aligned_def mod_eq_0_iff_dvd dvd_def)

lemma aligned_pred: "p + 4096 = q \<Longrightarrow> page_aligned q \<Longrightarrow> page_aligned p"
  by (auto simp: page_aligned_def)

lemma pages_insert:
  assumes "page_aligned p" "p + 4096 \<le> hi" "page_aligned hi"
  shows "pages p hi = insert p (pages (p + 4096) hi)"
proof -
  have "q = p \<or> p + 4096 \<le> q" if "page_aligned q" "p \<le> q" for q
    using aligned_gap [OF assms(1) that(1)] that(2) by linarith
  then show ?thesis using assms(1,2) by (auto simp: pages_def)
qed

lemma round_down_mono_aligned: "page_aligned p \<Longrightarrow> p \<le> n \<Longrightarrow> p \<le> round_down n"
  unfolding page_aligned_def round_down_def by (metis div_le_mono mod_0_imp_dvd dvd_div_mult_self mult_le_mono1)

lemma pages_empty [simp]: "pages hi hi = {}"
  by (auto simp: pages_def)

lemma FRAME_mask: "FRAME_SIZE - 1 = mask 12"
  by (simp add: FRAME_SIZE_def mask_eq_decr_exp)

lemma page_of: "unat (a AND NOT (FRAME_SIZE - 1)) = round_down (unat a)"
  by (simp add: FRAME_mask unat_clear_mask round_down_def)

text \<open>The bytes of a block, the pages that cover it, and what a served request guarantees.\<close>

definition block_span :: "layout \<times> kusize \<Rightarrow> nat set" where
  "block_span x = {unat (snd x) ..< unat (snd x) + unat (ly_size (fst x))}"

definition block_pages :: "layout \<times> kusize \<Rightarrow> nat set" where
  "block_pages x = {p. page_aligned p \<and> p < unat (snd x) + unat (ly_size (fst x)) \<and> unat (snd x) < p + 4096}"

text \<open>A sequence of requests: the blocks given out, in order; refused requests leave no block.\<close>

inductive heap_serves ::
    "('b, 'e) backing \<Rightarrow> kernel_heap \<times> 'b \<Rightarrow> (layout \<times> kusize) list \<Rightarrow> kernel_heap \<times> 'b \<Rightarrow> bool"
  for f where
  heap_serves_none: "heap_serves f s [] s"
| heap_serves_given: "\<lbrakk>alloc_layout_ok l; heap_allocate l f s = (Ok p, s1); heap_serves f s1 bs s2\<rbrakk>
    \<Longrightarrow> heap_serves f s ((l, p) # bs) s2"
| heap_serves_refused: "\<lbrakk>alloc_layout_ok l; heap_allocate l f s = (Err e, s1); heap_serves f s1 bs s2\<rbrakk>
    \<Longrightarrow> heap_serves f s bs s2"

section \<open>Contract of the backing\<close>

text \<open>
  \<open>mapped b\<close> is the set of first bytes of the pages of the reservation that are backed.  A
  request for an aligned, unmapped page of the reservation either backs exactly that page or fails
  and backs nothing; it never panics and keeps what holds of the backing.
\<close>

locale heap_backing =
  fixes map_page :: "('b, 'e) backing"
    and inv :: "'b \<Rightarrow> bool"
    and mapped :: "'b \<Rightarrow> nat set"
    and reserved :: "nat set"
  assumes map_page_Ok: "\<And>a b b'. \<lbrakk>inv b; page_aligned (va a); va a \<in> reserved; va a \<notin> mapped b;
      map_page a b = (Ok (), b')\<rbrakk> \<Longrightarrow> inv b' \<and> mapped b' = insert (va a) (mapped b)"
    and map_page_Err: "\<And>a b e b'. \<lbrakk>inv b; page_aligned (va a); va a \<in> reserved; va a \<notin> mapped b;
      map_page a b = (Err e, b')\<rbrakk> \<Longrightarrow> inv b' \<and> mapped b' = mapped b"
    and map_page_returns: "\<And>a b. \<lbrakk>inv b; page_aligned (va a); va a \<in> reserved; va a \<notin> mapped b\<rbrakk>
      \<Longrightarrow> returns (fst (map_page a b))"
begin

text \<open>A heap with its backing: exactly the suffix of the range from \<open>mapped_start\<close> is backed.\<close>

definition heap_inv :: "kernel_heap \<times> 'b \<Rightarrow> bool" where
  "heap_inv s \<longleftrightarrow> (case s of (h, b) \<Rightarrow> inv b \<and> heap_ok h \<and> pages (heap_lo h) (heap_hi h) \<subseteq> reserved \<and>
     mapped b \<inter> pages (heap_lo h) (heap_hi h) = pages (va (hp_mapped_start h)) (heap_hi h))"

lemma back_step:
  assumes "heap_inv (h, b)" "page_aligned (va start)" "heap_lo h \<le> va start" "va start < va (hp_mapped_start h)"
  obtains a where "checked_sub (va_as_usize (hp_mapped_start h)) FRAME_SIZE = Some a"
    "unat a + 4096 = va (hp_mapped_start h)" "va start \<le> unat a" "page_aligned (unat a)"
    "unat a \<in> reserved" "unat a \<notin> mapped b"
    "pages (unat a) (heap_hi h) = insert (unat a) (pages (va (hp_mapped_start h)) (heap_hi h))"
proof -
  let ?m = "va (hp_mapped_start h)"
  have inv: "heap_ok h" "pages (heap_lo h) (heap_hi h) \<subseteq> reserved"
      "mapped b \<inter> pages (heap_lo h) (heap_hi h) = pages ?m (heap_hi h)"
    using assms(1) by (simp_all add: heap_inv_def)
  then have m: "page_aligned (?m)" "?m \<le> heap_hi h" "page_aligned (heap_hi h)" by (auto simp: heap_ok_def)
  have below: "va start + 4096 \<le> ?m"
    by (rule aligned_gap [OF assms(2) m(1) assms(4)])
  then obtain a where a: "checked_sub (va_as_usize (hp_mapped_start h)) FRAME_SIZE = Some a"
    by (cases "checked_sub (va_as_usize (hp_mapped_start h)) FRAME_SIZE") (auto simp: checked_sub_None)
  then have am: "unat a + 4096 = ?m" by (simp add: checked_sub_SomeD)
  then have al: "page_aligned (unat a)" using m(1) aligned_pred by blast
  have "unat a \<in> pages (heap_lo h) (heap_hi h)" "unat a \<notin> pages ?m (heap_hi h)"
    using am al below assms(3) m(2) by (auto simp: pages_def)
  with inv(2,3) have "unat a \<in> reserved" "unat a \<notin> mapped b" by auto
  moreover have "pages (unat a) (heap_hi h) = insert (unat a) (pages ?m (heap_hi h))"
    using pages_insert [OF al _ m(3)] m(2) unfolding am by simp
  ultimately show thesis using that a am al below by simp
qed

lemma back_to_inv:
  assumes "heap_inv (h, b)" "page_aligned (va start)" "heap_lo h \<le> va start"
    and "back_to map_page start (h, b) = (r, h', b')"
  shows "heap_inv (h', b') \<and> returns r \<and> hp_range h' = hp_range h \<and> hp_cursor h' = hp_cursor h \<and>
    mapped b \<subseteq> mapped b' \<and> (r = Ok () \<longrightarrow> va (hp_mapped_start h') \<le> va start)"
  using assms
proof (induction "va (hp_mapped_start h)" arbitrary: h b rule: less_induct)
  case less
  show ?case
  proof (cases "va start < va (hp_mapped_start h)")
    case False
    with less.prems show ?thesis by (auto simp: back_to.simps word_less_nat_alt)
  next
    case True
    then obtain a where a: "checked_sub (va_as_usize (hp_mapped_start h)) FRAME_SIZE = Some a"
        "unat a + 4096 = va (hp_mapped_start h)" "va start \<le> unat a" "page_aligned (unat a)"
        "unat a \<in> reserved" "unat a \<notin> mapped b"
        "pages (unat a) (heap_hi h) = insert (unat a) (pages (va (hp_mapped_start h)) (heap_hi h))"
      using back_step [OF less.prems(1-3)] by metis
    have inv: "inv b" "heap_ok h" using less.prems(1) by (simp_all add: heap_inv_def)
    obtain q b1 where q: "map_page (VirtAddr a) b = (q, b1)" by fastforce
    have "returns q" using map_page_returns [of b "VirtAddr a"] inv(1) a q by simp
    then show ?thesis
    proof (cases rule: returnsE)
      case (Ok u)
      let ?h = "h\<lparr>hp_mapped_start := VirtAddr a\<rparr>"
      have b1: "inv b1" "mapped b1 = insert (unat a) (mapped b)"
        using map_page_Ok [of b "VirtAddr a" b1] inv(1) a q Ok by auto
      have "heap_inv (?h, b1)"
        using less.prems(1) a b1 less.prems(3) by (auto simp: heap_inv_def heap_ok_def heap_lo_def heap_hi_def pages_def)
      moreover have "back_to map_page start (?h, b1) = (r, h', b')"
        using less.prems(4) True a(1) q Ok by (simp add: back_to.simps [of _ _ h] word_less_nat_alt)
      ultimately have "heap_inv (h', b') \<and> returns r \<and> hp_range h' = hp_range ?h \<and> hp_cursor h' = hp_cursor ?h \<and>
          mapped b1 \<subseteq> mapped b' \<and> (r = Ok () \<longrightarrow> va (hp_mapped_start h') \<le> va start)"
        using less.hyps [of ?h b1] a(2) less.prems(2,3) by (simp add: heap_lo_def)
      with b1(2) show ?thesis by auto
    next
      case (Err e)
      then have "r = Err (Backing e)" "h' = h" "b' = b1"
        using less.prems(4) True a(1) q by (auto simp: back_to.simps word_less_nat_alt)
      moreover have "inv b1 \<and> mapped b1 = mapped b"
        using map_page_Err [of b "VirtAddr a" e b1] inv(1) a q Err by auto
      ultimately show ?thesis using less.prems(1) by (auto simp: heap_inv_def)
    qed
  qed
qed

lemma heap_new_inv:
  assumes "inv b" "virt_range_ok rng" "pages (va (vr_start rng)) (va (vr_end rng)) \<subseteq> reserved"
    and "mapped b \<inter> pages (va (vr_start rng)) (va (vr_end rng)) = {}" "heap_new rng map_page b = (r, b')"
  shows "returns r \<and> inv b' \<and> mapped b \<subseteq> mapped b' \<and>
    (\<forall>h. r = Ok h \<longrightarrow> heap_inv (h, b') \<and> hp_range h = rng \<and> hp_cursor h = vr_end rng \<and> hp_mapped_start h \<noteq> vr_end rng)"
proof (cases "va (vr_start rng) = 0 \<or> \<not> page_aligned (va (vr_start rng)) \<or> \<not> page_aligned (va (vr_end rng))")
  case True
  with assms(1,5) show ?thesis by (auto simp: heap_new_def mod_FRAME_SIZE_eq_0 page_aligned_def unat_eq_0)
next
  case False
  let ?h = "\<lparr>hp_range = rng, hp_cursor = vr_end rng, hp_mapped_start = vr_end rng\<rparr>"
  have inv: "heap_inv (?h, b)"
    using False assms(1-4) by (auto simp: heap_inv_def heap_ok_def heap_lo_def heap_hi_def virt_range_ok_def)
  have "va (vr_start rng) + 4096 \<le> va (vr_end rng)"
    using assms(2) False aligned_gap by (simp add: virt_range_ok_def)
  then obtain p where p: "checked_sub (va_as_usize (vr_end rng)) FRAME_SIZE = Some p"
      "unat p + 4096 = va (vr_end rng)" "va (vr_start rng) \<le> unat p"
    by (cases "checked_sub (va_as_usize (vr_end rng)) FRAME_SIZE") (auto simp: checked_sub_None checked_sub_SomeD)
  then have "page_aligned (unat p)" using False aligned_pred by blast
  obtain q h' b1 where q: "back_to map_page (VirtAddr p) (?h, b) = (q, h', b1)" by (metis surj_pair)
  note bt = back_to_inv [OF inv _ _ q, unfolded heap_lo_def, simplified, OF \<open>page_aligned (unat p)\<close> p(3)]
  have "r = bind_res q (\<lambda>_. Ok h')" "b' = b1"
    using assms(5) False p(1) q by (auto simp: heap_new_def mod_FRAME_SIZE_eq_0 page_aligned_def unat_eq_0 Let_def)
  moreover have "inv b1" using bt by (simp add: heap_inv_def)
  ultimately show ?thesis using bt p(2) by (cases q) auto
qed

lemma heap_allocate_inv:
  assumes "heap_inv (h, b)" "alloc_layout_ok l" "heap_allocate l map_page (h, b) = (r, h', b')"
  shows "heap_inv (h', b') \<and> returns r \<and> hp_range h' = hp_range h \<and> mapped b \<subseteq> mapped b' \<and>
    (\<forall>p. r = Ok p \<longrightarrow> 0 < unat (ly_size l) \<and> fits h l \<and> unat p = block_at h l \<and> hp_cursor h' = VirtAddr p) \<and>
    (\<forall>e. r = Err e \<longrightarrow> hp_cursor h' = hp_cursor h)"
proof (cases "ly_size l = 0 \<or> \<not> fits h l")
  case True
  then have "h' = h" "b' = b" "r \<in> {Err ZeroSizedAllocation, Err Exhausted}"
    using assms by (auto simp: heap_allocate_def block_address_eq bind_op_def split: if_splits)
  with assms(1) show ?thesis by auto
next
  case False
  define a where "a = (word_of_nat (block_at h l) :: kusize)"
  have lo: "0 < heap_lo h" "heap_lo h \<le> block_at h l" "page_aligned (heap_lo h)"
    using False assms(1) by (auto simp: fits_def heap_inv_def heap_ok_def)
  have a: "unat a = block_at h l" "block_at h l + unat (ly_size l) \<le> va (hp_cursor h)"
    using block_at_bounds [OF assms(2), of h] False by (simp_all add: a_def unat_of_nat)
  have addr: "block_address h l = Some a" "non_null a = Some a"
    using False a lo assms(2) by (auto simp: block_address_eq a_def [symmetric] non_null_def)
  define q where "q = VirtAddr (a AND NOT (FRAME_SIZE - 1))"
  have vq: "va q = round_down (unat a)" unfolding q_def by (simp add: page_of)
  have q: "page_aligned (va q)" "heap_lo h \<le> va q" "va q \<le> unat a"
    using lo a by (auto simp: vq page_aligned_def round_down_le round_down_mono_aligned)
  obtain r1 h1 b1 where bt: "back_to map_page q (h, b) = (r1, h1, b1)" by (metis surj_pair)
  note inv = back_to_inv [OF assms(1) q(1,2) bt]
  then have ret: "returns r1" by simp
  then show ?thesis
  proof (cases rule: returnsE)
    case (Ok u)
    then have res: "r = Ok a" "h' = h1\<lparr>hp_cursor := VirtAddr a\<rparr>" "b' = b1"
      using assms(3) False addr bt by (auto simp: heap_allocate_def bind_op_def q_def)
    have "va (hp_mapped_start h1) \<le> va q" "va (hp_cursor h1) \<le> heap_hi h1"
      using inv Ok by (auto simp: heap_inv_def heap_ok_def)
    then have "heap_inv (h', b1)"
      using inv q(3) a by (auto simp: res heap_inv_def heap_ok_def heap_lo_def heap_hi_def)
    with inv res a False show ?thesis by (auto simp: unat_gt_0)
  next
    case (Err e)
    then have "r = Err e" "h' = h1" "b' = b1"
      using assms(3) False addr bt by (auto simp: heap_allocate_def bind_op_def q_def)
    with inv show ?thesis by auto
  qed
qed

text \<open>Everything from the cursor upwards is backed.\<close>

lemma backed:
  assumes "heap_inv (h, b)" "va (hp_cursor h) \<le> unat (snd x)" "unat (snd x) + unat (ly_size (fst x)) \<le> heap_hi h"
  shows "block_pages x \<subseteq> mapped b"
proof
  fix p assume p: "p \<in> block_pages x"
  let ?m = "va (hp_mapped_start h)"
  have inv: "mapped b \<inter> pages (heap_lo h) (heap_hi h) = pages ?m (heap_hi h)" "page_aligned ?m" "?m \<le> va (hp_cursor h)"
    using assms(1) by (auto simp: heap_inv_def heap_ok_def)
  have "?m \<le> p"
  proof (rule ccontr)
    assume "\<not> ?m \<le> p"
    then have "p + 4096 \<le> ?m" using p aligned_gap [OF _ inv(2), of p] by (simp add: block_pages_def)
    then show False using p assms(2) inv(3) by (simp add: block_pages_def)
  qed
  then have "p \<in> pages ?m (heap_hi h)" using p assms(3) by (simp add: pages_def block_pages_def)
  with inv(1) show "p \<in> mapped b" by auto
qed

lemma heap_serves_inv:
  assumes "heap_serves map_page (h, b) bs (h', b')" "heap_inv (h, b)"
  shows "heap_inv (h', b') \<and> hp_range h' = hp_range h \<and> mapped b \<subseteq> mapped b' \<and> va (hp_cursor h') \<le> va (hp_cursor h) \<and>
    (\<forall>x\<in>set bs. va (hp_cursor h') \<le> unat (snd x) \<and> unat (snd x) + unat (ly_size (fst x)) \<le> va (hp_cursor h) \<and>
       unat (snd x) mod unat (ly_align (fst x)) = 0) \<and>
    sorted_wrt (\<lambda>x y. block_span x \<inter> block_span y = {}) bs"
  using assms
proof (induction "(h, b)" bs "(h', b')" arbitrary: h b)
  case heap_serves_none
  then show ?case by simp
next
  case (heap_serves_given l p s1 bs)
  obtain h1 b1 where s1: "s1 = (h1, b1)" by (cases s1)
  note step = heap_allocate_inv [OF heap_serves_given.prems heap_serves_given.hyps(1) heap_serves_given.hyps(2) [unfolded s1]]
  note ih = heap_serves_given.hyps(4) [OF s1]
  have p: "unat p = block_at h l" "fits h l" "hp_cursor h1 = VirtAddr p" using step by auto
  note bounds = block_at_bounds [OF heap_serves_given.hyps(1) p(2), folded p(1)]
  from step ih p(3) bounds show ?case by (fastforce simp: block_span_def)
next
  case (heap_serves_refused l e s1 bs)
  obtain h1 b1 where s1: "s1 = (h1, b1)" by (cases s1)
  note step = heap_allocate_inv [OF heap_serves_refused.prems heap_serves_refused.hyps(1) heap_serves_refused.hyps(2) [unfolded s1]]
  from step heap_serves_refused.hyps(4) [OF s1] show ?case by auto
qed

end

end
