(* ===== verification/Paging.thy ===== *)
theory Paging
  imports Sv39 Heap
begin

text \<open>
  The paging code of \<open>kernel/src/arch/riscv64/paging.rs\<close>, \<open>paging/access.rs\<close> and
  \<open>paging/kernel.rs\<close>, as operations on a machine: physical memory and the \<open>satp\<close> register.
  Every access of the sources goes through a virtual address, so every access of the model is
  translated with the tables in memory; one that the tables do not permit is a fault in supervisor
  mode, which halts the kernel, and is modelled as \<open>Panic\<close>.  A frame allocator is an argument
  \<open>alloc\<close> with a state of its own beside the machine.
\<close>

unbundle bit_operations_syntax

section \<open>Memory accesses\<close>

record machine =
  mc_mem :: mem
  mc_satp :: kusize

definition vload64 :: "nat \<Rightarrow> (machine, kusize, 'e) op" where
  "vload64 a m =
     (case translate (mc_mem m) (mc_satp m) Load a of
        None \<Rightarrow> (Panic, m)
      | Some p \<Rightarrow> (Ok (load64 (mc_mem m) p), m))"

definition vstore64 :: "nat \<Rightarrow> kusize \<Rightarrow> (machine, unit, 'e) op" where
  "vstore64 a w m =
     (case translate (mc_mem m) (mc_satp m) Store a of
        None \<Rightarrow> (Panic, m)
      | Some p \<Rightarrow> (Ok (), m\<lparr>mc_mem := store64 (mc_mem m) p w\<rparr>))"

definition vstore8 :: "nat \<Rightarrow> u8 \<Rightarrow> (machine, unit, 'e) op" where
  "vstore8 a b m =
     (case translate (mc_mem m) (mc_satp m) Store a of
        None \<Rightarrow> (Panic, m)
      | Some p \<Rightarrow> (Ok (), m\<lparr>mc_mem := (mc_mem m)(p := b)\<rparr>))"

text \<open>Filling and copying store one byte after the other.\<close>

definition vwrite_bytes :: "nat \<Rightarrow> u8 \<Rightarrow> nat \<Rightarrow> (machine, unit, 'e) op" where
  "vwrite_bytes a v n = for_op (\<lambda>i. vstore8 (a + i) v) [0..<n]"

definition vcopy_bytes :: "nat \<Rightarrow> bytes \<Rightarrow> (machine, unit, 'e) op" where
  "vcopy_bytes a bs = for_op (\<lambda>i. vstore8 (a + i) (bs ! i)) [0..<length bs]"

definition flush_address :: "VirtAddr \<Rightarrow> (machine, unit, 'e) op" where
  "flush_address address = ret_op ()"

definition flush_all :: "(machine, unit, 'e) op" where
  "flush_all = ret_op ()"

definition active_root_table :: "machine \<Rightarrow> (PhysAddr, PagingError) res" where
  "active_root_table m = (
     let satp = mc_satp m; mode = drop_bit 60 satp AND SATP_MODE_MASK in
     if mode \<noteq> SATP_MODE_SV39 then Err (UnexpectedAddressTranslationMode mode)
     else Ok (PhysAddr (push_bit 12 (satp AND SATP_PPN_MASK))))"

definition activate_root :: "PhysFrame \<Rightarrow> (machine, unit, 'e) op" where
  "activate_root root = modify_op (\<lambda>m. m\<lparr>mc_satp :=
     push_bit 60 SATP_MODE_SV39 OR drop_bit 12 (pa_as_usize (pf_start_address root))\<rparr>)"

definition read_mapped_page_table_entry :: "VirtAddr \<Rightarrow> kusize \<Rightarrow> (machine, kusize, PagingError) op" where
  "read_mapped_page_table_entry address index =
     (if index \<ge> PAGE_TABLE_ENTRIES then err_op (PageTableIndexOutOfRange index)
      else vload64 (va address + 8 * unat index))"

definition write_mapped_page_table_entry :: "VirtAddr \<Rightarrow> kusize \<Rightarrow> kusize \<Rightarrow> (machine, unit, PagingError) op" where
  "write_mapped_page_table_entry address index value =
     (if index \<ge> PAGE_TABLE_ENTRIES then err_op (PageTableIndexOutOfRange index)
      else vstore64 (va address + 8 * unat index) value)"

section \<open>Frame windows\<close>

record bootstrap_paging =
  bp_root_virtual :: VirtAddr

definition FIXMAP_TABLE_BASE :: kusize where
  "FIXMAP_TABLE_BASE = BOOT_FRAME_WINDOW_BASE - GIGAPAGE_SIZE - 0x200000"
definition FIXMAP_FRAME_BASE :: kusize where "FIXMAP_FRAME_BASE = FIXMAP_TABLE_BASE + PAGE_SIZE"
definition FIXMAP_FRAME_INDEX :: kusize where
  "FIXMAP_FRAME_INDEX = drop_bit 12 FIXMAP_FRAME_BASE AND VPN_MASK"

text \<open>The slot is a pointer: the address it exposes.\<close>

record kernel_paging =
  kp_root :: AllocatedFrame
  kp_fixmap_table :: PhysFrame
  kp_dtb_mapping :: virt_range
  kp_frame_slot :: kusize
  kp_heap_claimed :: bool

definition bootstrap_claim :: "bool \<Rightarrow> machine \<Rightarrow> (bootstrap_paging, PagingError) res \<times> bool" where
  "bootstrap_claim claimed m =
     (case active_root_table m of
        Ok root \<Rightarrow>
          if claimed then (Err BootstrapPagingAlreadyClaimed, claimed)
          else (Ok \<lparr>bp_root_virtual = VirtAddr (pa_as_usize root)\<rparr>, True)
      | Err e \<Rightarrow> (Err e, claimed) | Panic \<Rightarrow> (Panic, claimed) | Diverge \<Rightarrow> (Diverge, claimed))"

text \<open>
  A closure gives its result as a value: \<open>result_of\<close> turns an operation that may fail into a
  closure that returns a \<open>Result\<close>, which the caller propagates.
\<close>

definition result_of :: "('s, 'a, 'e) op \<Rightarrow> ('s, ('a, 'e) res, 'f) op" where
  "result_of f s =
     (case f s of (r, s') \<Rightarrow>
        (case r of Ok a \<Rightarrow> (Ok (Ok a), s') | Err e \<Rightarrow> (Ok (Err e), s') | Panic \<Rightarrow> (Panic, s') | Diverge \<Rightarrow> (Diverge, s')))"

definition bootstrap_with_frame ::
    "bootstrap_paging \<Rightarrow> PhysFrame \<Rightarrow> (VirtAddr \<Rightarrow> (machine, 'r, PagingError) op) \<Rightarrow> (machine, 'r, PagingError) op" where
  "bootstrap_with_frame bp frame operation =
     bind_op (read_mapped_page_table_entry (bp_root_virtual bp) BOOT_FRAME_WINDOW_VPN2) (\<lambda>existing.
     if existing \<noteq> 0 then err_op (RootEntryInUse BOOT_FRAME_WINDOW_VPN2 existing) else
     let frame_address = pf_start_address frame in
     if pa_as_usize frame_address > MAX_PHYSICAL_ADDRESS
     then err_op (PhysicalAddressNotRepresentable frame_address) else
     let physical_base = PhysAddr (pa_as_usize frame_address AND NOT GIGAPAGE_MASK) in
     bind_op (lift_op (page_table_entry physical_base FRAME_WINDOW_PTE_FLAGS)) (\<lambda>pte.
     bind_op (write_mapped_page_table_entry (bp_root_virtual bp) BOOT_FRAME_WINDOW_VPN2 pte) (\<lambda>_.
     let frame_offset = pa_as_usize frame_address AND GIGAPAGE_MASK;
         virtual_address = VirtAddr (BOOT_FRAME_WINDOW_BASE + frame_offset) in
     bind_op (flush_address virtual_address) (\<lambda>_.
     bind_op (operation virtual_address) (\<lambda>result.
     bind_op (write_mapped_page_table_entry (bp_root_virtual bp) BOOT_FRAME_WINDOW_VPN2 0) (\<lambda>_.
     bind_op (flush_address virtual_address) (\<lambda>_. ret_op result)))))))"

definition kernel_with_frame ::
    "kernel_paging \<Rightarrow> PhysFrame \<Rightarrow> (VirtAddr \<Rightarrow> (machine, 'r, PagingError) op) \<Rightarrow> (machine, 'r, PagingError) op" where
  "kernel_with_frame kp frame operation =
     bind_op (lift_op (page_table_entry (pf_start_address frame) FRAME_WINDOW_PTE_FLAGS)) (\<lambda>pte.
     bind_op (vload64 (unat (kp_frame_slot kp))) (\<lambda>existing.
     if existing \<noteq> 0 then err_op (PageAlreadyMapped FIXMAP_FRAME_BASE existing) else
     bind_op (vstore64 (unat (kp_frame_slot kp)) pte) (\<lambda>_.
     let address = VirtAddr FIXMAP_FRAME_BASE in
     bind_op (flush_address address) (\<lambda>_.
     bind_op (operation address) (\<lambda>result.
     bind_op (vstore64 (unat (kp_frame_slot kp)) 0) (\<lambda>_.
     bind_op (flush_address address) (\<lambda>_. ret_op result)))))))"

text \<open>The implementations of the trait \<open>FrameAccess\<close>.\<close>

datatype frame_access = ViaBootstrap bootstrap_paging | ViaKernel kernel_paging

definition with_frame ::
    "frame_access \<Rightarrow> PhysFrame \<Rightarrow> (VirtAddr \<Rightarrow> (machine, 'r, PagingError) op) \<Rightarrow> (machine, 'r, PagingError) op" where
  "with_frame access frame operation =
     (case access of
        ViaBootstrap bp \<Rightarrow> bootstrap_with_frame bp frame operation
      | ViaKernel kp \<Rightarrow> kernel_with_frame kp frame operation)"

section \<open>Table access\<close>

definition zero_frame :: "frame_access \<Rightarrow> AllocatedFrame \<Rightarrow> (machine, unit, PagingError) op" where
  "zero_frame access frame =
     with_frame access (af_frame frame) (\<lambda>address. vwrite_bytes (va address) 0 (unat PAGE_SIZE))"

definition read_page_table_entry :: "frame_access \<Rightarrow> PhysFrame \<Rightarrow> kusize \<Rightarrow> (machine, kusize, PagingError) op" where
  "read_page_table_entry access frame index =
     bind_op (with_frame access frame (\<lambda>address. result_of (read_mapped_page_table_entry address index))) lift_op"

definition write_page_table_entry ::
    "frame_access \<Rightarrow> PhysFrame \<Rightarrow> kusize \<Rightarrow> kusize \<Rightarrow> (machine, unit, PagingError) op" where
  "write_page_table_entry access frame index pte =
     bind_op (with_frame access frame (\<lambda>address. result_of (write_mapped_page_table_entry address index pte))) lift_op"

text \<open>\<open>FrameAllocator::allocate\<close> gives an option and has no error of its own.\<close>

type_synonym 's frames = "'s \<Rightarrow> (AllocatedFrame option \<times> 's, infallible) res"

definition on_machine :: "(machine, 'a, 'e) op \<Rightarrow> (machine \<times> 's, 'a, 'e) op" where
  "on_machine f ms = (case ms of (m, s) \<Rightarrow> case f m of (r, m') \<Rightarrow> (r, (m', s)))"

definition take_frame :: "'s frames \<Rightarrow> (machine \<times> 's, AllocatedFrame option, PagingError) op" where
  "take_frame alloc ms =
     (case ms of (m, s) \<Rightarrow>
        (case alloc s of
           Ok (x, s') \<Rightarrow> (Ok x, (m, s')) | Err _ \<Rightarrow> (Panic, ms) | Panic \<Rightarrow> (Panic, ms) | Diverge \<Rightarrow> (Diverge, ms)))"

definition allocate_page_table :: "frame_access \<Rightarrow> 's frames \<Rightarrow> (machine \<times> 's, AllocatedFrame, PagingError) op" where
  "allocate_page_table access alloc =
     bind_op (take_frame alloc) (\<lambda>x.
     case x of
       None \<Rightarrow> err_op OutOfPhysicalFrames
     | Some frame \<Rightarrow> bind_op (on_machine (zero_frame access frame)) (\<lambda>_. ret_op frame))"

definition next_table ::
    "frame_access \<Rightarrow> PhysFrame \<Rightarrow> kusize \<Rightarrow> 's frames \<Rightarrow> (machine \<times> 's, PhysFrame, PagingError) op" where
  "next_table access parent index alloc =
     bind_op (on_machine (read_page_table_entry access parent index)) (\<lambda>pte.
     if pte \<noteq> 0 then lift_op (intermediate_frame index pte) else
     bind_op (allocate_page_table access alloc) (\<lambda>child.
     bind_op (lift_op (page_table_entry (pf_start_address (af_frame child)) PTE_VALID)) (\<lambda>pte.
     bind_op (on_machine (write_page_table_entry access parent index pte)) (\<lambda>_.
     ret_op (af_frame child)))))"

section \<open>Mapping\<close>

definition map_page ::
    "PhysFrame \<Rightarrow> frame_access \<Rightarrow> VirtAddr \<Rightarrow> PhysFrame \<Rightarrow> PagePermissions \<Rightarrow> PagePrivilege \<Rightarrow> 's frames \<Rightarrow>
     (machine \<times> 's, unit, PagingError) op" where
  "map_page root access virtual_address physical_frame permissions privilege alloc = (
     let address = va_as_usize virtual_address in
     if address AND PAGE_MASK \<noteq> 0 then err_op (VirtualAddressNotPageAligned address) else
     if SV39_LOW_HALF_END \<le> address \<and> address < SV39_HIGH_HALF_BASE
     then err_op (VirtualAddressNotCanonical address) else
     let permissions = permission_bits permissions;
         flags = PTE_VALID OR PTE_ACCESSED OR permissions;
         flags = (if privilege = User then flags OR PTE_USER else flags);
         flags = (if permissions AND PTE_WRITE \<noteq> 0 then flags OR PTE_DIRTY else flags) in
     bind_op (lift_op (page_table_entry (pf_start_address physical_frame) flags)) (\<lambda>pte.
     let vpn2 = drop_bit 30 address AND VPN_MASK;
         vpn1 = drop_bit 21 address AND VPN_MASK;
         vpn0 = drop_bit 12 address AND VPN_MASK in
     bind_op (next_table access root vpn2 alloc) (\<lambda>level_1.
     bind_op (next_table access level_1 vpn1 alloc) (\<lambda>level_0.
     bind_op (on_machine (read_page_table_entry access level_0 vpn0)) (\<lambda>existing.
     if existing \<noteq> 0 then err_op (PageAlreadyMapped address existing) else
     on_machine (write_page_table_entry access level_0 vpn0 pte))))))"

definition page_table_new :: "frame_access \<Rightarrow> 's frames \<Rightarrow> (machine \<times> 's, AllocatedFrame, PagingError) op" where
  "page_table_new access alloc = allocate_page_table access alloc"

definition word_div_ceil :: "kusize \<Rightarrow> kusize \<Rightarrow> kusize" where
  "word_div_ceil a b = a div b + (if a mod b = 0 then 0 else 1)"

definition map_range ::
    "PhysFrame \<Rightarrow> frame_access \<Rightarrow> virt_range \<Rightarrow> PhysFrame \<Rightarrow> PagePermissions \<Rightarrow> 's frames \<Rightarrow>
     (machine \<times> 's, unit, PagingError) op" where
  "map_range root access virtual_range physical_start permissions alloc = (
     let start = va_as_usize (vr_start virtual_range); stop = va_as_usize (vr_end virtual_range) in
     if start AND PAGE_MASK \<noteq> 0 then err_op (VirtualAddressNotPageAligned start) else
     if SV39_LOW_HALF_END \<le> start \<and> start < SV39_HIGH_HALF_BASE
     then err_op (VirtualAddressNotCanonical start) else
     if start < SV39_LOW_HALF_END \<and> stop > SV39_LOW_HALF_END
     then err_op (VirtualAddressNotCanonical SV39_LOW_HALF_END) else
     let sz = stop - start;
         page_count = word_div_ceil sz PAGE_SIZE;
         last_offset = (page_count - 1) * PAGE_SIZE;
         physical_base = pf_start_address physical_start;
         unrepresentable = PhysicalRangeNotRepresentable physical_base sz in
     if (case phys_checked_add physical_base last_offset of
           None \<Rightarrow> True | Some address \<Rightarrow> pa_as_usize address > MAX_PHYSICAL_ADDRESS)
     then err_op unrepresentable else
     for_op (\<lambda>page_index.
       let offset = word_of_nat page_index * PAGE_SIZE;
           virtual_address = VirtAddr (start + offset);
           physical_address = PhysAddr (pa_as_usize physical_base + offset) in
       (case phys_frame_from_start physical_address of
          None \<Rightarrow> err_op unrepresentable
        | Some frame \<Rightarrow> map_page root access virtual_address frame permissions Supervisor alloc))
       [0..<unat page_count])"

end
