(* ===== verification/Paging_Access.thy ===== *)
theory Paging_Access
  imports Paging
begin

text \<open>
  The frame windows.  \<open>access_ok\<close> says when a window can be used: the control entry of the
  window is reachable through the active tables and empty.  The cells this depends on are
  \<open>guard\<close>.  The main lemmas say that table access and zeroing through a window are plain
  accesses to physical memory, and that the window is closed again.  The trait \<open>FrameAccess\<close> is
  the locale \<open>frame_access\<close>, interpreted for both implementations.
\<close>

unbundle bit_operations_syntax

section \<open>Walks\<close>

definition link_to :: "kusize \<Rightarrow> nat \<Rightarrow> bool" where
  "link_to e f \<longleftrightarrow> pte_link e \<and> unat e div 2 ^ 54 = 0 \<and> pte_ppn e = f"

definition window_leaf :: "kusize \<Rightarrow> bool" where
  "window_leaf e \<longleftrightarrow> (\<forall>k. leaf_permits k e)"

lemma link_not_leaf: "leaf_permits k e \<Longrightarrow> \<not> pte_link e"
  by (simp add: leaf_permits_def pte_link_def)

lemma walk_link: "link_to (pte_at m t (vpn (Suc l) a)) f \<Longrightarrow> walk m k a (Suc l) t = walk m k a l f"
  by (subst walk.simps) (simp add: link_to_def Let_def)

lemma walk_leaf:
  "leaf_permits k (pte_at m t (vpn l a)) \<Longrightarrow> pte_ppn (pte_at m t (vpn l a)) mod 512 ^ l = 0 \<Longrightarrow>
   walk m k a l t = Some (pte_ppn (pte_at m t (vpn l a)) * 4096 + a mod (4096 * 512 ^ l))"
  by (subst walk.simps) (use link_not_leaf in \<open>auto simp: Let_def\<close>)

lemma walk_page:
  assumes "link_to (pte_at m t (vpn 2 a)) l1" "link_to (pte_at m l1 (vpn 1 a)) l0" "leaf_permits k (pte_at m l0 (vpn 0 a))"
  shows "walk m k a 2 t = Some (pte_ppn (pte_at m l0 (vpn 0 a)) * 4096 + a mod 4096)"
  using walk_link [of m t 1 a l1 k] walk_link [of m l1 0 a l0 k] walk_leaf [of k m l0 0 a] assms by (simp add: numeral_2_eq_2)

lemma window_flags_bits:
  "bit FRAME_WINDOW_PTE_FLAGS 0" "bit FRAME_WINDOW_PTE_FLAGS 1" "bit FRAME_WINDOW_PTE_FLAGS 2"
  "\<not> bit FRAME_WINDOW_PTE_FLAGS 4" "bit FRAME_WINDOW_PTE_FLAGS 6" "bit FRAME_WINDOW_PTE_FLAGS 7"
  "unat FRAME_WINDOW_PTE_FLAGS < 1024"
proof -
  have e: "FRAME_WINDOW_PTE_FLAGS = 199"
    by (simp add: FRAME_WINDOW_PTE_FLAGS_def PTE_VALID_def PTE_READ_def PTE_WRITE_def PTE_ACCESSED_def PTE_DIRTY_def)
  show "bit FRAME_WINDOW_PTE_FLAGS 0" "bit FRAME_WINDOW_PTE_FLAGS 1" "bit FRAME_WINDOW_PTE_FLAGS 2"
    "\<not> bit FRAME_WINDOW_PTE_FLAGS 4" "bit FRAME_WINDOW_PTE_FLAGS 6" "bit FRAME_WINDOW_PTE_FLAGS 7"
    "unat FRAME_WINDOW_PTE_FLAGS < 1024"
    unfolding e by (simp_all add: bit_numeral_rec)
qed

lemma window_pte:
  assumes "representable f"
  shows "leaf_permits k (mk_pte f FRAME_WINDOW_PTE_FLAGS)" "pte_ppn (mk_pte f FRAME_WINDOW_PTE_FLAGS) = f"
    "mk_pte f FRAME_WINDOW_PTE_FLAGS \<noteq> 0"
proof -
  show "leaf_permits k (mk_pte f FRAME_WINDOW_PTE_FLAGS)"
    using pte_ppn_mk_pte [OF assms window_flags_bits(7)]
    unfolding leaf_permits_def by (simp add: bit_mk_pte window_flags_bits window_flags_bits(2) [unfolded One_nat_def])
  then show "mk_pte f FRAME_WINDOW_PTE_FLAGS \<noteq> 0" by (auto simp: leaf_permits_def)
  show "pte_ppn (mk_pte f FRAME_WINDOW_PTE_FLAGS) = f" by (rule pte_ppn_mk_pte [OF assms window_flags_bits(7)])
qed

section \<open>When a window can be used\<close>

definition boot_root :: "bootstrap_paging \<Rightarrow> nat" where
  "boot_root bp = va (bp_root_virtual bp) div 4096"

definition kernel_root :: "kernel_paging \<Rightarrow> nat" where
  "kernel_root kp = frame_no (af_frame (kp_root kp))"

definition kernel_fix :: "kernel_paging \<Rightarrow> nat" where
  "kernel_fix kp = frame_no (kp_fixmap_table kp)"

text \<open>The bootstrap root is identity-mapped by a level-2 leaf of its own, in the lower half.\<close>

definition boot_ok :: "bootstrap_paging \<Rightarrow> machine \<Rightarrow> bool" where
  "boot_ok bp m \<longleftrightarrow> (
     let a = va (bp_root_virtual bp); r = boot_root bp; e = pte_at (mc_mem m) r (vpn 2 a) in
     a mod 4096 = 0 \<and> a + 4096 \<le> 2 ^ 38 \<and> satp_root (mc_satp m) = Some r \<and> window_leaf e \<and>
     pte_ppn e = a div 2 ^ 30 * 2 ^ 18 \<and> pte_at (mc_mem m) r 511 = 0)"

text \<open>
  The kernel's window is controlled by entry 1 of the table that the page at
  \<open>FIXMAP_TABLE_BASE\<close> maps; that table is the one the walk of the window reaches.
\<close>

definition kernel_ok :: "kernel_paging \<Rightarrow> machine \<Rightarrow> bool" where
  "kernel_ok kp m \<longleftrightarrow> (
     let r = kernel_root kp; f = kernel_fix kp; l1 = pte_ppn (pte_at (mc_mem m) r 509) in
     kp_frame_slot kp = FIXMAP_TABLE_BASE + 8 \<and> satp_root (mc_satp m) = Some r \<and> representable f \<and> r \<noteq> f \<and> l1 \<noteq> f \<and>
     link_to (pte_at (mc_mem m) r 509) l1 \<and> link_to (pte_at (mc_mem m) l1 511) f \<and>
     pte_at (mc_mem m) f 0 = mk_pte f FRAME_WINDOW_PTE_FLAGS \<and> pte_at (mc_mem m) f 1 = 0)"

definition slot :: "frame_access \<Rightarrow> nat" where
  "slot access = (case access of ViaBootstrap bp \<Rightarrow> cell (boot_root bp) 511 | ViaKernel kp \<Rightarrow> cell (kernel_fix kp) 1)"

definition access_ok :: "frame_access \<Rightarrow> machine \<Rightarrow> bool" where
  "access_ok access m = (case access of ViaBootstrap bp \<Rightarrow> boot_ok bp m | ViaKernel kp \<Rightarrow> kernel_ok kp m)"

text \<open>The entries beside the slot on which the window depends.\<close>

definition guard :: "frame_access \<Rightarrow> machine \<Rightarrow> nat set" where
  "guard access m = (case access of
      ViaBootstrap bp \<Rightarrow> {cell (boot_root bp) (vpn 2 (va (bp_root_virtual bp)))}
    | ViaKernel kp \<Rightarrow> {cell (kernel_root kp) 509, cell (pte_ppn (pte_at (mc_mem m) (kernel_root kp) 509)) 511,
        cell (kernel_fix kp) 0})"

text \<open>Two machines that agree on the guard.\<close>

definition guarded :: "frame_access \<Rightarrow> machine \<Rightarrow> machine \<Rightarrow> bool" where
  "guarded access m m' \<longleftrightarrow> mc_satp m' = mc_satp m \<and> (\<forall>c\<in>guard access m. load64 (mc_mem m') c = load64 (mc_mem m) c)"

lemma guarded_refl [simp]: "guarded access m m"
  by (simp add: guarded_def)

lemma guarded_guard: "guarded access m m' \<Longrightarrow> guard access m' = guard access m"
  by (cases access) (auto simp: guarded_def guard_def)

lemma guarded_trans: "guarded access m m1 \<Longrightarrow> guarded access m1 m2 \<Longrightarrow> guarded access m m2"
  using guarded_guard [of access m m1] by (simp add: guarded_def)

lemma guarded_sym: "guarded access m m' \<Longrightarrow> guarded access m' m"
  using guarded_guard [of access m m'] by (simp add: guarded_def)

lemma access_ok_guarded:
  "access_ok access m \<Longrightarrow> guarded access m m' \<Longrightarrow> load64 (mc_mem m') (slot access) = 0 \<Longrightarrow> access_ok access m'"
  by (cases access) (auto simp: access_ok_def boot_ok_def kernel_ok_def guarded_def guard_def slot_def Let_def)

lemma access_ok_slot: "access_ok access m \<Longrightarrow> load64 (mc_mem m) (slot access) = 0"
  by (cases access) (auto simp: access_ok_def boot_ok_def kernel_ok_def slot_def Let_def)

lemma boot_index: "boot_ok bp m \<Longrightarrow> vpn 2 (va (bp_root_virtual bp)) < 256"
  by (auto simp: boot_ok_def vpn_def Let_def less_mult_imp_div_less)

text \<open>The guard is a set of nonzero entries; the slot is not among them.\<close>

lemma guard_cases:
  assumes "access_ok access m" "c \<in> guard access m"
  obtains f i where "c = cell f i" "i < 512" "load64 (mc_mem m) c \<noteq> 0" "c \<noteq> slot access"
proof (cases access)
  case (ViaBootstrap bp)
  then have ok: "boot_ok bp m" using assms(1) by (simp add: access_ok_def)
  note idx = boot_index [OF ok]
  have "load64 (mc_mem m) c \<noteq> 0"
    using assms(2) ok ViaBootstrap by (auto simp: guard_def boot_ok_def Let_def window_leaf_def leaf_permits_def)
  moreover have "c \<noteq> slot access" using assms(2) idx ViaBootstrap by (auto simp: guard_def slot_def)
  ultimately show thesis using that assms(2) ViaBootstrap idx by (auto simp: guard_def)
next
  case (ViaKernel kp)
  then have ok: "kernel_ok kp m" using assms(1) by (simp add: access_ok_def)
  then have nz: "load64 (mc_mem m) c \<noteq> 0"
    using assms(2) ViaKernel window_pte(3) by (auto simp: guard_def kernel_ok_def Let_def link_to_def pte_link_def)
  moreover have "c \<noteq> slot access" using assms(2) ok ViaKernel by (auto simp: guard_def slot_def kernel_ok_def Let_def)
  ultimately show thesis using that assms(2) ViaKernel by (auto simp: guard_def)
qed

section \<open>Reaching the slot and the window\<close>

lemma vpn_page:
  assumes "a mod 4096 = 0" "x < 4096"
  shows "vpn l (a + x) = vpn l a"
proof -
  have "(a + x) div 2 ^ 12 = a div 2 ^ 12" using assms by (auto simp: dvd_eq_mod_eq_0 [symmetric] elim!: dvdE)
  then show ?thesis by (simp only: vpn_def power_add div_mult2_eq)
qed

lemma mod_page: "(a :: nat) mod 4096 = 0 \<Longrightarrow> x < 4096 \<Longrightarrow> (a + x) mod 4096 = x"
  by (auto simp: dvd_eq_mod_eq_0 [symmetric] elim!: dvdE)

lemma boot_translate_root:
  assumes "boot_ok bp m" "guarded (ViaBootstrap bp) m m'" "x < 4096"
  shows "translate (mc_mem m') (mc_satp m') k (va (bp_root_virtual bp) + x) = Some (boot_root bp * 4096 + x)"
proof -
  define a where "a = va (bp_root_virtual bp)"
  have ok: "a mod 4096 = 0" "a + 4096 \<le> 2 ^ 38" "satp_root (mc_satp m') = Some (boot_root bp)"
      "window_leaf (pte_at (mc_mem m') (boot_root bp) (vpn 2 a))"
      "pte_ppn (pte_at (mc_mem m') (boot_root bp) (vpn 2 a)) = a div 2 ^ 30 * 2 ^ 18"
    using assms(1,2) by (auto simp: boot_ok_def Let_def a_def guarded_def guard_def)
  have a: "boot_root bp * 4096 = a" using ok(1) unfolding boot_root_def a_def by (metis mod_0_imp_dvd dvd_div_mult_self)
  have q: "(a + x) div 2 ^ 30 = a div 2 ^ 30"
  proof -
    have "(a + x) div 4096 = a div 4096" using ok(1) assms(3) by (auto simp: dvd_eq_mod_eq_0 [symmetric] elim!: dvdE)
    then have "(a + x) div 4096 div 2 ^ 18 = a div 4096 div 2 ^ 18" by simp
    then show ?thesis by (simp flip: div_mult2_eq)
  qed
  have "walk (mc_mem m') k (a + x) 2 (boot_root bp) =
      Some (a div 2 ^ 30 * 2 ^ 18 * 4096 + (a + x) mod (4096 * 512 ^ 2))"
    using walk_leaf [of k "mc_mem m'" "boot_root bp" 2 "a + x"] ok(4,5)
    by (simp add: vpn_page [OF ok(1) assms(3)] window_leaf_def)
  also have "a div 2 ^ 30 * 2 ^ 18 * 4096 + (a + x) mod (4096 * 512 ^ 2) =
      (a + x) div 2 ^ 30 * 2 ^ 30 + (a + x) mod 2 ^ 30" unfolding q by simp
  also have "\<dots> = a + x" by (rule div_mult_mod_eq)
  finally show ?thesis using ok(2,3) assms(3) a by (simp add: translate_def canonical_def a_def [symmetric])
qed

lemma fixmap_addresses:
  "unat FIXMAP_TABLE_BASE = 0xFFFFFFFF7FE00000" "unat FIXMAP_FRAME_BASE = 0xFFFFFFFF7FE01000"
  "unat BOOT_FRAME_WINDOW_BASE = 0xFFFFFFFFC0000000" "FIXMAP_FRAME_INDEX = 1"
  by (simp_all add: FIXMAP_TABLE_BASE_def FIXMAP_FRAME_BASE_def FIXMAP_FRAME_INDEX_def BOOT_FRAME_WINDOW_BASE_def
      SV39_HIGH_HALF_BASE_def BOOT_FRAME_WINDOW_VPN2_def VPN_MASK_def SV39_HIGH_HALF_VPN2_def GIGAPAGE_SIZE_def PAGE_SIZE_def)

lemma fixmap_vpns:
  "vpn 2 0xFFFFFFFF7FE00000 = 509" "vpn (Suc 0) 0xFFFFFFFF7FE00000 = 511" "vpn 0 0xFFFFFFFF7FE00000 = 0"
  "vpn 2 0xFFFFFFFF7FE01000 = 509" "vpn (Suc 0) 0xFFFFFFFF7FE01000 = 511" "vpn 0 0xFFFFFFFF7FE01000 = 1"
  by (simp_all add: vpn_def)

text \<open>A page below the fixmap table, reached through an entry of that table.\<close>

lemma fixmap_translate:
  assumes "kernel_ok kp m" "guarded (ViaKernel kp) m m'" "x < 4096"
    and "vpn 2 a = 509" "vpn (Suc 0) a = 511" "a mod 4096 = 0" "2 ^ 64 - 2 ^ 38 \<le> a"
    and "pte_at (mc_mem m') (kernel_fix kp) (vpn 0 a) = mk_pte f FRAME_WINDOW_PTE_FLAGS" "representable f"
  shows "translate (mc_mem m') (mc_satp m') k (a + x) = Some (f * 4096 + x)"
proof -
  define r where "r = kernel_root kp"
  define l1 where "l1 = pte_ppn (pte_at (mc_mem m) r 509)"
  have ok: "satp_root (mc_satp m') = Some r" "link_to (pte_at (mc_mem m') r 509) l1"
      "link_to (pte_at (mc_mem m') l1 511) (kernel_fix kp)"
    using assms(1,2) by (auto simp: kernel_ok_def Let_def r_def l1_def guarded_def guard_def)
  have "walk (mc_mem m') k (a + x) 2 r = Some (f * 4096 + (a + x) mod 4096)"
    using walk_page [of "mc_mem m'" r "a + x" l1 "kernel_fix kp" k] ok(2,3) assms window_pte(1,2) [OF assms(9)]
    by (simp add: vpn_page [OF assms(6,3)])
  then show ?thesis using ok(1) assms(3,6,7) by (simp add: translate_def canonical_def mod_page)
qed

section \<open>The alias of a frame\<close>

definition frame_alias :: "frame_access \<Rightarrow> nat \<Rightarrow> nat" where
  "frame_alias access f = (case access of
      ViaBootstrap bp \<Rightarrow> unat BOOT_FRAME_WINDOW_BASE + f * 4096 mod 2 ^ 30
    | ViaKernel kp \<Rightarrow> unat FIXMAP_FRAME_BASE)"

definition window_entry :: "frame_access \<Rightarrow> nat \<Rightarrow> kusize" where
  "window_entry access f = (case access of
      ViaBootstrap bp \<Rightarrow> mk_pte (f div 2 ^ 18 * 2 ^ 18) FRAME_WINDOW_PTE_FLAGS
    | ViaKernel kp \<Rightarrow> mk_pte f FRAME_WINDOW_PTE_FLAGS)"

definition in_window :: "frame_access \<Rightarrow> nat \<Rightarrow> machine \<Rightarrow> machine" where
  "in_window access f m = m\<lparr>mc_mem := store64 (mc_mem m) (slot access) (window_entry access f)\<rparr>"

definition closed :: "frame_access \<Rightarrow> machine \<Rightarrow> machine" where
  "closed access m = m\<lparr>mc_mem := store64 (mc_mem m) (slot access) 0\<rparr>"

lemma alias_fits: "frame_alias access f + 4095 < 2 ^ 64"
proof (cases access)
  case (ViaBootstrap bp)
  have "f * 4096 mod 2 ^ 30 = f mod 2 ^ 18 * 4096" by (simp add: mult_mod_left)
  moreover have "f mod 2 ^ 18 \<le> 2 ^ 18 - 1" by (simp add: Suc_leI less_Suc_eq_le [symmetric])
  ultimately show ?thesis using ViaBootstrap by (simp add: frame_alias_def fixmap_addresses)
qed (simp add: frame_alias_def fixmap_addresses)

lemma unat_alias: "unat (word_of_nat (frame_alias access f) :: kusize) = frame_alias access f"
  using alias_fits [of access f] by (intro unat_kusize_of_nat) simp

lemma window_translate:
  assumes "access_ok access m" "guarded access m m'" "load64 (mc_mem m') (slot access) = window_entry access f"
    and "representable f" "x < 4096"
  shows "translate (mc_mem m') (mc_satp m') k (frame_alias access f + x) = Some (f * 4096 + x)"
proof (cases access)
  case (ViaKernel kp)
  then show ?thesis
    using fixmap_translate [of kp m m' x "unat FIXMAP_FRAME_BASE" f k] assms
    by (simp add: access_ok_def slot_def window_entry_def frame_alias_def fixmap_addresses fixmap_vpns)
next
  case (ViaBootstrap bp)
  define r where "r = boot_root bp"
  define off where "off = f * 4096 mod 2 ^ 30"
  define g where "g = f div 2 ^ 18 * 2 ^ 18"
  have off: "off = f mod 2 ^ 18 * 4096" by (simp add: off_def mult_mod_left)
  then have off_lt: "off + x < 2 ^ 30"
  proof -
    have "f mod 2 ^ 18 \<le> 2 ^ 18 - 1" by (simp add: Suc_leI less_Suc_eq_le [symmetric])
    then show ?thesis using assms(5) unfolding off by simp
  qed
  let ?a = "0xFFFFFFFFC0000000 + off + x"
  have v: "vpn 2 ?a = 511"
  proof -
    have "?a div 2 ^ 30 = 17179869183" by (rule div_nat_eqI) (use off_lt in simp_all)
    then show ?thesis by (simp add: vpn_def)
  qed
  have rep: "representable g" using assms(4) unfolding representable_def g_def by (rule le_less_trans [rotated]) simp
  have e: "pte_at (mc_mem m') r 511 = mk_pte g FRAME_WINDOW_PTE_FLAGS"
    using assms(3) ViaBootstrap by (simp add: slot_def window_entry_def g_def r_def)
  have "walk (mc_mem m') k ?a 2 r = Some (g * 4096 + ?a mod 2 ^ 30)"
    using walk_leaf [of k "mc_mem m'" r 2 ?a] window_pte(1) [OF rep, of k] window_pte(2) [OF rep] by (simp add: v e g_def)
  moreover have "?a mod 2 ^ 30 = off + x"
  proof -
    have "?a = 17179869183 * 2 ^ 30 + (off + x)" by simp
    then show ?thesis using off_lt by (metis mod_less mod_mult_self3)
  qed
  moreover have "g * 4096 + off = f * 4096"
    unfolding off g_def distrib_right [symmetric] by (simp only: div_mult_mod_eq)
  moreover have "satp_root (mc_satp m') = Some r"
    using assms(1,2) ViaBootstrap by (auto simp: access_ok_def boot_ok_def Let_def guarded_def r_def)
  moreover have "frame_alias access f = 0xFFFFFFFFC0000000 + off"
    using ViaBootstrap by (simp add: frame_alias_def fixmap_addresses off_def)
  ultimately show ?thesis by (simp add: translate_def canonical_def flip: add.assoc)
qed

section \<open>Opening and closing a window\<close>

definition store_slot :: "frame_access \<Rightarrow> kusize \<Rightarrow> machine \<Rightarrow> machine" where
  "store_slot access w m = m\<lparr>mc_mem := store64 (mc_mem m) (slot access) w\<rparr>"

lemma in_window_eq: "in_window access f m = store_slot access (window_entry access f) m"
  by (simp add: in_window_def store_slot_def)

lemma closed_eq: "closed access m = store_slot access 0 m"
  by (simp add: closed_def store_slot_def)

lemma boot_slot_access:
  assumes "boot_ok bp m" "guarded (ViaBootstrap bp) m m'"
  shows "read_mapped_page_table_entry (bp_root_virtual bp) BOOT_FRAME_WINDOW_VPN2 m' =
      (Ok (load64 (mc_mem m') (slot (ViaBootstrap bp))), m')"
    "write_mapped_page_table_entry (bp_root_virtual bp) BOOT_FRAME_WINDOW_VPN2 w m' =
      (Ok (), store_slot (ViaBootstrap bp) w m')"
  using boot_translate_root [OF assms, of 4088]
  by (simp_all add: read_mapped_page_table_entry_def write_mapped_page_table_entry_def PAGE_TABLE_ENTRIES_def
      BOOT_FRAME_WINDOW_VPN2_def VPN_MASK_def vload64_def vstore64_def slot_def cell_def store_slot_def)

lemma kernel_slot_access:
  assumes "kernel_ok kp m" "guarded (ViaKernel kp) m m'"
  shows "vload64 (unat (kp_frame_slot kp)) m' = (Ok (load64 (mc_mem m') (slot (ViaKernel kp))), m')"
    "vstore64 (unat (kp_frame_slot kp)) w m' = (Ok (), store_slot (ViaKernel kp) w m')"
proof -
  have "pte_at (mc_mem m') (kernel_fix kp) 0 = mk_pte (kernel_fix kp) FRAME_WINDOW_PTE_FLAGS" "representable (kernel_fix kp)"
    using assms by (auto simp: kernel_ok_def guarded_def guard_def Let_def)
  then have "translate (mc_mem m') (mc_satp m') k (unat FIXMAP_TABLE_BASE + 8) = Some (cell (kernel_fix kp) 1)" for k
    using fixmap_translate [OF assms, of 8 "unat FIXMAP_TABLE_BASE" "kernel_fix kp" k]
    by (simp add: fixmap_addresses fixmap_vpns cell_def)
  moreover have "unat (kp_frame_slot kp) = unat FIXMAP_TABLE_BASE + 8"
    using assms(1) by (simp add: kernel_ok_def Let_def unat_word_ariths fixmap_addresses)
  ultimately show "vload64 (unat (kp_frame_slot kp)) m' = (Ok (load64 (mc_mem m') (slot (ViaKernel kp))), m')"
    "vstore64 (unat (kp_frame_slot kp)) w m' = (Ok (), store_slot (ViaKernel kp) w m')"
    by (simp_all add: vload64_def vstore64_def slot_def store_slot_def)
qed

lemma slot_cell: obtains f i where "slot access = cell f i" "i < 512"
  by (cases access) (auto simp: slot_def intro: that)

text \<open>Distinct cells do not overlap.\<close>

lemma cells_apart:
  assumes "i < 512" "j < 512" "cell f i \<noteq> cell g j"
  shows "cell f i + 8 \<le> cell g j \<or> cell g j + 8 \<le> cell f i"
  using cell_disjoint [OF assms(1,2), of f g] assms(3) by auto

lemma guarded_store_slot:
  assumes "access_ok access m" "guarded access m m'"
  shows "guarded access m (store_slot access w m')"
proof -
  have "load64 (store64 (mc_mem m') (slot access) w) c = load64 (mc_mem m') c" if c: "c \<in> guard access m" for c
  proof -
    obtain f i where "c = cell f i" "i < 512" "c \<noteq> slot access" by (rule guard_cases [OF assms(1) c])
    moreover obtain g j where "slot access = cell g j" "j < 512" by (rule slot_cell)
    ultimately have "slot access + 8 \<le> c \<or> c + 8 \<le> slot access" using cells_apart [of j i g f] by metis
    then show ?thesis by (rule load64_store64_other)
  qed
  then show ?thesis using assms(2) by (simp add: guarded_def store_slot_def)
qed

lemma with_frame_run:
  assumes "access_ok access m" "frame_ok fr" "representable (frame_no fr)"
    and "operation (VirtAddr (word_of_nat (frame_alias access (frame_no fr)))) (in_window access (frame_no fr) m) = (Ok r, m2)"
    and "guarded access m m2"
  shows "with_frame access fr operation m = (Ok r, closed access m2)"
proof (cases access)
  case (ViaKernel kp)
  then have ok: "kernel_ok kp m" using assms(1) by (simp add: access_ok_def)
  have al: "(word_of_nat (frame_alias access (frame_no fr)) :: kusize) = FIXMAP_FRAME_BASE"
    using ViaKernel by (simp add: frame_alias_def)
  show ?thesis
    using assms(4,5) access_ok_slot [OF assms(1)]
    unfolding ViaKernel with_frame_def kernel_with_frame_def al [unfolded ViaKernel]
    by (simp add: bind_op_def kernel_slot_access [OF ok] page_table_entry_frame [OF assms(2)] assms(3) in_window_eq closed_eq window_entry_def flush_address_def Let_def)
next
  case (ViaBootstrap bp)
  then have ok: "boot_ok bp m" using assms(1) by (simp add: access_ok_def)
  define f where "f = frame_no fr"
  have mask: "GIGAPAGE_MASK = mask 30" by (simp add: GIGAPAGE_MASK_def mask_eq_decr_exp)
  have pa: "pa (pf_start_address fr) = f * 4096" using pa_frame_no [OF assms(2)] by (simp add: f_def)
  define base where "base = pa_as_usize (pf_start_address fr) AND NOT GIGAPAGE_MASK"
  have base: "unat base = f div 2 ^ 18 * 2 ^ 18 * 4096"
  proof -
    have "f * 4096 div 2 ^ 30 = f div 2 ^ 18" using div_mult_mult1 [of 4096 f "2 ^ 18"] by (simp add: mult.commute)
    then show ?thesis by (simp add: base_def mask unat_clear_mask pa)
  qed
  have g: "representable (f div 2 ^ 18 * 2 ^ 18)" using assms(3) unfolding representable_def f_def
    by (rule le_less_trans [rotated]) simp
  have "base = word_of_nat (f div 2 ^ 18 * 2 ^ 18 * 4096)" unfolding base [symmetric] by simp
  then have "PhysFrame (PhysAddr base) = frame_of (f div 2 ^ 18 * 2 ^ 18)" unfolding frame_of_def by simp
  then have pte: "page_table_entry (PhysAddr base) FRAME_WINDOW_PTE_FLAGS = Ok (window_entry access f)"
    using page_table_entry_frame [OF frame_ok_frame_of [OF g], of FRAME_WINDOW_PTE_FLAGS] g ViaBootstrap
    by (simp add: window_entry_def) (metis PhysFrame.sel)
  have "unat (pa_as_usize (pf_start_address fr) AND GIGAPAGE_MASK) = f * 4096 mod 2 ^ 30"
    by (simp add: mask unat_and_mask pa)
  then have al: "BOOT_FRAME_WINDOW_BASE + (pa_as_usize (pf_start_address fr) AND GIGAPAGE_MASK) =
      word_of_nat (frame_alias access f)"
    using ViaBootstrap by (simp add: frame_alias_def) (metis of_nat_add ucast_id of_nat_unat)
  show ?thesis
    using assms(4,5) access_ok_slot [OF assms(1)]
    unfolding ViaBootstrap with_frame_def bootstrap_with_frame_def f_def [symmetric] al [unfolded ViaBootstrap]
    by (simp add: bind_op_def boot_slot_access [OF ok] max_physical_iff [OF assms(2)] assms(3) pte [unfolded ViaBootstrap] base_def [symmetric]
        in_window_eq closed_eq flush_address_def Let_def al [unfolded ViaBootstrap])
qed

lemma with_frame_unrepresentable:
  assumes "access_ok access m" "frame_ok fr" "\<not> representable (frame_no fr)"
  shows "with_frame access fr operation m = (Err (PhysicalAddressNotRepresentable (pf_start_address fr)), m)"
proof (cases access)
  case (ViaKernel kp)
  then show ?thesis using assms
    by (simp add: with_frame_def kernel_with_frame_def bind_op_def page_table_entry_frame)
next
  case (ViaBootstrap bp)
  then have ok: "boot_ok bp m" using assms(1) by (simp add: access_ok_def)
  show ?thesis using boot_slot_access(1) [OF ok guarded_refl] access_ok_slot [OF assms(1)] assms(2,3) ViaBootstrap
    by (simp add: with_frame_def bootstrap_with_frame_def bind_op_def max_physical_iff)
qed

section \<open>Table access through a window\<close>

abbreviation upd_mem :: "(mem \<Rightarrow> mem) \<Rightarrow> machine \<Rightarrow> machine" where
  "upd_mem g m \<equiv> m\<lparr>mc_mem := g (mc_mem m)\<rparr>"

lemma slot_entry_in_window [simp]: "load64 (mc_mem (in_window access f m)) (slot access) = window_entry access f"
  by (simp add: in_window_def)

lemma closed_in_window [simp]: "access_ok access m \<Longrightarrow> closed access (in_window access f m) = m"
  using access_ok_slot [of access m] store64_load64 [of "mc_mem m" "slot access"] by (simp add: closed_def in_window_def)

lemma in_window_entry:
  assumes "i < 512" "cell f i \<noteq> slot access"
  shows "pte_at (mc_mem (in_window access g m)) f i = pte_at (mc_mem m) f i"
proof -
  obtain h j where s: "slot access = cell h j" "j < 512" by (rule slot_cell)
  then have "slot access + 8 \<le> cell f i \<or> cell f i + 8 \<le> slot access"
    using cells_apart [of j i h f] assms by metis
  then show ?thesis by (simp add: in_window_def load64_store64_other)
qed

lemma index_lt: "i < PAGE_TABLE_ENTRIES \<longleftrightarrow> unat i < 512"
  by (simp add: PAGE_TABLE_ENTRIES_def word_less_nat_alt)

lemma read_page_table_entry_eq:
  assumes "access_ok access m" "frame_ok fr" "representable (frame_no fr)" "unat i < 512"
    and "cell (frame_no fr) (unat i) \<noteq> slot access"
  shows "read_page_table_entry access fr i m = (Ok (pte_at (mc_mem m) (frame_no fr) (unat i)), m)"
proof -
  let ?f = "frame_no fr" and ?m1 = "in_window access (frame_no fr) m"
  have g: "guarded access m ?m1" unfolding in_window_eq by (rule guarded_store_slot [OF assms(1) guarded_refl])
  have "translate (mc_mem ?m1) (mc_satp ?m1) Load (frame_alias access ?f + 8 * unat i) = Some (cell ?f (unat i))"
    using window_translate [OF assms(1) g slot_entry_in_window assms(3), of "8 * unat i" Load] assms(4) by (simp add: cell_def)
  then have "with_frame access fr (\<lambda>address. result_of (read_mapped_page_table_entry address i)) m =
      (Ok (Ok (pte_at (mc_mem m) ?f (unat i))), closed access ?m1)"
    using assms(4) in_window_entry [OF assms(4,5)]
    by (intro with_frame_run [OF assms(1-3) _ g])
      (simp add: result_of_def read_mapped_page_table_entry_def index_lt not_le unat_alias vload64_def)
  then show ?thesis using assms(1) by (simp add: read_page_table_entry_def bind_op_def)
qed

lemma guarded_set_entry:
  assumes "access_ok access m" "guarded access m m'" "i < 512" "cell f i \<notin> guard access m"
  shows "guarded access m (upd_mem (\<lambda>mm. set_entry mm f i w) m')"
proof -
  have "load64 (set_entry (mc_mem m') f i w) c = load64 (mc_mem m') c" if c: "c \<in> guard access m" for c
  proof -
    obtain g j where "c = cell g j" "j < 512" by (rule guard_cases [OF assms(1) c])
    with c assms(3,4) show ?thesis by (auto simp: entry_set_entry)
  qed
  then show ?thesis using assms(2) by (simp add: guarded_def)
qed

lemma write_page_table_entry_eq:
  assumes "access_ok access m" "frame_ok fr" "representable (frame_no fr)" "unat i < 512"
    and "cell (frame_no fr) (unat i) \<noteq> slot access" "cell (frame_no fr) (unat i) \<notin> guard access m"
  shows "write_page_table_entry access fr i w m =
    (Ok (), upd_mem (\<lambda>mm. set_entry mm (frame_no fr) (unat i) w) m)"
proof -
  let ?f = "frame_no fr" and ?m1 = "in_window access (frame_no fr) m"
  have g: "guarded access m ?m1" unfolding in_window_eq by (rule guarded_store_slot [OF assms(1) guarded_refl])
  define m2 where "m2 = upd_mem (\<lambda>mm. set_entry mm ?f (unat i) w) ?m1"
  have g2: "guarded access m m2" unfolding m2_def by (rule guarded_set_entry [OF assms(1) g assms(4,6)])
  have "translate (mc_mem ?m1) (mc_satp ?m1) Store (frame_alias access ?f + 8 * unat i) = Some (cell ?f (unat i))"
    using window_translate [OF assms(1) g slot_entry_in_window assms(3), of "8 * unat i" Store] assms(4) by (simp add: cell_def)
  then have "with_frame access fr (\<lambda>address. result_of (write_mapped_page_table_entry address i w)) m =
      (Ok (Ok ()), closed access m2)"
    using assms(4) by (intro with_frame_run [OF assms(1-3) _ g2])
      (simp add: result_of_def write_mapped_page_table_entry_def index_lt not_le unat_alias vstore64_def m2_def set_entry_def)
  then have "write_page_table_entry access fr i w m = (Ok (), closed access m2)"
    by (simp add: write_page_table_entry_def bind_op_def)
  moreover have "closed access m2 = upd_mem (\<lambda>mm. set_entry mm ?f (unat i) w) m"
  proof -
    obtain h j where "slot access = cell h j" "j < 512" by (rule slot_cell)
    then have apart: "slot access + 8 \<le> cell ?f (unat i) \<or> cell ?f (unat i) + 8 \<le> slot access"
      using cells_apart [of j "unat i" h ?f] assms(4,5) by metis
    have "store64 (store64 (store64 mm (slot access) e) (cell ?f (unat i)) w) (slot access) 0 =
        store64 (store64 mm (slot access) 0) (cell ?f (unat i)) w" for mm e
      using apart by (subst store64_commute) auto
    moreover have "store64 (mc_mem m) (slot access) 0 = mc_mem m"
      using store64_load64 [of "mc_mem m" "slot access"] access_ok_slot [OF assms(1)] by simp
    ultimately show ?thesis by (simp add: closed_def m2_def in_window_def set_entry_def)
  qed
  ultimately show ?thesis by simp
qed

section \<open>Filling a frame through a window\<close>

definition fill_frame :: "mem \<Rightarrow> nat \<Rightarrow> nat \<Rightarrow> (nat \<Rightarrow> u8) \<Rightarrow> mem" where
  "fill_frame m f n v = (\<lambda>x. if f * 4096 \<le> x \<and> x < f * 4096 + n then v (x - f * 4096) else m x)"

text \<open>A frame the window does not depend on.\<close>

definition clear_of :: "frame_access \<Rightarrow> machine \<Rightarrow> nat \<Rightarrow> bool" where
  "clear_of access m f \<longleftrightarrow> slot access div 4096 \<noteq> f \<and> (\<forall>c\<in>guard access m. c div 4096 \<noteq> f)"

lemma fill_frame_other: "n \<le> 4096 \<Longrightarrow> x div 4096 \<noteq> f \<Longrightarrow> fill_frame m f n v x = m x"
  unfolding fill_frame_def using div_nat_eqI [of f 4096 x] by (auto simp: mult.commute)

lemma fill_frame_entry: "n \<le> 4096 \<Longrightarrow> i < 512 \<Longrightarrow> g \<noteq> f \<Longrightarrow> pte_at (fill_frame m f n v) g i = pte_at m g i"
  by (auto intro: entry_cong fill_frame_other)

lemma guarded_fill:
  assumes "access_ok access m" "guarded access m m'" "clear_of access m f" "n \<le> 4096"
  shows "guarded access m (upd_mem (\<lambda>mm. fill_frame mm f n v) m')"
proof -
  have "load64 (fill_frame (mc_mem m') f n v) c = load64 (mc_mem m') c" if c: "c \<in> guard access m" for c
  proof -
    obtain g j where "c = cell g j" "j < 512" by (rule guard_cases [OF assms(1) c])
    with c assms(3,4) show ?thesis by (auto simp: clear_of_def fill_frame_entry)
  qed
  then show ?thesis using assms(2) by (simp add: guarded_def)
qed

lemma slot_fill:
  assumes "clear_of access m f" "n \<le> 4096"
  shows "load64 (fill_frame mm f n v) (slot access) = load64 mm (slot access)"
    "fill_frame (store64 mm (slot access) w) f n v = store64 (fill_frame mm f n v) (slot access) w"
proof -
  obtain h j where s: "slot access = cell h j" "j < 512" by (rule slot_cell)
  then have h: "h \<noteq> f" using assms(1) by (auto simp: clear_of_def)
  show "load64 (fill_frame mm f n v) (slot access) = load64 mm (slot access)"
    unfolding s(1) by (rule fill_frame_entry [OF assms(2) s(2) h])
  show "fill_frame (store64 mm (slot access) w) f n v = store64 (fill_frame mm f n v) (slot access) w"
    unfolding s(1)
  proof
    fix x
    show "fill_frame (store64 mm (cell h j) w) f n v x = store64 (fill_frame mm f n v) (cell h j) w x"
    proof (cases "cell h j \<le> x \<and> x < cell h j + 8")
      case True
      then obtain k where "x = cell h j + k" "k < 8" by (metis le_Suc_ex nat_add_left_cancel_less)
      then have "x div 4096 \<noteq> f" using cell_byte_frame [OF s(2)] h by simp
      then show ?thesis using assms(2) by (simp add: fill_frame_other store64_def)
    qed (auto simp: store64_def fill_frame_def)
  qed
qed

lemma fill_frame_0 [simp]: "fill_frame m f 0 v = m"
  by (rule ext) (auto simp: fill_frame_def)

lemma fill_step: "(fill_frame m f n v)(f * 4096 + n := v n) = fill_frame m f (Suc n) v"
  by (auto simp: fill_frame_def fun_eq_iff less_Suc_eq)

lemma store_bytes_run:
  assumes "access_ok access m" "representable f" "clear_of access m f" "n \<le> 4096"
  shows "for_op (\<lambda>i. vstore8 (frame_alias access f + i) (v i)) [0..<n] (in_window access f m) =
    (Ok (), upd_mem (\<lambda>mm. fill_frame mm f n v) (in_window access f m))"
  using assms(4)
proof (induction n)
  case 0
  then show ?case by simp
next
  case (Suc n)
  let ?m1 = "in_window access f m"
  have g: "guarded access m ?m1" unfolding in_window_eq by (rule guarded_store_slot [OF assms(1) guarded_refl])
  have n: "n \<le> 4096" "n < 4096" using Suc.prems by simp_all
  have "translate (mc_mem (upd_mem (\<lambda>mm. fill_frame mm f n v) ?m1)) (mc_satp ?m1) Store (frame_alias access f + n) = Some (f * 4096 + n)"
    using window_translate [OF assms(1) guarded_fill [OF assms(1) g assms(3) n(1)] _ assms(2) n(2), of v Store]
      slot_fill(1) [OF assms(3) n(1)] by simp
  then show ?case
    using Suc.IH [OF n(1)] by (simp add: for_op_append bind_op_def vstore8_def fill_step)
qed

lemma with_frame_fill:
  assumes "access_ok access m" "frame_ok fr" "representable (frame_no fr)" "clear_of access m (frame_no fr)" "n \<le> 4096"
  shows "with_frame access fr (\<lambda>address. for_op (\<lambda>i. vstore8 (va address + i) (v i)) [0..<n]) m =
    (Ok (), upd_mem (\<lambda>mm. fill_frame mm (frame_no fr) n v) m)"
proof -
  let ?f = "frame_no fr" and ?m1 = "in_window access (frame_no fr) m"
  have g: "guarded access m ?m1" unfolding in_window_eq by (rule guarded_store_slot [OF assms(1) guarded_refl])
  have "with_frame access fr (\<lambda>address. for_op (\<lambda>i. vstore8 (va address + i) (v i)) [0..<n]) m =
      (Ok (), closed access (upd_mem (\<lambda>mm. fill_frame mm ?f n v) ?m1))"
    by (rule with_frame_run [OF assms(1-3) _ guarded_fill [OF assms(1) g assms(4,5)]])
      (simp add: unat_alias store_bytes_run [OF assms(1,3-5)])
  moreover have "store64 (mc_mem m) (slot access) 0 = mc_mem m"
    using store64_load64 [of "mc_mem m" "slot access"] access_ok_slot [OF assms(1)] by simp
  ultimately show ?thesis by (simp add: closed_def in_window_def flip: slot_fill(2) [OF assms(4,5)])
qed

lemma zero_frame_eq:
  assumes "access_ok access m" "frame_ok (af_frame fr)" "representable (frame_no (af_frame fr))" "clear_of access m (frame_no (af_frame fr))"
  shows "zero_frame access fr m = (Ok (), upd_mem (\<lambda>mm. clear_frame mm (frame_no (af_frame fr))) m)"
proof -
  have "fill_frame mm f 4096 (\<lambda>_. 0) = clear_frame mm f" for mm f
    by (simp add: fill_frame_def clear_frame_def write_bytes_def)
  then show ?thesis
    using with_frame_fill [OF assms, of 4096 "\<lambda>_. 0"] by (simp add: zero_frame_def vwrite_bytes_def PAGE_SIZE_def)
qed

end
