(* ===== verification/Page_Tree.thy ===== *)
theory Page_Tree
  imports Paging_Access
begin

text \<open>
  Page tables as a tree in physical memory.  A table is named by the path of indices that leads to
  it from the root; \<open>leaf_entry\<close> is the level-0 entry of a page, zero where no table is linked.
  \<open>tree_ok\<close> says that different paths lead to different frames.  The two changes the mapping code
  makes, linking a cleared table and writing a leaf, are described by their effect on the tree.
\<close>

section \<open>Tables by path\<close>

definition child :: "mem \<Rightarrow> nat \<Rightarrow> nat \<Rightarrow> nat option" where
  "child m f i = (let e = pte_at m f i in if pte_link e then Some (pte_ppn e) else None)"

fun tab :: "mem \<Rightarrow> nat \<Rightarrow> nat list \<Rightarrow> nat option" where
  "tab m f [] = Some f"
| "tab m f (i # p) = (case child m f i of None \<Rightarrow> None | Some g \<Rightarrow> tab m g p)"

definition path_ok :: "nat list \<Rightarrow> bool" where
  "path_ok p \<longleftrightarrow> length p \<le> 2 \<and> (\<forall>i\<in>set p. i < 512)"

definition tables :: "mem \<Rightarrow> nat \<Rightarrow> nat set" where
  "tables m root = {f. \<exists>p. path_ok p \<and> tab m root p = Some f}"

text \<open>A page by its three indices, from the root downwards.\<close>

type_synonym page = "nat \<times> nat \<times> nat"

definition page_of_address :: "nat \<Rightarrow> page" where
  "page_of_address a = (vpn 2 a, vpn 1 a, vpn 0 a)"

definition page_ok :: "page \<Rightarrow> bool" where
  "page_ok v \<longleftrightarrow> (case v of (i, j, k) \<Rightarrow> i < 512 \<and> j < 512 \<and> k < 512)"

definition leaf_entry :: "mem \<Rightarrow> nat \<Rightarrow> page \<Rightarrow> kusize" where
  "leaf_entry m root v = (case v of (i, j, k) \<Rightarrow>
     (case tab m root [i, j] of None \<Rightarrow> 0 | Some f \<Rightarrow> pte_at m f k))"

definition tree_ok :: "mem \<Rightarrow> nat \<Rightarrow> bool" where
  "tree_ok m root \<longleftrightarrow> representable root \<and>
     (\<forall>p q f. path_ok p \<longrightarrow> path_ok q \<longrightarrow> tab m root p = Some f \<longrightarrow> tab m root q = Some f \<longrightarrow> p = q) \<and>
     (\<forall>p i f. path_ok (p @ [i]) \<longrightarrow> tab m root p = Some f \<longrightarrow> pte_link (pte_at m f i) \<longrightarrow>
        unat (pte_at m f i) div 2 ^ 54 = 0)"

lemma page_ok_address [simp]: "page_ok (page_of_address a)"
  by (simp add: page_ok_def page_of_address_def)

lemma tab_append: "tab m f (p @ q) = (case tab m f p of None \<Rightarrow> None | Some g \<Rightarrow> tab m g q)"
  by (induction p arbitrary: f) (auto split: option.split)

lemma path_ok_simps [simp]:
  "path_ok []" "path_ok [i] \<longleftrightarrow> i < 512" "path_ok [i, j] \<longleftrightarrow> i < 512 \<and> j < 512"
  by (auto simp: path_ok_def)

lemma path_ok_prefix: "path_ok (p @ q) \<Longrightarrow> path_ok p"
  by (auto simp: path_ok_def)

lemma path_ok_snoc: "path_ok (p @ [i]) \<Longrightarrow> path_ok p \<and> i < 512 \<and> length p < 2"
  by (auto simp: path_ok_def)

lemma tree_inj:
  "tree_ok m root \<Longrightarrow> path_ok p \<Longrightarrow> path_ok q \<Longrightarrow> tab m root p = Some f \<Longrightarrow> tab m root q = Some f \<Longrightarrow> p = q"
  unfolding tree_ok_def by blast

lemma tree_clean:
  "tree_ok m root \<Longrightarrow> path_ok (p @ [i]) \<Longrightarrow> tab m root p = Some f \<Longrightarrow> pte_link (pte_at m f i) \<Longrightarrow>
   unat (pte_at m f i) div 2 ^ 54 = 0"
  unfolding tree_ok_def by blast

lemma tab_representable:
  assumes "representable root" "tab m root p = Some f"
  shows "representable f"
  using assms
proof (induction p arbitrary: root)
  case (Cons i p)
  then show ?case using Cons.IH [of "pte_ppn (pte_at m root i)"]
    by (auto simp: child_def Let_def split: option.splits if_splits)
qed simp

lemma tables_root [simp]: "root \<in> tables m root"
  unfolding tables_def by (rule CollectI, rule exI [of _ "[]"]) simp

lemma tables_tab: "path_ok p \<Longrightarrow> tab m root p = Some f \<Longrightarrow> f \<in> tables m root"
  by (auto simp: tables_def)

text \<open>A path depends only on the entries it follows.\<close>

lemma tab_cong:
  assumes "\<And>r i s f. p = r @ i # s \<Longrightarrow> tab m root r = Some f \<Longrightarrow> pte_at m' f i = pte_at m f i"
  shows "tab m' root p = tab m root p"
  using assms
proof (induction p arbitrary: root)
  case (Cons i p)
  have eq: "child m' root i = child m root i" using Cons.prems [of "[]" i p root] by (simp add: child_def)
  show ?case
  proof (cases "child m root i")
    case (Some g)
    have "tab m' g p = tab m g p"
    proof (rule Cons.IH)
      fix r j s f assume "p = r @ j # s" "tab m g r = Some f"
      then show "pte_at m' f j = pte_at m f j" using Cons.prems [of "i # r" j s f] Some by simp
    qed
    with eq Some show ?thesis by simp
  qed (simp add: eq)
qed simp

section \<open>Linking a table\<close>

definition link_table :: "mem \<Rightarrow> nat \<Rightarrow> nat \<Rightarrow> nat \<Rightarrow> kusize \<Rightarrow> mem" where
  "link_table m f i g e = set_entry (clear_frame m g) f i e"

lemma link_table_entry:
  assumes "i < 512" "j < 512" "f \<noteq> g"
  shows "pte_at (link_table m f i g e) h j =
    (if h = f \<and> j = i then e else if h = g then 0 else pte_at m h j)"
  using assms by (auto simp: link_table_def entry_set_entry entry_clear_frame)

text \<open>
  \<open>linkable\<close>: the entry \<open>i\<close> of the table \<open>f\<close> at path \<open>p\<close> is empty, and
  \<open>e\<close> links a frame \<open>g\<close> that is not a table of the tree.
\<close>

definition linkable :: "mem \<Rightarrow> nat \<Rightarrow> nat list \<Rightarrow> nat \<Rightarrow> nat \<Rightarrow> nat \<Rightarrow> kusize \<Rightarrow> bool" where
  "linkable m root p i f g e \<longleftrightarrow> tree_ok m root \<and> path_ok (p @ [i]) \<and> tab m root p = Some f \<and>
     pte_at m f i = 0 \<and> g \<notin> tables m root \<and> link_to e g"

lemma linkableD:
  assumes "linkable m root p i f g e"
  shows "tree_ok m root" "path_ok p" "i < 512" "length p < 2" "tab m root p = Some f" "pte_at m f i = 0"
    "g \<notin> tables m root" "link_to e g" "f \<noteq> g"
proof -
  show a: "tree_ok m root" "path_ok p" "i < 512" "length p < 2" "tab m root p = Some f" "pte_at m f i = 0"
    "g \<notin> tables m root" "link_to e g"
    using assms path_ok_snoc [of p i] by (simp_all add: linkable_def)
  show "f \<noteq> g" using tables_tab [OF a(2,5)] a(7) by blast
qed

lemma link_entry:
  assumes "linkable m root p i f g e" "j < 512"
  shows "pte_at (link_table m f i g e) h j = (if h = f \<and> j = i then e else if h = g then 0 else pte_at m h j)"
  by (rule link_table_entry [OF linkableD(3) [OF assms(1)] assms(2) linkableD(9) [OF assms(1)]])

text \<open>A path that does not go through the new link leads where it led.\<close>

lemma tab_other:
  assumes L: "linkable m root p i f g e" and q: "path_ok q" and new: "\<nexists>s. q = p @ i # s"
  shows "tab (link_table m f i g e) root q = tab m root q"
proof (rule tab_cong)
  fix r j s h assume r: "q = r @ j # s" "tab m root r = Some h"
  then have pr: "path_ok r" "j < 512" using q by (auto simp: path_ok_def)
  then have "h \<noteq> g" using tables_tab [OF pr(1) r(2)] linkableD(7) [OF L] by blast
  moreover have "(h, j) \<noteq> (f, i)"
    using tree_inj [OF linkableD(1) [OF L] pr(1) linkableD(2) [OF L]] r linkableD(5) [OF L] new by auto
  ultimately show "pte_at (link_table m f i g e) h j = pte_at m h j" using link_entry [OF L pr(2)] by auto
qed

lemma tab_link:
  assumes L: "linkable m root p i f g e" and q: "path_ok q"
  shows "tab (link_table m f i g e) root q = (if q = p @ [i] then Some g else tab m root q)"
proof (cases "\<exists>s. q = p @ i # s")
  case True
  then obtain s where s: "q = p @ i # s" by blast
  note d = linkableD [OF L]
  have "tab (link_table m f i g e) root p = Some f" using tab_other [OF L d(2)] d(5) by simp
  then have g: "tab (link_table m f i g e) root (p @ i # s) = tab (link_table m f i g e) g s"
    using link_entry [OF L d(3), of f] d(8) by (simp add: tab_append child_def link_to_def)
  have none: "tab m root (p @ i # s) = None" by (simp add: tab_append d(5) child_def d(6) pte_link_def)
  show ?thesis
  proof (cases s)
    case (Cons j s')
    then have "j < 512" using s q by (auto simp: path_ok_def)
    then have "child (link_table m f i g e) g j = None" using link_entry [OF L, of j g] d(9) by (simp add: child_def pte_link_def)
    then show ?thesis using s Cons g none by simp
  qed (use s g in simp)
qed (use tab_other [OF L q] in auto)

lemma link_old_none: "linkable m root p i f g e \<Longrightarrow> tab m root (p @ [i]) = None"
  using linkableD [of m root p i f g e] by (simp add: tab_append child_def pte_link_def)

lemma tables_link:
  assumes L: "linkable m root p i f g e"
  shows "tables (link_table m f i g e) root = insert g (tables m root)"
proof
  show "tables (link_table m f i g e) root \<subseteq> insert g (tables m root)"
    using tab_link [OF L] by (auto simp: tables_def split: if_splits)
  have "g \<in> tables (link_table m f i g e) root"
    using tab_link [OF L, of "p @ [i]"] L tables_tab by (auto simp: linkable_def)
  moreover have "h \<in> tables (link_table m f i g e) root" if "h \<in> tables m root" for h
  proof -
    from that obtain q where q: "path_ok q" "tab m root q = Some h" by (auto simp: tables_def)
    then have "q \<noteq> p @ [i]" using link_old_none [OF L] by auto
    then show ?thesis using tab_link [OF L q(1)] q tables_tab by auto
  qed
  ultimately show "insert g (tables m root) \<subseteq> tables (link_table m f i g e) root" by blast
qed

lemma tree_ok_link:
  assumes L: "linkable m root p i f g e"
  shows "tree_ok (link_table m f i g e) root"
proof -
  let ?m = "link_table m f i g e"
  note d = linkableD [OF L]
  have "q = q'" if "path_ok q" "path_ok q'" "tab ?m root q = Some h" "tab ?m root q' = Some h" for q q' h
    using that tab_link [OF L that(1)] tab_link [OF L that(2)] tree_inj [OF d(1) that(1,2)] d(7)
      tables_tab [OF that(1)] tables_tab [OF that(2)] by (auto split: if_splits)
  moreover have "unat (pte_at ?m h j) div 2 ^ 54 = 0"
    if q: "path_ok (q @ [j])" "tab ?m root q = Some h" "pte_link (pte_at ?m h j)" for q j h
  proof -
    have j: "j < 512" "path_ok q" using path_ok_snoc [OF q(1)] by simp_all
    note entry = link_entry [OF L j(1), of h]
    show ?thesis
    proof (cases "h = f \<and> j = i")
      case True
      then show ?thesis using entry d(8) by (simp add: link_to_def)
    next
      case False
      then have "h \<noteq> g" using q(3) entry by (auto simp: pte_link_def)
      moreover from this have "tab m root q = Some h" using q(2) tab_link [OF L j(2)] by (auto split: if_splits)
      ultimately show ?thesis using entry False tree_clean [OF d(1) q(1), of h] q(3) by auto
    qed
  qed
  ultimately show ?thesis using d(1) unfolding tree_ok_def by blast
qed

lemma leaf_entry_link:
  assumes L: "linkable m root p i f g e" and v: "page_ok v"
  shows "leaf_entry (link_table m f i g e) root v = leaf_entry m root v"
proof -
  let ?m = "link_table m f i g e"
  note d = linkableD [OF L]
  obtain a b c where abc: "v = (a, b, c)" "a < 512" "b < 512" "c < 512" using v by (cases v) (auto simp: page_ok_def)
  have path: "path_ok [a, b]" using abc by simp
  note entry = link_entry [OF L abc(4)]
  show ?thesis
  proof (cases "[a, b] = p @ [i]")
    case True
    then have "tab ?m root [a, b] = Some g" "tab m root [a, b] = None"
      using tab_link [OF L path] link_old_none [OF L] by metis+
    moreover have "pte_at ?m g c = 0" using entry [of g] d(9) by auto
    ultimately show ?thesis unfolding leaf_entry_def abc(1) by simp
  next
    case False
    then have eq: "tab ?m root [a, b] = tab m root [a, b]" using tab_link [OF L path] by metis
    show ?thesis
    proof (cases "tab m root [a, b]")
      case (Some h)
      then have "h \<noteq> g" using tables_tab [OF path] d(7) by blast
      moreover have "h \<noteq> f" using tree_inj [OF d(1) path d(2) Some] d(4,5) by auto
      ultimately show ?thesis using entry [of h] eq Some unfolding leaf_entry_def abc(1) by simp
    qed (use eq in \<open>simp add: leaf_entry_def abc(1)\<close>)
  qed
qed

section \<open>Writing a leaf, and memory outside the tree\<close>

lemma outside_tree:
  assumes "\<And>x. x div 4096 \<in> tables m root \<Longrightarrow> m' x = m x"
  shows "path_ok q \<Longrightarrow> tab m' root q = tab m root q" "tables m' root = tables m root"
    "tree_ok m root \<Longrightarrow> tree_ok m' root" "page_ok v \<Longrightarrow> leaf_entry m' root v = leaf_entry m root v"
proof -
  have entry: "pte_at m' f i = pte_at m f i" if "f \<in> tables m root" "i < 512" for f i
    by (rule entry_cong [OF that(2)]) (use assms that(1) in blast)
  have tab: "tab m' root q = tab m root q" if "path_ok q" for q
  proof (rule tab_cong)
    fix r i s f assume "q = r @ i # s" "tab m root r = Some f"
    moreover from this that have "path_ok r" "i < 512" by (auto simp: path_ok_def)
    ultimately show "pte_at m' f i = pte_at m f i" using entry tables_tab by blast
  qed
  then show "path_ok q \<Longrightarrow> tab m' root q = tab m root q" .
  show tabs: "tables m' root = tables m root" using tab by (auto simp: tables_def)
  show "tree_ok m' root" if ok: "tree_ok m root"
  proof -
    have "unat (pte_at m' f i) div 2 ^ 54 = 0"
      if "path_ok (r @ [i])" "tab m' root r = Some f" "pte_link (pte_at m' f i)" for r i f
    proof -
      have r: "path_ok r" "i < 512" "tab m root r = Some f" using that tab path_ok_snoc [OF that(1)] by simp_all
      then have "pte_at m' f i = pte_at m f i" using entry tables_tab by blast
      then show ?thesis using tree_clean [OF ok that(1) r(3)] that(3) by simp
    qed
    then show ?thesis using ok tab unfolding tree_ok_def by (metis (no_types, lifting))
  qed
  show "leaf_entry m' root v = leaf_entry m root v" if v: "page_ok v"
  proof -
    obtain a b c where abc: "v = (a, b, c)" "a < 512" "b < 512" "c < 512" using v by (cases v) (auto simp: page_ok_def)
    then have "path_ok [a, b]" by simp
    from tab [OF this] show ?thesis unfolding leaf_entry_def abc(1) prod.case
      by (auto split: option.split intro!: entry [OF tables_tab [OF \<open>path_ok [a, b]\<close>] abc(4)])
  qed
qed

lemma leaf_write:
  assumes ok: "tree_ok m root" and ab: "a < 512" "b < 512" "k < 512" and f: "tab m root [a, b] = Some f"
  shows "path_ok q \<Longrightarrow> tab (set_entry m f k w) root q = tab m root q"
    "tables (set_entry m f k w) root = tables m root" "tree_ok (set_entry m f k w) root"
    "page_ok v \<Longrightarrow> leaf_entry (set_entry m f k w) root v = (if v = (a, b, k) then w else leaf_entry m root v)"
proof -
  let ?m = "set_entry m f k w"
  have path: "path_ok [a, b]" using ab by simp
  have entry: "pte_at ?m h i = pte_at m h i" if "tab m root r = Some h" "path_ok r" "length r < 2" "i < 512" for r h i
  proof -
    have "h \<noteq> f" using tree_inj [OF ok that(2) path that(1)] f that(3) by auto
    then show ?thesis using entry_set_entry [OF ab(3) that(4)] by simp
  qed
  have tab: "tab ?m root q = tab m root q" if "path_ok q" for q
  proof (rule tab_cong)
    fix r i s h assume "q = r @ i # s" "tab m root r = Some h"
    moreover from this that have "path_ok r" "i < 512" "length r < 2" by (auto simp: path_ok_def)
    ultimately show "pte_at ?m h i = pte_at m h i" using entry by blast
  qed
  then show "path_ok q \<Longrightarrow> tab ?m root q = tab m root q" .
  show "tables ?m root = tables m root" using tab by (auto simp: tables_def)
  have "unat (pte_at ?m h i) div 2 ^ 54 = 0"
    if "path_ok (r @ [i])" "tab ?m root r = Some h" "pte_link (pte_at ?m h i)" for r i h
    using that tab entry tree_clean [OF ok that(1)] path_ok_snoc [OF that(1)] by simp
  then show "tree_ok ?m root" using ok tab unfolding tree_ok_def by (metis (no_types, lifting))
  show "leaf_entry ?m root v = (if v = (a, b, k) then w else leaf_entry m root v)" if v: "page_ok v"
  proof -
    obtain a' b' c where abc: "v = (a', b', c)" "a' < 512" "b' < 512" "c < 512" using v by (cases v) (auto simp: page_ok_def)
    then have p: "path_ok [a', b']" by simp
    show ?thesis
    proof (cases "tab m root [a', b']")
      case None
      then have "(a', b') \<noteq> (a, b)" using f by auto
      then show ?thesis using tab [OF p] None unfolding leaf_entry_def abc(1) by auto
    next
      case (Some h)
      have "h = f \<longleftrightarrow> [a', b'] = [a, b]" using tree_inj [OF ok p path Some] f Some by auto
      then show ?thesis using tab [OF p] Some entry_set_entry [OF ab(3) abc(4)] unfolding leaf_entry_def abc(1) by auto
    qed
  qed
qed

text \<open>A leaf of the tree is what the processor finds.\<close>

lemma translate_leaf:
  assumes "tree_ok m root" "satp_root satp = Some root" "canonical a"
    and "leaf_permits k (leaf_entry m root (page_of_address a))"
  shows "translate m satp k a = Some (pte_ppn (leaf_entry m root (page_of_address a)) * 4096 + a mod 4096)"
proof -
  have nz: "leaf_entry m root (page_of_address a) \<noteq> 0" using assms(4) by (auto simp: leaf_permits_def)
  then obtain f where f: "tab m root [vpn 2 a, vpn 1 a] = Some f" "leaf_entry m root (page_of_address a) = pte_at m f (vpn 0 a)"
    unfolding leaf_entry_def page_of_address_def prod.case by (cases "tab m root [vpn 2 a, vpn 1 a]") auto
  from f(1) obtain g where g: "child m root (vpn 2 a) = Some g" "child m g (vpn 1 a) = Some f"
    by (auto split: option.splits)
  have "link_to (pte_at m root (vpn 2 a)) g"
    using g(1) tree_clean [OF assms(1), of "[]" "vpn 2 a" root] by (auto simp: link_to_def child_def Let_def split: if_splits)
  moreover have "link_to (pte_at m g (vpn 1 a)) f"
    using g tree_clean [OF assms(1), of "[vpn 2 a]" "vpn 1 a" g] by (auto simp: link_to_def child_def Let_def split: if_splits)
  ultimately have "walk m k a 2 root = Some (pte_ppn (pte_at m f (vpn 0 a)) * 4096 + a mod 4096)"
    using walk_page assms(4) f(2) by simp
  then show ?thesis using assms(2,3) f(2) by (simp add: translate_def)
qed

end
