(* ===== verification/Page_Map.thy ===== *)
theory Page_Map
  imports Page_Tree
begin

text \<open>
  Mapping of pages.  The trait \<open>FrameAccess\<close> is the locale \<open>table_access\<close>: reading, writing
  and zeroing through a window are accesses to physical memory that keep the window usable.  Both
  windows satisfy it.  Over it and a frame allocator, the locale \<open>page_tables\<close> proves what
  \<open>next_table\<close> and \<open>map_page\<close> do to the tree of tables.
\<close>

section \<open>The contract of frame access\<close>

locale table_access =
  fixes access :: frame_access and ok :: "machine \<Rightarrow> bool" and guards :: "machine \<Rightarrow> nat set" and slot_at :: nat
  assumes read_law: "\<lbrakk>ok m; frame_ok fr; representable (frame_no fr); unat i < 512; cell (frame_no fr) (unat i) \<noteq> slot_at\<rbrakk>
      \<Longrightarrow> read_page_table_entry access fr i m = (Ok (pte_at (mc_mem m) (frame_no fr) (unat i)), m)"
    and write_law: "\<lbrakk>ok m; frame_ok fr; representable (frame_no fr); unat i < 512; cell (frame_no fr) (unat i) \<noteq> slot_at;
        cell (frame_no fr) (unat i) \<notin> guards m\<rbrakk>
      \<Longrightarrow> write_page_table_entry access fr i w m = (Ok (), upd_mem (\<lambda>mm. set_entry mm (frame_no fr) (unat i) w) m)"
    and zero_law: "\<lbrakk>ok m; frame_ok (af_frame a); representable (frame_no (af_frame a));
        \<forall>c\<in>insert slot_at (guards m). c div 4096 \<noteq> frame_no (af_frame a)\<rbrakk>
      \<Longrightarrow> zero_frame access a m = (Ok (), upd_mem (\<lambda>mm. clear_frame mm (frame_no (af_frame a))) m)"
    and zero_refused: "\<lbrakk>ok m; frame_ok (af_frame a); \<not> representable (frame_no (af_frame a))\<rbrakk>
      \<Longrightarrow> zero_frame access a m = (Err (PhysicalAddressNotRepresentable (pf_start_address (af_frame a))), m)"
    and keep_law: "\<lbrakk>ok m; mc_satp m' = mc_satp m; \<forall>c\<in>insert slot_at (guards m). load64 (mc_mem m') c = load64 (mc_mem m) c\<rbrakk>
      \<Longrightarrow> ok m' \<and> guards m' = guards m"
    and guard_law: "\<lbrakk>ok m; c \<in> guards m\<rbrakk> \<Longrightarrow> \<exists>f i. c = cell f i \<and> i < 512 \<and> load64 (mc_mem m) c \<noteq> 0"
    and slot_law: "\<exists>f i. slot_at = cell f i \<and> i < 512"
begin

text \<open>Writing an empty entry, other than the slot, keeps the window usable; so does clearing a frame clear of it.\<close>

lemma watched_cell: "ok m \<Longrightarrow> c \<in> insert slot_at (guards m) \<Longrightarrow> \<exists>f i. c = cell f i \<and> i < 512"
  using guard_law [of m c] slot_law by auto

lemma keep_write:
  assumes "ok m" "i < 512" "cell f i \<noteq> slot_at" "pte_at (mc_mem m) f i = 0"
  shows "cell f i \<notin> guards m" "ok (upd_mem (\<lambda>mm. set_entry mm f i w) m)"
    "guards (upd_mem (\<lambda>mm. set_entry mm f i w) m) = guards m"
proof -
  show free: "cell f i \<notin> guards m" using guard_law [OF assms(1)] assms(4) by auto
  have "load64 (set_entry (mc_mem m) f i w) c = load64 (mc_mem m) c" if c: "c \<in> insert slot_at (guards m)" for c
  proof -
    obtain g j where "c = cell g j" "j < 512" using watched_cell [OF assms(1) c] by blast
    moreover have "c \<noteq> cell f i" using c free assms(3) by auto
    ultimately show ?thesis using assms(2) by (auto simp: entry_set_entry)
  qed
  then have "ok (upd_mem (\<lambda>mm. set_entry mm f i w) m) \<and> guards (upd_mem (\<lambda>mm. set_entry mm f i w) m) = guards m"
    by (intro keep_law [OF assms(1)]) simp_all
  then show "ok (upd_mem (\<lambda>mm. set_entry mm f i w) m)" "guards (upd_mem (\<lambda>mm. set_entry mm f i w) m) = guards m" by simp_all
qed

lemma keep_frame:
  assumes "ok m" "\<forall>c\<in>insert slot_at (guards m). c div 4096 \<noteq> f" "\<And>x. x div 4096 \<noteq> f \<Longrightarrow> h (mc_mem m) x = mc_mem m x"
  shows "ok (upd_mem h m)" "guards (upd_mem h m) = guards m"
proof -
  have "load64 (h (mc_mem m)) c = load64 (mc_mem m) c" if c: "c \<in> insert slot_at (guards m)" for c
  proof -
    obtain g j where g: "c = cell g j" "j < 512" using watched_cell [OF assms(1) c] by blast
    then have "g \<noteq> f" using assms(2) c by auto
    then show ?thesis unfolding g(1) using assms(3) by (intro entry_cong [OF g(2)]) auto
  qed
  then have "ok (upd_mem h m) \<and> guards (upd_mem h m) = guards m" by (intro keep_law [OF assms(1)]) simp_all
  then show "ok (upd_mem h m)" "guards (upd_mem h m) = guards m" by simp_all
qed

end

text \<open>Both windows keep the contract.\<close>

interpretation window: table_access access "access_ok access" "guard access" "slot access" for access
proof
  fix m :: machine and a :: AllocatedFrame
  assume "access_ok access m" "frame_ok (af_frame a)" "\<not> representable (frame_no (af_frame a))"
  then show "zero_frame access a m = (Err (PhysicalAddressNotRepresentable (pf_start_address (af_frame a))), m)"
    by (simp add: zero_frame_def with_frame_unrepresentable)
next
  fix m m' :: machine assume a: "access_ok access m" "mc_satp m' = mc_satp m"
    "\<forall>c\<in>insert (slot access) (guard access m). load64 (mc_mem m') c = load64 (mc_mem m) c"
  then have "guarded access m m'" by (simp add: guarded_def)
  moreover have "load64 (mc_mem m') (slot access) = 0" using a access_ok_slot by simp
  ultimately show "access_ok access m' \<and> guard access m' = guard access m"
    using access_ok_guarded [OF a(1)] guarded_guard by blast
next
  fix m :: machine and c :: nat assume "access_ok access m" "c \<in> guard access m"
  then show "\<exists>f i. c = cell f i \<and> i < 512 \<and> load64 (mc_mem m) c \<noteq> 0" by (metis guard_cases)
next
  show "\<exists>f i. slot access = cell f i \<and> i < 512" by (metis slot_cell)
qed (simp_all add: read_page_table_entry_eq write_page_table_entry_eq zero_frame_eq clear_of_def)

section \<open>Growing the tree\<close>

definition leaf_flags :: "PagePermissions \<Rightarrow> PagePrivilege \<Rightarrow> kusize" where
  "leaf_flags permissions privilege = (
     let flags = PTE_VALID OR PTE_ACCESSED OR permission_bits permissions;
         flags = (if privilege = User then flags OR PTE_USER else flags) in
     if permission_bits permissions AND PTE_WRITE \<noteq> 0 then flags OR PTE_DIRTY else flags)"

lemma link_pte: "representable g \<Longrightarrow> link_to (mk_pte g PTE_VALID) g"
  using pte_ppn_mk_pte [of g PTE_VALID] bit_mk_pte [of _ g PTE_VALID]
  by (simp add: link_to_def pte_link_def PTE_VALID_def bit_1_iff)

definition same_leaves :: "nat \<Rightarrow> machine \<Rightarrow> machine \<Rightarrow> bool" where
  "same_leaves root m m' \<longleftrightarrow> (\<forall>v. page_ok v \<longrightarrow> leaf_entry (mc_mem m') root v = leaf_entry (mc_mem m) root v)"

lemma same_leaves_trans: "same_leaves root m m1 \<Longrightarrow> same_leaves root m1 m2 \<Longrightarrow> same_leaves root m m2"
  by (simp add: same_leaves_def)

text \<open>The address checks of \<open>map_page\<close>.\<close>

definition mappable :: "VirtAddr \<Rightarrow> bool" where
  "mappable a \<longleftrightarrow> va a mod 4096 = 0 \<and> canonical (va a)"

lemma mappable_checks:
  "mappable a \<longleftrightarrow> va_as_usize a AND PAGE_MASK = 0 \<and>
     \<not> (SV39_LOW_HALF_END \<le> va_as_usize a \<and> va_as_usize a < SV39_HIGH_HALF_BASE)"
proof -
  have mask: "PAGE_MASK = mask 12" by (simp add: PAGE_MASK_def mask_eq_decr_exp)
  have "va_as_usize a AND PAGE_MASK = 0 \<longleftrightarrow> va a mod 4096 = 0" unfolding mask and_mask_0 by simp
  then show ?thesis
    by (auto simp: mappable_def canonical_def SV39_LOW_HALF_END_def SV39_HIGH_HALF_BASE_def word_le_nat_alt word_less_nat_alt)
qed

text \<open>
  The effect on the leaves: on success exactly one empty leaf is filled, on failure none.
\<close>

definition maps_leaf :: "nat \<Rightarrow> page \<Rightarrow> kusize \<Rightarrow> machine \<Rightarrow> machine \<Rightarrow> bool" where
  "maps_leaf root v e m m' \<longleftrightarrow> leaf_entry (mc_mem m) root v = 0 \<and>
     (\<forall>w. page_ok w \<longrightarrow> leaf_entry (mc_mem m') root w = (if w = v then e else leaf_entry (mc_mem m) root w))"

lemma maps_leaf_here: "maps_leaf root (page_of_address x) e m m' \<Longrightarrow> leaf_entry (mc_mem m') root (page_of_address x) = e"
  unfolding maps_leaf_def using page_ok_address by metis

lemma same_leaves_at:
  "same_leaves root m m' \<Longrightarrow> leaf_entry (mc_mem m') root (page_of_address x) = leaf_entry (mc_mem m) root (page_of_address x)"
  unfolding same_leaves_def using page_ok_address by blast

lemma maps_leaf_at:
  assumes "maps_leaf root v e m m'"
  shows "leaf_entry (mc_mem m) root v = 0"
    "leaf_entry (mc_mem m') root (page_of_address x) = (if page_of_address x = v then e else leaf_entry (mc_mem m) root (page_of_address x))"
  using assms page_ok_address [of x] unfolding maps_leaf_def by blast+

text \<open>Nothing on the way to a page is a leaf or malformed.\<close>

definition open_path :: "mem \<Rightarrow> nat \<Rightarrow> nat \<Rightarrow> bool" where
  "open_path m root a \<longleftrightarrow> pte_at m root (vpn 2 a) = 0 \<or>
     (\<exists>l1. child m root (vpn 2 a) = Some l1 \<and> (pte_at m l1 (vpn 1 a) = 0 \<or> pte_link (pte_at m l1 (vpn 1 a))))"

lemma maps_leaf_after: "same_leaves root m m1 \<Longrightarrow> maps_leaf root v e m1 m' \<Longrightarrow> page_ok v \<Longrightarrow> maps_leaf root v e m m'"
  unfolding maps_leaf_def same_leaves_def by metis

locale page_tables = table_access access ok guards slot_at + frame_allocator allocate finv free
  for access ok guards slot_at and allocate :: "'s frames" and finv :: "'s \<Rightarrow> bool" and free :: "'s \<Rightarrow> nat list"
begin

text \<open>
  \<open>mapper\<close>: the window is usable, the tables form a tree, the frames still to be allocated are
  neither tables nor frames the window depends on, and the slot is no entry of an upper table.
\<close>

definition slot_placed :: "mem \<Rightarrow> nat \<Rightarrow> bool" where
  "slot_placed m root \<longleftrightarrow> (slot_at div 4096 \<in> tables m root \<longrightarrow>
     (\<exists>i j k f. i < 512 \<and> j < 512 \<and> k < 512 \<and> tab m root [i, j] = Some f \<and> slot_at = cell f k))"

definition mapper :: "nat \<Rightarrow> machine \<times> 's \<Rightarrow> bool" where
  "mapper root ms \<longleftrightarrow> (case ms of (m, s) \<Rightarrow>
     ok m \<and> finv s \<and> tree_ok (mc_mem m) root \<and>
     (\<forall>g\<in>set (free s). g \<notin> tables (mc_mem m) root \<and> (\<forall>c\<in>insert slot_at (guards m). c div 4096 \<noteq> g)) \<and> slot_placed (mc_mem m) root)"

text \<open>
  \<open>grows\<close>: what every operation keeps.  Tables stay where they are, frames only leave the
  allocator, and memory changes only in tables and in frames that left the allocator.
\<close>

definition grows :: "nat \<Rightarrow> machine \<times> 's \<Rightarrow> machine \<times> 's \<Rightarrow> bool" where
  "grows root ms ms' \<longleftrightarrow> (case ms of (m, s) \<Rightarrow> case ms' of (m', s') \<Rightarrow>
     mapper root (m', s') \<and> mc_satp m' = mc_satp m \<and> guards m' = guards m \<and>
     (\<forall>q h. path_ok q \<longrightarrow> tab (mc_mem m) root q = Some h \<longrightarrow> tab (mc_mem m') root q = Some h) \<and>
     set (free s') \<subseteq> set (free s) \<and>
     tables (mc_mem m') root \<subseteq> tables (mc_mem m) root \<union> (set (free s) - set (free s')) \<and>
     (\<forall>x. x div 4096 \<notin> tables (mc_mem m') root \<longrightarrow> x div 4096 \<notin> set (free s) - set (free s') \<longrightarrow>
        mc_mem m' x = mc_mem m x))"

lemma slot_placed_keep:
  assumes "slot_placed m root" "\<And>q h. path_ok q \<Longrightarrow> tab m root q = Some h \<Longrightarrow> tab m' root q = Some h"
    and "slot_at div 4096 \<in> tables m' root \<Longrightarrow> slot_at div 4096 \<in> tables m root"
  shows "slot_placed m' root"
  unfolding slot_placed_def
proof
  assume "slot_at div 4096 \<in> tables m' root"
  then obtain a b k h where h: "a < 512" "b < 512" "k < 512" "tab m root [a, b] = Some h" "slot_at = cell h k"
    using assms(1,3) by (auto simp: slot_placed_def)
  moreover have "tab m' root [a, b] = Some h" by (rule assms(2)) (use h in simp_all)
  ultimately show "\<exists>i j k f. i < 512 \<and> j < 512 \<and> k < 512 \<and> tab m' root [i, j] = Some f \<and> slot_at = cell f k" by blast
qed

lemma grows_mapper: "grows root ms ms' \<Longrightarrow> mapper root ms'"
  by (simp add: grows_def split: prod.splits)

lemma grows_refl: "mapper root ms \<Longrightarrow> grows root ms ms"
  by (cases ms) (simp add: grows_def)

lemma grows_trans:
  assumes "grows root (m, s) (m1, s1)" "grows root (m1, s1) (m2, s2)"
  shows "grows root (m, s) (m2, s2)"
proof -
  have sub: "tables (mc_mem m1) root \<subseteq> tables (mc_mem m2) root"
    using assms(2) by (auto simp: grows_def tables_def)
  have "mc_mem m2 x = mc_mem m x"
    if x: "x div 4096 \<notin> tables (mc_mem m2) root" "x div 4096 \<notin> set (free s) - set (free s2)" for x
  proof -
    have "x div 4096 \<notin> tables (mc_mem m1) root" "x div 4096 \<notin> set (free s) - set (free s1)"
        "x div 4096 \<notin> set (free s1) - set (free s2)"
      using x sub assms by (auto simp: grows_def)
    then show ?thesis using x(1) assms by (simp add: grows_def)
  qed
  moreover have "tables (mc_mem m2) root \<subseteq> tables (mc_mem m) root \<union> (set (free s) - set (free s2))"
    using assms by (auto simp: grows_def)
  ultimately show ?thesis using assms by (auto simp: grows_def)
qed

lemma upper_not_slot:
  assumes "mapper root (m, s)" "path_ok (p @ [i])" "tab (mc_mem m) root p = Some f"
  shows "cell f i \<noteq> slot_at"
proof
  assume eq: "cell f i = slot_at"
  have i: "i < 512" "path_ok p" "length p < 2" using path_ok_snoc [OF assms(2)] by auto
  then have "slot_at div 4096 = f" using eq [symmetric] by simp
  then have "slot_at div 4096 \<in> tables (mc_mem m) root" using tables_tab [OF i(2) assms(3)] by simp
  then obtain a b k g where g: "a < 512" "b < 512" "k < 512" "tab (mc_mem m) root [a, b] = Some g" "slot_at = cell g k"
    using assms(1) by (auto simp: mapper_def slot_placed_def)
  then have "g = f" using eq i(1) by simp
  moreover have "tree_ok (mc_mem m) root" using assms(1) by (simp add: mapper_def)
  ultimately have "p = [a, b]" using tree_inj [of "mc_mem m" root p "[a, b]" f] i(2) assms(3) g by simp
  with i(3) show False by simp
qed

text \<open>A frame leaves the allocator and the machine stays as it is.\<close>

lemma grows_take:
  assumes "mapper root (m, s)" "finv s'" "set (free s') \<subseteq> set (free s)"
  shows "grows root (m, s) (m, s')"
  using assms by (auto simp: grows_def mapper_def)

lemma grows_link:
  assumes M: "mapper root (m, s)" and L: "linkable (mc_mem m) root p i f g (mk_pte g PTE_VALID)"
    and s': "finv s'" "free s = g # free s'" and m': "ok m'" "guards m' = guards m"
      "m' = upd_mem (\<lambda>mm. link_table mm f i g (mk_pte g PTE_VALID)) m"
  shows "grows root (m, s) (m', s') \<and> same_leaves root m m' \<and> tab (mc_mem m') root (p @ [i]) = Some g"
proof -
  have mem: "mc_mem m' = link_table (mc_mem m) f i g (mk_pte g PTE_VALID)" using m'(3) by simp
  note d = linkableD [OF L]
  have dist: "g \<notin> set (free s')" using free_distinct [of s] M s'(2) by (auto simp: mapper_def)
  have slot: "slot_at div 4096 \<noteq> g" using M s'(2) by (auto simp: mapper_def)
  have keep: "tab (mc_mem m') root q = Some h" if "path_ok q" "tab (mc_mem m) root q = Some h" for q h
    using tab_link [OF L that(1)] link_old_none [OF L] that(2) unfolding mem by auto
  have "slot_placed (mc_mem m) root" using M by (simp add: mapper_def)
  from slot_placed_keep [OF this keep] have "slot_placed (mc_mem m') root"
    using tables_link [OF L] slot unfolding mem by blast
  then have "mapper root (m', s')"
    using M m'(1,2) s' dist tree_ok_link [OF L] tables_link [OF L] unfolding mapper_def by (auto simp: mem)
  moreover have "mc_mem m' x = mc_mem m x" if "x div 4096 \<notin> tables (mc_mem m') root" for x
  proof -
    have "x div 4096 \<noteq> g" "x div 4096 \<noteq> f"
      using that tables_link [OF L] tables_tab [OF d(2,5)] unfolding mem by auto
    then show ?thesis unfolding mem link_table_def using set_entry_other [OF d(3)] by (simp add: clear_frame_apply)
  qed
  moreover have "same_leaves root m m'" unfolding same_leaves_def mem using leaf_entry_link [OF L] by blast
  moreover have "tab (mc_mem m') root (p @ [i]) = Some g"
    unfolding mem using tab_link [OF L, of "p @ [i]"] L by (simp add: linkable_def)
  moreover have "tables (mc_mem m') root \<subseteq> tables (mc_mem m) root \<union> (set (free s) - set (free s'))"
    using tables_link [OF L] dist s'(2) unfolding mem by auto
  ultimately show ?thesis unfolding grows_def using keep m' s'(2) by auto
qed

section \<open>Following and creating tables\<close>

lemma unrepresentable_entry:
  "frame_ok f \<Longrightarrow> representable (frame_no f) \<Longrightarrow> page_table_entry (pf_start_address f) w = Ok (mk_pte (frame_no f) w)"
  by (simp add: page_table_entry_frame)

lemma take_frame_cases:
  assumes "finv s"
  obtains (None) s' where "take_frame allocate (m, s) = (Ok None, (m, s'))" "finv s'" "free s = []" "free s' = []"
    | (Some) a s' where "take_frame allocate (m, s) = (Ok (Some a), (m, s'))" "finv s'"
        "free s = frame_no (af_frame a) # free s'" "frame_ok (af_frame a)"
proof (cases "free s")
  case Nil
  then obtain s' where "allocate s = Ok (None, s')" "finv s'" "free s' = []" using allocate_empty [OF assms] by blast
  then show thesis using that(1) Nil by (simp add: take_frame_def)
next
  case (Cons k ks)
  then obtain a s' where "allocate s = Ok (Some a, s')" "finv s'" "free s' = ks" "frame_ok (af_frame a)" "frame_no (af_frame a) = k"
    using allocate_next [OF assms Cons] by blast
  then show thesis using that(2) Cons by (simp add: take_frame_def)
qed

lemma next_table_spec:
  assumes M: "mapper root (m, s)" and path: "path_ok (p @ [unat i])"
    and parent: "tab (mc_mem m) root p = Some (frame_no parent)" "frame_ok parent"
    and run: "next_table access parent i allocate (m, s) = (r, m', s')"
  shows "returns r \<and> grows root (m, s) (m', s') \<and> same_leaves root m m' \<and>
    (\<forall>fr. r = Ok fr \<longrightarrow> frame_ok fr \<and> tab (mc_mem m') root (p @ [unat i]) = Some (frame_no fr)) \<and>
    (if pte_at (mc_mem m) (frame_no parent) (unat i) = 0
     then (\<forall>fr. r = Ok fr \<longrightarrow> free s = frame_no fr # free s' \<and> (\<forall>j<512. pte_at (mc_mem m') (frame_no fr) j = 0)) \<and>
       (\<forall>e. r = Err e \<longrightarrow> free s = [] \<or> \<not> representable (hd (free s)))
     else m' = m \<and> s' = s \<and> (\<forall>e. r = Err e \<longrightarrow> \<not> pte_link (pte_at (mc_mem m) (frame_no parent) (unat i))))"
proof -
  let ?f = "frame_no parent" and ?i = "unat i"
  have ok: "ok m" "finv s" "tree_ok (mc_mem m) root" using M by (simp_all add: mapper_def)
  have i: "?i < 512" "path_ok p" using path_ok_snoc [OF path] by auto
  have rep: "representable ?f" using tab_representable parent(1) ok(3) by (auto simp: tree_ok_def)
  have slot: "cell ?f ?i \<noteq> slot_at" by (rule upper_not_slot [OF M path parent(1)])
  have refl: "same_leaves root m m" by (simp add: same_leaves_def)
  define e where "e = pte_at (mc_mem m) ?f ?i"
  have read: "read_page_table_entry access parent i m = (Ok e, m)"
    using read_law [OF ok(1) parent(2) rep i(1) slot] by (simp add: e_def)
  show ?thesis
  proof (cases "e = 0")
    case False
    then have res: "r = intermediate_frame i e" "m' = m" "s' = s"
      using run read by (simp_all add: next_table_def bind_op_def on_machine_def)
    have "tab (mc_mem m) root (p @ [?i]) = Some (pte_ppn e)" if "pte_link e"
      using that parent(1) by (simp add: tab_append child_def e_def)
    then show ?thesis using res grows_refl [OF M] refl False by (auto simp: intermediate_frame_eq e_def)
  next
    case True
    from ok(2) show ?thesis
    proof (cases rule: take_frame_cases [where m = m])
      case (None s1)
      then have "r = Err OutOfPhysicalFrames" "m' = m" "s' = s1"
        using run read True by (simp_all add: next_table_def allocate_page_table_def bind_op_def on_machine_def)
      then show ?thesis using grows_take [OF M None(2)] None refl True by (simp add: e_def)
    next
      case (Some a s1)
      let ?g = "frame_no (af_frame a)"
      have g: "?g \<notin> tables (mc_mem m) root" "\<forall>c\<in>insert slot_at (guards m). c div 4096 \<noteq> ?g"
        using M Some(3) by (auto simp: mapper_def)
      show ?thesis
      proof (cases "representable ?g")
        case False
        then have "r = Err (PhysicalAddressNotRepresentable (pf_start_address (af_frame a)))" "m' = m" "s' = s1"
          using run read True Some zero_refused [OF ok(1) Some(4)]
          by (simp_all add: next_table_def allocate_page_table_def bind_op_def on_machine_def)
        then show ?thesis using grows_take [OF M Some(2)] Some(3) refl True False by (auto simp: e_def)
      next
        case rep_g: True
        define m1 where "m1 = upd_mem (\<lambda>mm. clear_frame mm ?g) m"
        have ok1: "ok m1" "guards m1 = guards m"
          unfolding m1_def using keep_frame [OF ok(1) g(2), of "\<lambda>mm. clear_frame mm ?g"] by (simp_all add: clear_frame_apply)
        have fg: "?f \<noteq> ?g" using tables_tab [OF i(2) parent(1)] g(1) by auto
        have empty: "pte_at (mc_mem m1) ?f ?i = 0"
          using True i(1) fg by (simp add: m1_def entry_clear_frame e_def)
        note kw = keep_write [OF ok1(1) i(1) slot empty]
        define m2 where "m2 = upd_mem (\<lambda>mm. set_entry mm ?f ?i (mk_pte ?g PTE_VALID)) m1"
        have "write_page_table_entry access parent i (mk_pte ?g PTE_VALID) m1 = (Ok (), m2)"
          unfolding m2_def by (rule write_law [OF ok1(1) parent(2) rep i(1) slot kw(1)])
        then have res: "r = Ok (af_frame a)" "m' = m2" "s' = s1"
          using run read True Some(1) zero_law [OF ok(1) Some(4) rep_g g(2)] unrepresentable_entry [OF Some(4) rep_g]
          by (simp_all add: next_table_def allocate_page_table_def bind_op_def on_machine_def m1_def [symmetric])
        have "linkable (mc_mem m) root p ?i ?f ?g (mk_pte ?g PTE_VALID)"
          using ok(3) path parent(1) True g(1) link_pte [OF rep_g] by (simp add: linkable_def e_def)
        moreover have "pte_at (mc_mem m2) ?g j = 0" if "j < 512" for j
          using that fg i(1) by (simp add: m2_def m1_def entry_set_entry entry_clear_frame)
        ultimately show ?thesis
          using grows_link [OF M _ Some(2,3), of p ?i ?f m2] kw(2,3) ok1(2) res Some(3,4) True
          by (simp add: m2_def m1_def link_table_def e_def)
      qed
    qed
  qed
qed

section \<open>Mapping one page\<close>

lemma write_leaf_spec:
  assumes M: "mapper root (m, s)" and l0: "tab (mc_mem m) root [a, b] = Some (frame_no fr)" "frame_ok fr"
    and idx: "a < 512" "b < 512" "unat k < 512" and slot: "cell (frame_no fr) (unat k) \<noteq> slot_at"
    and empty: "pte_at (mc_mem m) (frame_no fr) (unat k) = 0"
    and m': "m' = upd_mem (\<lambda>mm. set_entry mm (frame_no fr) (unat k) e) m"
  shows "write_page_table_entry access fr k e m = (Ok (), m')" "grows root (m, s) (m', s)"
    "maps_leaf root (a, b, unat k) e m m'"
proof -
  have ok: "ok m" "tree_ok (mc_mem m) root" using M by (simp_all add: mapper_def)
  have rep: "representable (frame_no fr)" by (rule tab_representable [OF _ l0(1)]) (use ok(2) in \<open>simp add: tree_ok_def\<close>)
  note kw = keep_write [OF ok(1) idx(3) slot empty]
  show "write_page_table_entry access fr k e m = (Ok (), m')"
    unfolding m' by (rule write_law [OF ok(1) l0(2) rep idx(3) slot kw(1)])
  note w = leaf_write [OF ok(2) idx l0(1), where w = e]
  have mem: "mc_mem m' = set_entry (mc_mem m) (frame_no fr) (unat k) e" using m' by simp
  have "slot_placed (mc_mem m) root" using M by (simp add: mapper_def)
  from slot_placed_keep [OF this, of "mc_mem m'"] have "slot_placed (mc_mem m') root"
    using w(1,2) unfolding mem by simp
  then have "mapper root (m', s)" using M kw(2,3) w(2,3) unfolding mapper_def mem by (simp add: m')
  moreover have "mc_mem m' x = mc_mem m x" if "x div 4096 \<notin> tables (mc_mem m') root" for x
  proof -
    have "frame_no fr \<in> tables (mc_mem m) root" using tables_tab [of "[a, b]"] idx l0(1) by simp
    then have "x div 4096 \<noteq> frame_no fr" using that w(2) unfolding mem by auto
    then show ?thesis unfolding mem by (rule set_entry_other [OF idx(3)])
  qed
  ultimately show "grows root (m, s) (m', s)" using w(1,2) kw(3) unfolding grows_def by (simp add: m')
  show "maps_leaf root (a, b, unat k) e m m'"
    unfolding maps_leaf_def mem using w(4) l0(1) empty by (simp add: leaf_entry_def)
qed

text \<open>The slot stays clear of the leaf cell of a page while tables are added.\<close>

lemma leaf_not_slot:
  assumes "mapper root (m, s)" "grows root (m, s) (m', s')" "tab (mc_mem m') root [vpn 2 x, vpn 1 x] = Some f"
    and "\<And>f. tab (mc_mem m) root [vpn 2 x, vpn 1 x] = Some f \<Longrightarrow> cell f (vpn 0 x) \<noteq> slot_at"
  shows "cell f (vpn 0 x) \<noteq> slot_at"
proof
  assume eq: "cell f (vpn 0 x) = slot_at"
  have path: "path_ok [vpn 2 x, vpn 1 x]" by simp
  have keep: "\<And>q h. path_ok q \<Longrightarrow> tab (mc_mem m) root q = Some h \<Longrightarrow> tab (mc_mem m') root q = Some h"
    using assms(2) by (simp add: grows_def)
  have tree: "tree_ok (mc_mem m') root" using grows_mapper [OF assms(2)] by (simp add: mapper_def)
  have at: "slot_at div 4096 = f" unfolding eq [symmetric] by simp
  show False
  proof (cases "f \<in> tables (mc_mem m) root")
    case True
    then obtain q where q: "path_ok q" "tab (mc_mem m) root q = Some f" by (auto simp: tables_def)
    then have "q = [vpn 2 x, vpn 1 x]" using tree_inj [OF tree q(1) path keep [OF q] assms(3)] by simp
    with q(2) assms(4) eq show False by blast
  next
    case False
    then have "f \<in> set (free s)" using tables_tab [OF path assms(3)] assms(2) by (auto simp: grows_def)
    then show False using assms(1) at by (auto simp: mapper_def)
  qed
qed

lemma take_two: "2 \<le> length xs \<Longrightarrow> \<forall>g\<in>set (take 2 xs). P g \<Longrightarrow> \<exists>a b ys. xs = a # b # ys \<and> P a \<and> P b"
  by (cases xs; cases "tl xs") auto

lemma map_page_spec:
  assumes M: "mapper root (m, s)" and frames: "frame_ok rf" "frame_no rf = root" "frame_ok fr"
    and slot: "\<And>f. \<lbrakk>mappable a; tab (mc_mem m) root [vpn 2 (va a), vpn 1 (va a)] = Some f\<rbrakk> \<Longrightarrow> cell f (vpn 0 (va a)) \<noteq> slot_at"
    and run: "map_page rf access a fr perms priv allocate (m, s) = (r, m', s')"
  shows "returns r \<and> grows root (m, s) (m', s') \<and>
    (r = Ok () \<longrightarrow> mappable a \<and> representable (frame_no fr) \<and>
       maps_leaf root (page_of_address (va a)) (mk_pte (frame_no fr) (leaf_flags perms priv)) m m') \<and>
    (r \<noteq> Ok () \<longrightarrow> same_leaves root m m' \<and>
       (mappable a \<and> representable (frame_no fr) \<and> open_path (mc_mem m) root (va a) \<and>
        2 \<le> length (free s) \<and> (\<forall>g\<in>set (take 2 (free s)). representable g) \<longrightarrow>
        leaf_entry (mc_mem m) root (page_of_address (va a)) \<noteq> 0))"
proof (cases "mappable a \<and> representable (frame_no fr)")
  case False
  then have "\<exists>err. r = Err err" "m' = m" "s' = s"
    using run mappable_checks [of a] by (auto simp: map_page_def bind_op_def page_table_entry_frame [OF frames(3)] Let_def split: if_splits)
  then show ?thesis using grows_refl [OF M] False by (auto simp: same_leaves_def)
next
  case True
  let ?v2 = "drop_bit 30 (va_as_usize a) AND VPN_MASK" and ?v1 = "drop_bit 21 (va_as_usize a) AND VPN_MASK"
  let ?v0 = "drop_bit 12 (va_as_usize a) AND VPN_MASK" and ?e = "mk_pte (frame_no fr) (leaf_flags perms priv)"
  have un: "unat ?v2 = vpn 2 (va a)" "unat ?v1 = vpn 1 (va a)" "unat ?v0 = vpn 0 (va a)" by (rule unat_vpn)+
  have body: "map_page rf access a fr perms priv allocate (m, s) =
     bind_op (next_table access rf ?v2 allocate) (\<lambda>level_1.
     bind_op (next_table access level_1 ?v1 allocate) (\<lambda>level_0.
     bind_op (on_machine (read_page_table_entry access level_0 ?v0)) (\<lambda>existing.
     if existing \<noteq> 0 then err_op (PageAlreadyMapped (va_as_usize a) existing) else
     on_machine (write_page_table_entry access level_0 ?v0 ?e)))) (m, s)"
    using True mappable_checks [of a] unrepresentable_entry [OF frames(3)]
    unfolding map_page_def Let_def leaf_flags_def by (auto simp: bind_op_def [where m = "lift_op _"])
  obtain r1 m1 s1 where n1: "next_table access rf ?v2 allocate (m, s) = (r1, m1, s1)" by (metis surj_pair)
  have t2: "tab (mc_mem m) root [] = Some (frame_no rf)" using frames(2) by simp
  note S1 = next_table_spec [OF M _ t2 frames(1) n1, simplified, unfolded un, simplified]
  then consider (Ok) l1 where "r1 = Ok l1" | (Err) e1 where "r1 = Err e1" by (auto elim: returnsE)
  then show ?thesis
  proof cases
    case (Err e1)
    then have res: "r = Err e1" "m' = m1" "s' = s1" using run body n1 by (simp_all add: bind_op_def)
    have "\<not> (open_path (mc_mem m) root (va a) \<and> 2 \<le> length (free s) \<and> (\<forall>g\<in>set (take 2 (free s)). representable g))"
    proof
      assume A: "open_path (mc_mem m) root (va a) \<and> 2 \<le> length (free s) \<and> (\<forall>g\<in>set (take 2 (free s)). representable g)"
      then show False
        using S1 Err take_two [of "free s" representable] frames(2)
        by (cases "pte_at (mc_mem m) root (vpn 2 (va a)) = 0") (auto simp: open_path_def child_def Let_def split: if_splits)
    qed
    then show ?thesis using res S1 by auto
  next
    case l1: (Ok l1)
    have M1: "mapper root (m1, s1)" using S1 grows_mapper by blast
    obtain r2 m2 s2 where n2: "next_table access l1 ?v1 allocate (m1, s1) = (r2, m2, s2)" by (metis surj_pair)
    have t1: "tab (mc_mem m1) root [vpn 2 (va a)] = Some (frame_no l1)" "frame_ok l1" using S1 l1 by auto
    note S2 = next_table_spec [OF M1 _ t1 n2, simplified, unfolded un, simplified]
    have G2: "grows root (m, s) (m2, s2)" "same_leaves root m m2"
      using grows_trans [of root m s m1 s1 m2 s2] same_leaves_trans S1 S2 by blast+
    from S2 consider (Ok) l0 where "r2 = Ok l0" | (Err) e2 where "r2 = Err e2" by (auto elim: returnsE)
    then show ?thesis
    proof cases
      case (Err e2)
      then have res: "r = Err e2" "m' = m2" "s' = s2" using run body n1 n2 l1 by (simp_all add: bind_op_def)
      have "\<not> (open_path (mc_mem m) root (va a) \<and> 2 \<le> length (free s) \<and> (\<forall>g\<in>set (take 2 (free s)). representable g))"
      proof
        assume A: "open_path (mc_mem m) root (va a) \<and> 2 \<le> length (free s) \<and> (\<forall>g\<in>set (take 2 (free s)). representable g)"
        then obtain g h gs where fs: "free s = g # h # gs" "representable g" "representable h"
          using take_two [of "free s" representable] by blast
        show False
        proof (cases "pte_at (mc_mem m) root (vpn 2 (va a)) = 0")
          case True
          then have "free s1 = h # gs" "pte_at (mc_mem m1) (frame_no l1) (vpn 1 (va a)) = 0"
            using S1 l1 frames(2) fs(1) by auto
          then show False using S2 Err fs(3) by auto
        next
          case False
          then have "m1 = m" "s1 = s" using S1 frames(2) by auto
          moreover from this have "child (mc_mem m) root (vpn 2 (va a)) = Some (frame_no l1)"
            using t1(1) by (auto split: option.splits)
          ultimately show False using A S2 Err fs False by (auto simp: open_path_def split: if_splits)
        qed
      qed
      then show ?thesis using res G2 by auto
    next
      case l0: (Ok l0)
      have M2: "mapper root (m2, s2)" using S2 grows_mapper by blast
      have t0: "tab (mc_mem m2) root [vpn 2 (va a), vpn 1 (va a)] = Some (frame_no l0)" "frame_ok l0"
        using S2 l0 by (auto simp del: One_nat_def)
      have ok2: "ok m2" "representable (frame_no l0)"
        using M2 tab_representable [OF _ t0(1)] by (auto simp: mapper_def tree_ok_def)
      have sl: "cell (frame_no l0) (vpn 0 (va a)) \<noteq> slot_at"
        by (rule leaf_not_slot [OF M G2(1) t0(1) slot]) (use True in simp_all)
      note rd = read_law [OF ok2(1) t0(2) ok2(2), of ?v0, unfolded un, OF vpn_lt sl]
      have leaf: "leaf_entry (mc_mem m2) root (page_of_address (va a)) = pte_at (mc_mem m2) (frame_no l0) (vpn 0 (va a))"
        unfolding leaf_entry_def page_of_address_def prod.case t0(1) by simp
      show ?thesis
      proof (cases "pte_at (mc_mem m2) (frame_no l0) (vpn 0 (va a)) = 0")
        case False
        then have "r = Err (PageAlreadyMapped (va_as_usize a) (pte_at (mc_mem m2) (frame_no l0) (vpn 0 (va a))))" "m' = m2" "s' = s2"
          using run body n1 n2 l1 l0 rd by (auto simp: bind_op_def on_machine_def)
        then show ?thesis using G2 False leaf same_leaves_at [OF G2(2), of "va a"] by simp
      next
        case empty: True
        note W = write_leaf_spec [OF M2 t0 vpn_lt vpn_lt, of ?v0, unfolded un, OF vpn_lt sl empty refl, of ?e]
        have "r = Ok ()" "(m', s') = (upd_mem (\<lambda>mm. set_entry mm (frame_no l0) (vpn 0 (va a)) ?e) m2, s2)"
          using run body n1 n2 l1 l0 rd empty W(1) by (simp_all add: bind_op_def on_machine_def)
        then show ?thesis
          using True W(2) grows_trans [OF G2(1)] maps_leaf_after [OF G2(2) W(3)] page_ok_address [of "va a"]
          unfolding page_of_address_def by auto
      qed
    qed
  qed
qed

section \<open>Taking a cleared frame\<close>

text \<open>A frame that left the allocator may be filled without disturbing tables or windows.\<close>

lemma grows_fill:
  assumes M: "mapper root (m, s)" and s': "finv s'" "free s = g # free s'"
    and h: "\<And>x. x div 4096 \<noteq> g \<Longrightarrow> h (mc_mem m) x = mc_mem m x"
  shows "grows root (m, s) (upd_mem h m, s') \<and> same_leaves root m (upd_mem h m)"
proof -
  have g: "g \<notin> tables (mc_mem m) root" "\<forall>c\<in>insert slot_at (guards m). c div 4096 \<noteq> g" "g \<notin> set (free s')"
    using M s'(2) free_distinct [of s] by (auto simp: mapper_def)
  have ok: "ok m" "tree_ok (mc_mem m) root" "slot_placed (mc_mem m) root" using M by (simp_all add: mapper_def)
  note keep = keep_frame [OF ok(1) g(2), of h, OF h]
  have "h (mc_mem m) x = mc_mem m x" if "x div 4096 \<in> tables (mc_mem m) root" for x using h that g(1) by metis
  note out = outside_tree [of "mc_mem m" root "h (mc_mem m)", OF this]
  have "slot_placed (h (mc_mem m)) root" by (rule slot_placed_keep [OF ok(3)]) (use out(1,2) in simp_all)
  then have "mapper root (upd_mem h m, s')" using M keep out(2,3) s' unfolding mapper_def by auto
  moreover have "h (mc_mem m) x = mc_mem m x" if "x div 4096 \<notin> set (free s) - set (free s')" for x
    using h [of x] that g(3) s'(2) by auto
  ultimately show ?thesis
    using keep out(1,2,4) s' g(3) unfolding grows_def same_leaves_def by auto
qed

lemma allocate_page_table_spec:
  assumes M: "mapper root (m, s)" and run: "allocate_page_table access allocate (m, s) = (r, m', s')"
  shows "returns r \<and> grows root (m, s) (m', s') \<and> same_leaves root m m' \<and>
    (\<forall>a. r = Ok a \<longrightarrow> frame_ok (af_frame a) \<and> representable (frame_no (af_frame a)) \<and>
       free s = frame_no (af_frame a) # free s' \<and> m' = upd_mem (\<lambda>mm. clear_frame mm (frame_no (af_frame a))) m) \<and>
    (\<forall>e. r = Err e \<longrightarrow> m' = m \<and> (free s = [] \<or> \<not> representable (hd (free s))))"
proof -
  have ok: "ok m" "finv s" using M by (simp_all add: mapper_def)
  from ok(2) show ?thesis
  proof (cases rule: take_frame_cases [where m = m])
    case (None s1)
    then have "r = Err OutOfPhysicalFrames" "m' = m" "s' = s1"
      using run by (simp_all add: allocate_page_table_def bind_op_def)
    then show ?thesis using grows_take [OF M None(2)] None by (simp add: same_leaves_def)
  next
    case (Some a s1)
    let ?g = "frame_no (af_frame a)"
    have g: "\<forall>c\<in>insert slot_at (guards m). c div 4096 \<noteq> ?g" using M Some(3) by (auto simp: mapper_def)
    show ?thesis
    proof (cases "representable ?g")
      case False
      then have "r = Err (PhysicalAddressNotRepresentable (pf_start_address (af_frame a)))" "m' = m" "s' = s1"
        using run Some zero_refused [OF ok(1) Some(4)] by (auto simp: allocate_page_table_def bind_op_def on_machine_def)
      then show ?thesis using grows_take [OF M Some(2)] Some(3) False by (auto simp: same_leaves_def)
    next
      case True
      then have "r = Ok a" "m' = upd_mem (\<lambda>mm. clear_frame mm ?g) m" "s' = s1"
        using run Some zero_law [OF ok(1) Some(4) True g] by (auto simp: allocate_page_table_def bind_op_def on_machine_def)
      then show ?thesis
        using grows_fill [OF M Some(2,3), of "\<lambda>mm. clear_frame mm ?g"] Some True by (simp add: clear_frame_apply)
    qed
  qed
qed

text \<open>What happens later does not touch a data frame that is neither a table nor free.\<close>

lemma grows_data:
  assumes "grows root (m, s) (m', s')" "g \<notin> tables (mc_mem m) root" "g \<notin> set (free s)" "x div 4096 = g"
  shows "mc_mem m' x = mc_mem m x" "g \<notin> tables (mc_mem m') root" "g \<notin> set (free s')"
  using assms by (auto simp: grows_def)

end

end
