(* ===== verification/Kernel_Paging.thy ===== *)
theory Kernel_Paging
  imports Page_Map
begin

text \<open>
  The kernel's own address space: \<open>BootstrapPaging::map_fdt\<close> and \<open>into_kernel\<close>, and the
  operations of \<open>KernelPaging\<close>, from \<open>kernel/src/arch/riscv64/paging.rs\<close> and
  \<open>paging/kernel.rs\<close>.  The linker symbols of \<open>kernel_sections\<close> are a record given to
  \<open>into_kernel\<close>.
\<close>

unbundle bit_operations_syntax

section \<open>Bootstrap\<close>

text \<open>The check of one leaf of the blob's window, and its installation.\<close>

definition fdt_window_check :: "bootstrap_paging \<Rightarrow> kusize \<Rightarrow> nat \<Rightarrow> (machine, unit, PagingError) op" where
  "fdt_window_check bp physical_base window_index = (
     let root_index = BOOT_FDT_WINDOW_VPN2 + word_of_nat window_index in
     bind_op (read_mapped_page_table_entry (bp_root_virtual bp) root_index) (\<lambda>existing.
     if existing \<noteq> 0 then err_op (RootEntryInUse root_index existing) else
     let physical_offset = word_of_nat window_index * GIGAPAGE_SIZE;
         physical_address = PhysAddr (physical_base + physical_offset) in
     if pa_as_usize physical_address > MAX_PHYSICAL_ADDRESS
     then err_op (PhysicalAddressNotRepresentable physical_address) else ret_op ()))"

definition fdt_window_install :: "bootstrap_paging \<Rightarrow> kusize \<Rightarrow> nat \<Rightarrow> (machine, unit, PagingError) op" where
  "fdt_window_install bp physical_base window_index = (
     let root_index = BOOT_FDT_WINDOW_VPN2 + word_of_nat window_index;
         physical_offset = word_of_nat window_index * GIGAPAGE_SIZE;
         physical_address = PhysAddr (physical_base + physical_offset) in
     bind_op (lift_op (page_table_entry physical_address BOOT_FDT_PTE_FLAGS)) (\<lambda>pte.
     write_mapped_page_table_entry (bp_root_virtual bp) root_index pte))"

definition map_fdt :: "bootstrap_paging \<Rightarrow> PhysAddr \<Rightarrow> (machine, VirtAddr, PagingError) op" where
  "map_fdt bp dtb =
     (if pa_as_usize dtb > MAX_PHYSICAL_ADDRESS then err_op (PhysicalAddressNotRepresentable dtb) else
      let physical_base = pa_as_usize dtb AND NOT GIGAPAGE_MASK in
      bind_op (for_op (fdt_window_check bp physical_base) [0..<BOOT_FDT_WINDOW_GIGAPAGES]) (\<lambda>_.
      bind_op (for_op (fdt_window_install bp physical_base) [0..<BOOT_FDT_WINDOW_GIGAPAGES]) (\<lambda>_.
      bind_op flush_all (\<lambda>_.
      ret_op (VirtAddr (BOOT_FDT_WINDOW_BASE + (pa_as_usize dtb AND GIGAPAGE_MASK)))))))"

record kernel_sections =
  ks_virtual_start :: VirtAddr
  ks_text :: "virt_range option"
  ks_rodata :: "virt_range option"
  ks_data :: "virt_range option"
  ks_bss :: "virt_range option"
  ks_stack :: "virt_range option"

definition dtb_page_mapping :: "VirtAddr \<Rightarrow> phys_range \<Rightarrow> (virt_range \<times> PhysFrame, PagingError) res" where
  "dtb_page_mapping virtual_address physical_range = (
     let invalid = InvalidDtbMapping virtual_address physical_range;
         physical_start = pa_as_usize (pr_start physical_range);
         virtual_start = va_as_usize virtual_address in
     if virtual_start AND PAGE_MASK \<noteq> physical_start AND PAGE_MASK then Err invalid else
     let sz = pa_as_usize (pr_end physical_range) - physical_start in
     bind_res (ok_or invalid (case virt_checked_add virtual_address sz of
         None \<Rightarrow> None | Some stop \<Rightarrow> virt_checked_add stop PAGE_MASK)) (\<lambda>virtual_end.
     bind_res (ok_or invalid (virt_range_new (VirtAddr (virtual_start AND NOT PAGE_MASK))
         (VirtAddr (va_as_usize virtual_end AND NOT PAGE_MASK)))) (\<lambda>virtual_range.
     bind_res (ok_or invalid (phys_frame_from_start (PhysAddr (physical_start AND NOT PAGE_MASK)))) (\<lambda>physical_frame.
     Ok (virtual_range, physical_frame)))))"

definition prepare_fixmap ::
    "PhysFrame \<Rightarrow> bootstrap_paging \<Rightarrow> 's frames \<Rightarrow> (machine \<times> 's, PhysFrame, PagingError) op" where
  "prepare_fixmap root bootstrap alloc = (
     let vpn2 = drop_bit 30 FIXMAP_TABLE_BASE AND VPN_MASK; vpn1 = drop_bit 21 FIXMAP_TABLE_BASE AND VPN_MASK in
     bind_op (next_table (ViaBootstrap bootstrap) root vpn2 alloc) (\<lambda>level_1.
     bind_op (next_table (ViaBootstrap bootstrap) level_1 vpn1 alloc) (\<lambda>level_0.
     bind_op (on_machine (read_page_table_entry (ViaBootstrap bootstrap) level_0 FIXMAP_FRAME_INDEX)) (\<lambda>existing.
     if existing \<noteq> 0 then err_op (PageAlreadyMapped FIXMAP_FRAME_BASE existing) else
     bind_op (map_page root (ViaBootstrap bootstrap) (VirtAddr FIXMAP_TABLE_BASE) level_0 ReadWrite Supervisor alloc) (\<lambda>_.
     ret_op level_0)))))"

definition section_frame :: "PhysAddr \<Rightarrow> kernel_sections \<Rightarrow> virt_range \<Rightarrow> PhysFrame option" where
  "section_frame kernel_physical_start sections rng =
     (case checked_sub (va_as_usize (vr_start rng)) (va_as_usize (ks_virtual_start sections)) of
        None \<Rightarrow> None
      | Some offset \<Rightarrow> (case phys_checked_add kernel_physical_start offset of
           None \<Rightarrow> None | Some address \<Rightarrow> phys_frame_from_start address))"

definition map_section ::
    "bootstrap_paging \<Rightarrow> PhysFrame \<Rightarrow> PhysAddr \<Rightarrow> kernel_sections \<Rightarrow> 's frames \<Rightarrow> virt_range option \<times> PagePermissions \<Rightarrow>
     (machine \<times> 's, unit, PagingError) op" where
  "map_section bootstrap root kernel_physical_start sections alloc sp =
     (case sp of (section, permissions) \<Rightarrow>
        (case section of
           None \<Rightarrow> ret_op ()
         | Some rng \<Rightarrow>
             bind_op (lift_op (ok_or (InvalidKernelSection rng) (section_frame kernel_physical_start sections rng)))
               (\<lambda>physical_start. map_range root (ViaBootstrap bootstrap) rng physical_start permissions alloc)))"

definition section_list :: "kernel_sections \<Rightarrow> (virt_range option \<times> PagePermissions) list" where
  "section_list sections =
     [(ks_text sections, ReadExecute), (ks_rodata sections, ReadOnly), (ks_data sections, ReadWrite),
      (ks_bss sections, ReadWrite), (ks_stack sections, ReadWrite)]"

definition into_kernel ::
    "bootstrap_paging \<Rightarrow> PhysAddr \<Rightarrow> kernel_sections \<Rightarrow> VirtAddr \<Rightarrow> phys_range \<Rightarrow> 's frames \<Rightarrow>
     (machine \<times> 's, kernel_paging, PagingError) op" where
  "into_kernel bootstrap kernel_physical_start sections dtb_virtual dtb_physical alloc =
     bind_op (lift_op (dtb_page_mapping dtb_virtual dtb_physical)) (\<lambda>(dtb_mapping, dtb_frame).
     bind_op (page_table_new (ViaBootstrap bootstrap) alloc) (\<lambda>root.
     bind_op (for_op (map_section bootstrap (af_frame root) kernel_physical_start sections alloc) (section_list sections)) (\<lambda>_.
     bind_op (map_range (af_frame root) (ViaBootstrap bootstrap) dtb_mapping dtb_frame ReadOnly alloc) (\<lambda>_.
     bind_op (prepare_fixmap (af_frame root) bootstrap alloc) (\<lambda>fixmap_table.
     let kernel = \<lparr>kp_root = root, kp_fixmap_table = fixmap_table, kp_dtb_mapping = dtb_mapping,
                   kp_frame_slot = FIXMAP_TABLE_BASE + 8 * FIXMAP_FRAME_INDEX, kp_heap_claimed = False\<rparr> in
     bind_op (on_machine (activate_root (af_frame (kp_root kernel)))) (\<lambda>_. ret_op kernel))))))"

section \<open>The kernel address space\<close>

definition HEAP_START :: kusize where "HEAP_START = 0xFFFFFFE000000000"
definition HEAP_END :: kusize where "HEAP_END = HEAP_START + GIGAPAGE_SIZE"
definition HEAP_RANGE :: virt_range where "HEAP_RANGE = \<lparr>vr_start = VirtAddr HEAP_START, vr_end = VirtAddr HEAP_END\<rparr>"

text \<open>The translations are flushed on success and on failure.\<close>

definition then_flush :: "(machine \<times> 's, 'a, 'e) op \<Rightarrow> (machine \<times> 's, 'a, 'e) op" where
  "then_flush f ms = (case f ms of (r, m, s) \<Rightarrow> (r, snd ((flush_all :: (machine, unit, 'e) op) m), s))"

definition map_user_page ::
    "kernel_paging \<Rightarrow> VirtAddr \<Rightarrow> AllocatedFrame \<Rightarrow> PagePermissions \<Rightarrow> 's frames \<Rightarrow> (machine \<times> 's, unit, PagingError) op" where
  "map_user_page kp virtual_address frame permissions alloc = (
     let address = va_as_usize virtual_address in
     if \<not> (PAGE_SIZE \<le> address \<and> address < SV39_LOW_HALF_END) then err_op (VirtualAddressNotUser address) else
     then_flush (map_page (af_frame (kp_root kp)) (ViaKernel kp) virtual_address (af_frame frame) permissions User alloc))"

definition install_page ::
    "kernel_paging \<Rightarrow> VirtAddr \<Rightarrow> AllocatedFrame \<Rightarrow> PagePermissions \<Rightarrow> 's frames \<Rightarrow> (machine \<times> 's, unit, PagingError) op" where
  "install_page kp virtual_address frame permissions alloc = (
     let address = va_as_usize virtual_address in
     if address < SV39_HIGH_HALF_BASE then err_op (VirtualAddressNotKernel address) else
     if address = FIXMAP_FRAME_BASE then err_op (ReservedVirtualPage address) else
     then_flush (map_page (af_frame (kp_root kp)) (ViaKernel kp) virtual_address (af_frame frame) permissions Supervisor alloc))"

definition kernel_map_page ::
    "kernel_paging \<Rightarrow> VirtAddr \<Rightarrow> AllocatedFrame \<Rightarrow> PagePermissions \<Rightarrow> 's frames \<Rightarrow> (machine \<times> 's, unit, PagingError) op" where
  "kernel_map_page kp virtual_address frame permissions alloc = (
     let address = va_as_usize virtual_address in
     if kp_heap_claimed kp \<and> HEAP_START \<le> address \<and> address < HEAP_END then err_op (ReservedVirtualPage address) else
     install_page kp virtual_address frame permissions alloc)"

definition backing_map_page :: "kernel_paging \<Rightarrow> 's frames \<Rightarrow> (machine \<times> 's, PagingError) backing" where
  "backing_map_page kp alloc address = (
     let value = va_as_usize address in
     if \<not> kp_heap_claimed kp \<or> \<not> (HEAP_START \<le> value \<and> value < HEAP_END) then err_op (ReservedVirtualPage value) else
     if value AND PAGE_MASK \<noteq> 0 then err_op (VirtualAddressNotPageAligned value) else
     bind_op (take_frame alloc) (\<lambda>x.
     case x of
       None \<Rightarrow> err_op OutOfPhysicalFrames
     | Some frame \<Rightarrow>
         bind_op (on_machine (zero_frame (ViaKernel kp) frame)) (\<lambda>_.
         install_page kp address frame ReadWrite alloc)))"

definition claim_heap ::
    "'s frames \<Rightarrow> (kernel_paging \<times> machine \<times> 's, kernel_heap, PagingError HeapError) op" where
  "claim_heap alloc st =
     (case st of (kp, m, s) \<Rightarrow>
        if kp_heap_claimed kp then (Err (Backing KernelHeapAlreadyClaimed), st) else
        let index = drop_bit 30 HEAP_START AND VPN_MASK in
        (case map_err_op Backing (read_page_table_entry (ViaKernel kp) (af_frame (kp_root kp)) index) m of
           (r, m') \<Rightarrow>
             (case r of
                Ok pte \<Rightarrow>
                  if pte \<noteq> 0 then (Err (Backing (RootEntryInUse index pte)), (kp, m', s)) else
                  let kp' = kp\<lparr>kp_heap_claimed := True\<rparr> in
                  (case heap_new HEAP_RANGE (backing_map_page kp' alloc) (m', s) of (h, ms) \<Rightarrow> (h, (kp', ms)))
              | Err e \<Rightarrow> (Err e, (kp, m', s)) | Panic \<Rightarrow> (Panic, (kp, m', s)) | Diverge \<Rightarrow> (Diverge, (kp, m', s)))))"

end
