(* ===== verification/Kernel_Space.thy ===== *)
theory Kernel_Space
  imports Kernel_Paging
begin

text \<open>
  Correctness of the operations of \<open>KernelPaging\<close>.  The locale \<open>kernel_space\<close> is the kernel's
  address space over any frame allocator; its operations keep \<open>kernel_inv\<close>, install one leaf or
  none, and back the heap as \<open>heap_backing\<close> asks.
\<close>

section \<open>Pages and addresses\<close>

lemma address_split:
  "(a :: nat) mod 2 ^ 39 = vpn 2 a * 2 ^ 30 + vpn 1 a * 2 ^ 21 + vpn 0 a * 2 ^ 12 + a mod 2 ^ 12"
proof -
  have "a mod (2 ^ 12 * 2 ^ 9) = 2 ^ 12 * (a div 2 ^ 12 mod 2 ^ 9) + a mod 2 ^ 12"
    "a mod (2 ^ 21 * 2 ^ 9) = 2 ^ 21 * (a div 2 ^ 21 mod 2 ^ 9) + a mod 2 ^ 21"
    "a mod (2 ^ 30 * 2 ^ 9) = 2 ^ 30 * (a div 2 ^ 30 mod 2 ^ 9) + a mod 2 ^ 30"
    by (rule mod_mult2_eq)+
  then show ?thesis by (simp add: vpn_def mult.commute)
qed

text \<open>Canonical aligned addresses are determined by their page.\<close>

lemma page_address_inj:
  assumes "canonical a" "canonical b" "a < 2 ^ 64" "b < 2 ^ 64" "a mod 4096 = 0" "b mod 4096 = 0"
    and "page_of_address a = page_of_address b"
  shows "a = b"
proof -
  have low: "a mod 2 ^ 39 = b mod 2 ^ 39"
    using assms(5-7) address_split [of a] address_split [of b] by (simp add: page_of_address_def)
  have norm: "c = (if c mod 2 ^ 39 < 2 ^ 38 then c mod 2 ^ 39 else c mod 2 ^ 39 + (2 ^ 64 - 2 ^ 39))"
    if "canonical c" "c < 2 ^ 64" for c :: nat
  proof (cases "c < 2 ^ 38")
    case True
    then show ?thesis by simp
  next
    case False
    then have c: "2 ^ 64 - 2 ^ 38 \<le> c" using that(1) by (simp add: canonical_def)
    define d where "d = c - (2 ^ 64 - 2 ^ 39)"
    have d: "c = d + 33554431 * 2 ^ 39" "d < 2 ^ 39" "2 ^ 38 \<le> d" using c that(2) by (simp_all add: d_def)
    have "c mod 2 ^ 39 = d" unfolding d(1) using d(2) by (simp only: mod_mult_self1) simp
    then show ?thesis using d by simp
  qed
  show ?thesis by (rule trans [OF norm [OF assms(1,3), unfolded low] norm [OF assms(2,4), symmetric]])
qed

lemma mappable_inj:
  assumes "mappable a" "mappable b" "page_of_address (va a) = page_of_address (va b)"
  shows "a = b"
proof -
  have lt: "va c < 2 ^ 64" for c using unat_kusize [of "va_as_usize c"] by simp
  have "va a = va b"
    by (rule page_address_inj [OF _ _ lt lt _ _ assms(3)]) (use assms(1,2) in \<open>simp_all only: mappable_def\<close>)
  then show ?thesis by (cases a; cases b) (simp add: word_unat_eq_iff)
qed

section \<open>Leaves\<close>

lemma leaf_flags_cases:
  "leaf_flags ReadOnly Supervisor = 67" "leaf_flags ReadWrite Supervisor = 199" "leaf_flags ReadExecute Supervisor = 75"
  "leaf_flags ReadOnly User = 83" "leaf_flags ReadWrite User = 215" "leaf_flags ReadExecute User = 91"
  by (simp_all add: leaf_flags_def permission_bits_def PTE_VALID_def PTE_ACCESSED_def PTE_READ_def PTE_WRITE_def
      PTE_EXECUTE_def PTE_DIRTY_def PTE_USER_def Let_def)

lemma leaf_flags_bound: "unat (leaf_flags p q) < 1024"
  by (cases p; cases q) (simp_all add: leaf_flags_cases)

lemma leaf_flags_bits:
  "bit (leaf_flags p q) 0" "bit (leaf_flags p q) 1" "bit (leaf_flags p q) 2 \<longleftrightarrow> p = ReadWrite"
  "bit (leaf_flags p q) 3 \<longleftrightarrow> p = ReadExecute" "bit (leaf_flags p q) 4 \<longleftrightarrow> q = User"
  "bit (leaf_flags p q) 6" "bit (leaf_flags p q) 7 \<longleftrightarrow> p = ReadWrite"
  by (cases p; cases q; simp add: leaf_flags_cases bit_numeral_rec)+

lemma leaf_pte_nonzero: "mk_pte f (leaf_flags p q) \<noteq> 0"
proof -
  have "bit (mk_pte f (leaf_flags p q)) 0" by (simp add: bit_mk_pte leaf_flags_bits)
  then show ?thesis by auto
qed

text \<open>A supervisor leaf can be read, and written exactly when it was mapped writable; a user leaf is out of reach.\<close>

lemma leaf_permits_flags:
  assumes "representable f"
  shows "leaf_permits k (mk_pte f (leaf_flags p q)) \<longleftrightarrow> q = Supervisor \<and> (k = Store \<longrightarrow> p = ReadWrite)"
    "pte_ppn (mk_pte f (leaf_flags p q)) = f"
proof -
  show "pte_ppn (mk_pte f (leaf_flags p q)) = f" by (rule pte_ppn_mk_pte(1) [OF assms leaf_flags_bound])
  have "bit (mk_pte f (leaf_flags p q)) n \<longleftrightarrow> bit (leaf_flags p q) n" if "n < 10" for n by (rule bit_mk_pte [OF that])
  then show "leaf_permits k (mk_pte f (leaf_flags p q)) \<longleftrightarrow> q = Supervisor \<and> (k = Store \<longrightarrow> p = ReadWrite)"
    using pte_ppn_mk_pte(2) [OF assms leaf_flags_bound [of p q]] leaf_flags_bits [of p q]
    unfolding leaf_permits_def by (cases q) auto
qed

section \<open>Pages of the heap\<close>

definition heap_pages :: "nat set" where
  "heap_pages = pages (unat HEAP_START) (unat HEAP_END)"

definition heap_mapped :: "mem \<Rightarrow> nat \<Rightarrow> nat set" where
  "heap_mapped m root = {a \<in> heap_pages. leaf_entry m root (page_of_address a) \<noteq> 0}"

lemma heap_bounds: "unat HEAP_START = 0xFFFFFFE000000000" "unat HEAP_END = 0xFFFFFFE040000000"
  by (simp_all add: HEAP_START_def HEAP_END_def GIGAPAGE_SIZE_def)

lemma heap_page_checks:
  assumes "va a \<in> heap_pages"
  shows "mappable a" "HEAP_START \<le> va_as_usize a \<and> va_as_usize a < HEAP_END" "va_as_usize a AND PAGE_MASK = 0"
proof -
  show m: "mappable a" using assms by (simp add: heap_pages_def pages_def page_aligned_def heap_bounds mappable_def canonical_def)
  then show "va_as_usize a AND PAGE_MASK = 0" by (simp add: mappable_checks)
  show "HEAP_START \<le> va_as_usize a \<and> va_as_usize a < HEAP_END"
    using assms by (simp add: heap_pages_def pages_def word_le_nat_alt word_less_nat_alt)
qed

lemma heap_pages_lt: "p \<in> heap_pages \<Longrightarrow> p < 2 ^ 64 \<and> canonical p \<and> p mod 4096 = 0"
  by (simp add: heap_pages_def pages_def page_aligned_def heap_bounds canonical_def)

lemma heap_mapped_leaf:
  assumes "maps_leaf root (page_of_address (va a)) (mk_pte f (leaf_flags p q)) m m'" "va a \<in> heap_pages"
  shows "heap_mapped (mc_mem m') root = insert (va a) (heap_mapped (mc_mem m) root)"
proof -
  have "b = va a" if "b \<in> heap_pages" "page_of_address b = page_of_address (va a)" for b
    using page_address_inj [of b "va a"] heap_pages_lt [OF that(1)] heap_pages_lt [OF assms(2)] that(2) by simp
  then show ?thesis
    using assms(2) leaf_pte_nonzero maps_leaf_at [OF assms(1)] by (auto simp: heap_mapped_def split: if_splits)
qed

lemma heap_mapped_same: "same_leaves root m m' \<Longrightarrow> heap_mapped (mc_mem m') root = heap_mapped (mc_mem m) root"
  by (simp add: heap_mapped_def same_leaves_at)

text \<open>
  The frames behind the heap: every mapped page is writable for the supervisor and has a frame of
  its own, which is neither a table nor available to the allocator.
\<close>

definition heap_frames :: "mem \<Rightarrow> nat \<Rightarrow> nat set \<Rightarrow> bool" where
  "heap_frames m root available \<longleftrightarrow>
     (\<forall>a\<in>heap_mapped m root. \<exists>f. leaf_entry m root (page_of_address a) = mk_pte f (leaf_flags ReadWrite Supervisor) \<and>
        representable f \<and> f \<notin> tables m root \<and> f \<notin> available) \<and>
     inj_on (\<lambda>a. leaf_entry m root (page_of_address a)) (heap_mapped m root)"

lemma heap_frames_none: "heap_mapped m root = {} \<Longrightarrow> heap_frames m root available"
  by (simp add: heap_frames_def)

section \<open>The address space\<close>

locale kernel_space =
  page_tables "ViaKernel kp" "access_ok (ViaKernel kp)" "guard (ViaKernel kp)" "slot (ViaKernel kp)" allocate finv free
  for kp :: kernel_paging and allocate :: "'s frames" and finv :: "'s \<Rightarrow> bool" and free :: "'s \<Rightarrow> nat list"
begin

definition kernel_inv :: "machine \<times> 's \<Rightarrow> bool" where
  "kernel_inv ms \<longleftrightarrow> mapper (kernel_root kp) ms \<and> frame_ok (af_frame (kp_root kp))"

lemma kernel_inv_ok: "kernel_inv (m, s) \<Longrightarrow> kernel_ok kp m \<and> tree_ok (mc_mem m) (kernel_root kp)"
  by (simp add: kernel_inv_def mapper_def access_ok_def)

lemma kernel_inv_grows: "kernel_inv ms \<Longrightarrow> grows (kernel_root kp) ms ms' \<Longrightarrow> kernel_inv ms'"
  using grows_mapper by (auto simp: kernel_inv_def)

lemma fix_path: "kernel_inv (m, s) \<Longrightarrow> tab (mc_mem m) (kernel_root kp) [509, 511] = Some (kernel_fix kp)"
  by (auto dest!: kernel_inv_ok simp: kernel_ok_def Let_def child_def link_to_def)

text \<open>Only the page of the window itself has the slot as its leaf.\<close>

lemma kernel_slot_leaf:
  assumes "kernel_inv (m, s)" "mappable a" "va_as_usize a \<noteq> FIXMAP_FRAME_BASE"
    and "tab (mc_mem m) (kernel_root kp) [vpn 2 (va a), vpn 1 (va a)] = Some f"
  shows "cell f (vpn 0 (va a)) \<noteq> slot (ViaKernel kp)"
proof
  assume "cell f (vpn 0 (va a)) = slot (ViaKernel kp)"
  then have f: "f = kernel_fix kp" "vpn 0 (va a) = 1" by (simp_all add: slot_def)
  have "[vpn 2 (va a), vpn 1 (va a)] = [509, 511]"
    by (rule tree_inj [OF conjunct2 [OF kernel_inv_ok [OF assms(1)]] _ _ assms(4)]) (use f fix_path [OF assms(1)] in simp_all)
  then have "page_of_address (va a) = page_of_address (va (VirtAddr FIXMAP_FRAME_BASE))"
    using f(2) by (simp add: page_of_address_def fixmap_addresses fixmap_vpns)
  moreover have "mappable (VirtAddr FIXMAP_FRAME_BASE)"
    by (simp add: mappable_def fixmap_addresses canonical_def)
  ultimately have "a = VirtAddr FIXMAP_FRAME_BASE" using mappable_inj [OF assms(2)] by blast
  with assms(3) show False by simp
qed

text \<open>The outcome of an operation that tries to install one leaf.\<close>

definition installs :: "VirtAddr \<Rightarrow> nat \<Rightarrow> kusize \<Rightarrow> machine \<times> 's \<Rightarrow> (unit, PagingError) res \<times> machine \<times> 's \<Rightarrow> bool" where
  "installs a f flags ms out \<longleftrightarrow> (case ms of (m, s) \<Rightarrow> case out of (r, m', s') \<Rightarrow>
     returns r \<and> grows (kernel_root kp) (m, s) (m', s') \<and>
     (r = Ok () \<longrightarrow> mappable a \<and> representable f \<and>
        maps_leaf (kernel_root kp) (page_of_address (va a)) (mk_pte f flags) m m') \<and>
     (r \<noteq> Ok () \<longrightarrow> same_leaves (kernel_root kp) m m'))"

lemma installs_refused: "kernel_inv ms \<Longrightarrow> installs a f flags ms (Err e, ms)"
  by (cases ms) (simp add: installs_def kernel_inv_def grows_refl same_leaves_def)

lemma map_page_installs:
  assumes "kernel_inv ms" "frame_ok fr" "va_as_usize a \<noteq> FIXMAP_FRAME_BASE"
  shows "installs a (frame_no fr) (leaf_flags perms priv) ms
    (map_page (af_frame (kp_root kp)) (ViaKernel kp) a fr perms priv allocate ms)"
proof (cases ms)
  case (Pair m s)
  obtain r m' s' where run: "map_page (af_frame (kp_root kp)) (ViaKernel kp) a fr perms priv allocate (m, s) = (r, m', s')"
    by (metis surj_pair)
  have inv: "mapper (kernel_root kp) (m, s)" "frame_ok (af_frame (kp_root kp))" "kernel_inv (m, s)"
    using assms(1) Pair by (simp_all add: kernel_inv_def)
  note map_page_spec [OF inv(1,2) _ assms(2) kernel_slot_leaf [OF inv(3) _ assms(3)] run]
  then show ?thesis using run Pair by (simp add: installs_def kernel_root_def)
qed

text \<open>Enough frames for the two tables a mapping may need.\<close>

definition enough :: "'s \<Rightarrow> bool" where
  "enough s \<longleftrightarrow> 2 \<le> length (free s) \<and> (\<forall>g\<in>set (take 2 (free s)). representable g)"

lemma map_page_succeeds:
  assumes "kernel_inv (m, s)" "frame_ok fr" "va_as_usize a \<noteq> FIXMAP_FRAME_BASE" "mappable a" "representable (frame_no fr)"
    and "open_path (mc_mem m) (kernel_root kp) (va a)" "enough s"
    and "leaf_entry (mc_mem m) (kernel_root kp) (page_of_address (va a)) = 0"
  shows "fst (map_page (af_frame (kp_root kp)) (ViaKernel kp) a fr perms priv allocate (m, s)) = Ok ()"
proof -
  obtain r m' s' where run: "map_page (af_frame (kp_root kp)) (ViaKernel kp) a fr perms priv allocate (m, s) = (r, m', s')"
    by (metis surj_pair)
  have inv: "mapper (kernel_root kp) (m, s)" "frame_ok (af_frame (kp_root kp))"
    using assms(1) by (simp_all add: kernel_inv_def)
  from map_page_spec [OF inv _ assms(2) kernel_slot_leaf [OF assms(1) _ assms(3)] run]
  show ?thesis using assms(4-8) run by (auto simp: enough_def kernel_root_def)
qed

lemma then_flush_eq [simp]: "then_flush f = f"
  by (rule ext) (simp add: then_flush_def flush_all_def split: prod.split)

lemma map_user_page_installs:
  assumes "kernel_inv ms" "frame_ok (af_frame fr)"
  shows "installs a (frame_no (af_frame fr)) (leaf_flags perms User) ms (map_user_page kp a fr perms allocate ms)"
proof (cases "PAGE_SIZE \<le> va_as_usize a \<and> va_as_usize a < SV39_LOW_HALF_END")
  case True
  then have "unat (va_as_usize a) < 0x4000000000" by (simp add: SV39_LOW_HALF_END_def word_less_nat_alt)
  then have "va_as_usize a \<noteq> FIXMAP_FRAME_BASE" using fixmap_addresses(2) by auto
  then show ?thesis using True map_page_installs [OF assms] by (simp add: map_user_page_def)
qed (use installs_refused [OF assms(1)] in \<open>auto simp: map_user_page_def\<close>)

lemma install_page_installs:
  assumes "kernel_inv ms" "frame_ok (af_frame fr)"
  shows "installs a (frame_no (af_frame fr)) (leaf_flags perms Supervisor) ms (install_page kp a fr perms allocate ms)"
  using map_page_installs [OF assms] installs_refused [OF assms(1)] by (auto simp: install_page_def Let_def)

lemma kernel_map_page_installs:
  assumes "kernel_inv ms" "frame_ok (af_frame fr)"
  shows "installs a (frame_no (af_frame fr)) (leaf_flags perms Supervisor) ms (kernel_map_page kp a fr perms allocate ms)"
  using install_page_installs [OF assms] installs_refused [OF assms(1)] by (auto simp: kernel_map_page_def Let_def)

section \<open>Backing the heap\<close>

text \<open>A frame that holds zeroed data: no table, not free, all bytes zero.\<close>

definition fresh_data :: "nat \<Rightarrow> machine \<times> 's \<Rightarrow> bool" where
  "fresh_data f ms \<longleftrightarrow> representable f \<and> f \<notin> tables (mc_mem (fst ms)) (kernel_root kp) \<and> f \<notin> set (free (snd ms)) \<and>
     (\<forall>x. x div 4096 = f \<longrightarrow> mc_mem (fst ms) x = 0)"

lemma backing_spec:
  assumes inv: "kernel_inv (m, s)" and a: "kp_heap_claimed kp" "va a \<in> heap_pages"
    and run: "backing_map_page kp allocate a (m, s) = (r, m', s')"
  shows "returns r \<and> grows (kernel_root kp) (m, s) (m', s') \<and>
    (r = Ok () \<longrightarrow> (\<exists>f. f \<in> set (free s) \<and> fresh_data f (m', s') \<and> mappable a \<and>
        maps_leaf (kernel_root kp) (page_of_address (va a)) (mk_pte f (leaf_flags ReadWrite Supervisor)) m m')) \<and>
    (r \<noteq> Ok () \<longrightarrow> same_leaves (kernel_root kp) m m')"
proof -
  let ?root = "kernel_root kp"
  have M: "mapper ?root (m, s)" using inv by (simp add: kernel_inv_def)
  have checks: "HEAP_START \<le> va_as_usize a \<and> va_as_usize a < HEAP_END" "va_as_usize a AND PAGE_MASK = 0"
    using heap_page_checks [OF a(2)] by auto
  have body: "backing_map_page kp allocate a (m, s) =
      bind_op (allocate_page_table (ViaKernel kp) allocate) (\<lambda>frame. install_page kp a frame ReadWrite allocate) (m, s)"
    using checks a(1) unfolding backing_map_page_def allocate_page_table_def
    by (auto simp: bind_op_def Let_def split: prod.splits res.splits option.splits)
  obtain r1 m1 s1 where n1: "allocate_page_table (ViaKernel kp) allocate (m, s) = (r1, m1, s1)" by (metis surj_pair)
  note S1 = allocate_page_table_spec [OF M n1]
  then consider (Ok) fr where "r1 = Ok fr" | (Err) e where "r1 = Err e" by (auto elim: returnsE)
  then show ?thesis
  proof cases
    case (Err e)
    then have "r = Err e" "m' = m1" "s' = s1" using run body n1 by (auto simp: bind_op_def)
    then show ?thesis using S1 by simp
  next
    case (Ok fr)
    let ?f = "frame_no (af_frame fr)"
    have fr: "frame_ok (af_frame fr)" "representable ?f" "free s = ?f # free s1" "m1 = upd_mem (\<lambda>mm. clear_frame mm ?f) m"
      using S1 Ok by auto
    have G1: "grows ?root (m, s) (m1, s1)" "same_leaves ?root m m1" using S1 by auto
    have inv1: "kernel_inv (m1, s1)" by (rule kernel_inv_grows [OF inv G1(1)])
    have "install_page kp a fr ReadWrite allocate (m1, s1) = (r, m', s')" using run body n1 Ok by (simp add: bind_op_def)
    then have I: "returns r" "grows ?root (m1, s1) (m', s')" "r \<noteq> Ok () \<Longrightarrow> same_leaves ?root m1 m'"
        "r = Ok () \<Longrightarrow> mappable a \<and> maps_leaf ?root (page_of_address (va a)) (mk_pte ?f (leaf_flags ReadWrite Supervisor)) m1 m'"
      using install_page_installs [OF inv1 fr(1), of a ReadWrite] by (auto simp: installs_def)
    have out: "?f \<notin> tables (mc_mem m1) ?root" "?f \<notin> set (free s1)"
    proof -
      have "?f \<notin> tables (mc_mem m) ?root" "distinct (free s)"
        using M fr(3) free_distinct [of s] by (simp_all add: mapper_def)
      moreover have "tables (mc_mem m1) ?root = tables (mc_mem m) ?root"
        unfolding fr(4) using calculation(1) by (simp add: clear_frame_apply, intro outside_tree(2)) (auto simp: clear_frame_apply)
      ultimately show "?f \<notin> tables (mc_mem m1) ?root" "?f \<notin> set (free s1)" using fr(3) by auto
    qed
    have "mc_mem m' x = 0" if "x div 4096 = ?f" for x
      using grows_data(1) [OF I(2) out that] that by (simp add: fr(4) clear_frame_apply)
    then have "fresh_data ?f (m', s')"
      using grows_data(2,3) [OF I(2) out, of "?f * 4096"] fr(2) by (simp add: fresh_data_def)
    moreover have "?f \<in> set (free s)" using fr(3) by simp
    ultimately show ?thesis
      using I grows_trans [OF G1(1) I(2)] same_leaves_trans [OF G1(2) I(3)] maps_leaf_after [OF G1(2)] page_ok_address by metis
  qed
qed

text \<open>With three usable frames left, a page whose path is open is backed.\<close>

lemma backing_succeeds:
  assumes inv: "kernel_inv (m, s)" and a: "kp_heap_claimed kp" "va a \<in> heap_pages"
    and free: "leaf_entry (mc_mem m) (kernel_root kp) (page_of_address (va a)) = 0" "pte_at (mc_mem m) (kernel_root kp) (vpn 2 (va a)) = 0"
    and frames: "3 \<le> length (free s)" "\<forall>g\<in>set (take 3 (free s)). representable g"
  shows "fst (backing_map_page kp allocate a (m, s)) = Ok ()"
proof -
  let ?root = "kernel_root kp"
  have M: "mapper ?root (m, s)" using inv by (simp add: kernel_inv_def)
  obtain f1 f2 f3 fs where fs: "free s = f1 # f2 # f3 # fs"
    using frames(1) by (metis Suc_le_length_iff numeral_3_eq_3)
  obtain r1 m1 s1 where n1: "allocate_page_table (ViaKernel kp) allocate (m, s) = (r1, m1, s1)" by (rule prod_cases3)
  note S1 = allocate_page_table_spec [OF M n1]
  have "\<not> (\<exists>e. r1 = Err e)" using S1 fs frames(2) by auto
  then obtain fr where Ok: "r1 = Ok fr" using S1 by (metis returnsE)
  let ?f = "frame_no (af_frame fr)"
  have fr: "frame_ok (af_frame fr)" "representable ?f" "free s = ?f # free s1" "m1 = upd_mem (\<lambda>mm. clear_frame mm ?f) m"
    using S1 Ok by auto
  have inv1: "kernel_inv (m1, s1)" using kernel_inv_grows [OF inv] S1 by blast
  have "?f \<notin> tables (mc_mem m) ?root" using M fr(3) by (simp add: mapper_def)
  then have "?root \<noteq> ?f" using tables_root [of ?root "mc_mem m"] by auto
  then have e1: "pte_at (mc_mem m1) ?root (vpn 2 (va a)) = 0" using free(2) fr(4) by (simp add: entry_clear_frame)
  have "same_leaves ?root m m1" using S1 by blast
  from same_leaves_at [OF this] have l1: "leaf_entry (mc_mem m1) ?root (page_of_address (va a)) = 0" using free(1) by simp
  have "free s1 = f2 # f3 # fs" using fr(3) fs by simp
  then have en: "enough s1" using fs frames(2) by (simp add: enough_def)
  have hp: "mappable a" "HEAP_START \<le> va_as_usize a \<and> va_as_usize a < HEAP_END" "va_as_usize a AND PAGE_MASK = 0"
    using heap_page_checks [OF a(2)] by auto
  have high: "\<not> va_as_usize a < SV39_HIGH_HALF_BASE" "va_as_usize a \<noteq> FIXMAP_FRAME_BASE"
    using hp(2) fixmap_addresses(2) heap_bounds by (auto simp: SV39_HIGH_HALF_BASE_def HEAP_START_def word_less_nat_alt word_le_nat_alt)
  have "fst (map_page (af_frame (kp_root kp)) (ViaKernel kp) a (af_frame fr) ReadWrite Supervisor allocate (m1, s1)) = Ok ()"
    by (rule map_page_succeeds [OF inv1 fr(1) high(2) hp(1) fr(2) _ en l1]) (simp add: open_path_def e1)
  then have "fst (install_page kp a fr ReadWrite allocate (m1, s1)) = Ok ()" using high by (simp add: install_page_def Let_def)
  moreover have "backing_map_page kp allocate a (m, s) =
      bind_op (allocate_page_table (ViaKernel kp) allocate) (\<lambda>frame. install_page kp a frame ReadWrite allocate) (m, s)"
    using hp(2,3) a(1) unfolding backing_map_page_def allocate_page_table_def
    by (auto simp: bind_op_def Let_def split: prod.splits res.splits option.splits)
  ultimately show ?thesis using n1 Ok by (simp add: bind_op_def)
qed

text \<open>The frames of the heap stay what they are when its leaves do, and a fresh frame joins them.\<close>

lemma heap_frames_keep:
  assumes "heap_frames (mc_mem m) (kernel_root kp) (set (free s))" "grows (kernel_root kp) (m, s) (m', s')"
    and "\<And>a. a \<in> heap_pages \<Longrightarrow> leaf_entry (mc_mem m') (kernel_root kp) (page_of_address a) =
      leaf_entry (mc_mem m) (kernel_root kp) (page_of_address a)"
  shows "heap_frames (mc_mem m') (kernel_root kp) (set (free s')) \<and>
    heap_mapped (mc_mem m') (kernel_root kp) = heap_mapped (mc_mem m) (kernel_root kp)"
proof -
  let ?root = "kernel_root kp"
  have eq: "heap_mapped (mc_mem m') ?root = heap_mapped (mc_mem m) ?root" using assms(3) by (auto simp: heap_mapped_def)
  have leaf: "leaf_entry (mc_mem m') ?root (page_of_address a) = leaf_entry (mc_mem m) ?root (page_of_address a)"
    if "a \<in> heap_mapped (mc_mem m) ?root" for a using that assms(3) by (simp add: heap_mapped_def)
  have "f \<notin> tables (mc_mem m') ?root \<and> f \<notin> set (free s')" if "f \<notin> tables (mc_mem m) ?root" "f \<notin> set (free s)" for f
    using grows_data(2,3) [OF assms(2) that, of "f * 4096"] by simp
  moreover have "inj_on (\<lambda>a. leaf_entry (mc_mem m') ?root (page_of_address a)) (heap_mapped (mc_mem m) ?root)"
    using assms(1) inj_on_cong [of "heap_mapped (mc_mem m) ?root", OF leaf] by (simp add: heap_frames_def)
  ultimately show ?thesis using assms(1) leaf unfolding heap_frames_def eq by metis
qed

lemma heap_frames_leaf:
  assumes frames: "heap_frames (mc_mem m) (kernel_root kp) (set (free s))" and G: "grows (kernel_root kp) (m, s) (m', s')"
    and f: "f \<in> set (free s)" "fresh_data f (m', s')" and a: "va a \<in> heap_pages"
    and leaf: "maps_leaf (kernel_root kp) (page_of_address (va a)) (mk_pte f (leaf_flags ReadWrite Supervisor)) m m'"
  shows "heap_frames (mc_mem m') (kernel_root kp) (set (free s'))"
proof -
  let ?root = "kernel_root kp" and ?le = "\<lambda>mm a. leaf_entry (mc_mem mm) (kernel_root kp) (page_of_address a)"
  let ?pte = "\<lambda>f. mk_pte f (leaf_flags ReadWrite Supervisor)" and ?H = "heap_mapped (mc_mem m) ?root"
  have H: "heap_mapped (mc_mem m') ?root = insert (va a) ?H" by (rule heap_mapped_leaf [OF leaf a])
  have new: "?le m' (va a) = ?pte f" "va a \<notin> ?H" using maps_leaf_at [OF leaf] by (auto simp: heap_mapped_def)
  have old: "?le m' b = ?le m b" if "b \<in> ?H" for b
    using maps_leaf_at [OF leaf] that by (auto simp: heap_mapped_def)
  have oldf: "\<exists>g. ?le m b = ?pte g \<and> representable g \<and> g \<notin> tables (mc_mem m') ?root \<and> g \<notin> set (free s') \<and> g \<noteq> f"
    if b: "b \<in> ?H" for b
  proof -
    obtain g where g: "?le m b = ?pte g" "representable g" "g \<notin> tables (mc_mem m) ?root" "g \<notin> set (free s)"
      using frames b unfolding heap_frames_def by blast
    then have "g \<notin> tables (mc_mem m') ?root \<and> g \<notin> set (free s')"
      using grows_data(2,3) [OF G g(3,4), of "g * 4096"] by simp
    with g f(1) show ?thesis by auto
  qed
  have rep: "representable f" "f \<notin> tables (mc_mem m') ?root" "f \<notin> set (free s')" using f(2) by (simp_all add: fresh_data_def)
  have ne: "?le m' b \<noteq> ?pte f" if "b \<in> ?H" for b
    using oldf [OF that] leaf_permits_flags(2) rep(1) unfolding old [OF that] by metis
  have "inj_on (?le m') ?H" using frames inj_on_cong [of ?H, OF old] by (simp add: heap_frames_def)
  then have "inj_on (?le m') (insert (va a) ?H)" using new ne by (fastforce simp: inj_on_insert)
  moreover have "\<exists>g. ?le m' b = ?pte g \<and> representable g \<and> g \<notin> tables (mc_mem m') ?root \<and> g \<notin> set (free s')"
    if "b \<in> insert (va a) ?H" for b using that new(1) rep oldf old by (metis insertE)
  ultimately show ?thesis unfolding heap_frames_def H by blast
qed

text \<open>What holds of the address space while its heap is in use.\<close>

definition heap_space :: "machine \<times> 's \<Rightarrow> bool" where
  "heap_space ms \<longleftrightarrow> kernel_inv ms \<and> kp_heap_claimed kp \<and> heap_frames (mc_mem (fst ms)) (kernel_root kp) (set (free (snd ms)))"

end

sublocale kernel_space \<subseteq> heap: heap_backing "backing_map_page kp allocate"
  heap_space "\<lambda>ms. heap_mapped (mc_mem (fst ms)) (kernel_root kp)" heap_pages
proof
  fix a b b' assume a: "heap_space b" "va a \<in> heap_pages"
    and run: "backing_map_page kp allocate a b = (Ok (), b')"
  obtain m s m' s' where b: "b = (m, s)" "b' = (m', s')" by (metis surj_pair)
  have inv: "kernel_inv (m, s)" "kp_heap_claimed kp" "heap_frames (mc_mem m) (kernel_root kp) (set (free s))"
    using a(1) b by (simp_all add: heap_space_def)
  obtain f where f: "f \<in> set (free s)" "fresh_data f (m', s')" "grows (kernel_root kp) (m, s) (m', s')"
      "maps_leaf (kernel_root kp) (page_of_address (va a)) (mk_pte f (leaf_flags ReadWrite Supervisor)) m m'"
    using backing_spec [OF inv(1,2) a(2) run [unfolded b]] by auto
  show "heap_space b' \<and>
      heap_mapped (mc_mem (fst b')) (kernel_root kp) = insert (va a) (heap_mapped (mc_mem (fst b)) (kernel_root kp))"
    using heap_mapped_leaf [OF f(4) a(2)] kernel_inv_grows [OF inv(1) f(3)]
      heap_frames_leaf [OF inv(3) f(3) f(1,2) a(2) f(4)] inv(2) by (simp add: b heap_space_def)
next
  fix a b e b' assume a: "heap_space b" "va a \<in> heap_pages"
    and run: "backing_map_page kp allocate a b = (Err e, b')"
  obtain m s m' s' where b: "b = (m, s)" "b' = (m', s')" by (metis surj_pair)
  have inv: "kernel_inv (m, s)" "kp_heap_claimed kp" "heap_frames (mc_mem m) (kernel_root kp) (set (free s))"
    using a(1) b by (simp_all add: heap_space_def)
  have S: "grows (kernel_root kp) (m, s) (m', s')" "same_leaves (kernel_root kp) m m'"
    using backing_spec [OF inv(1,2) a(2) run [unfolded b]] by auto
  show "heap_space b' \<and>
      heap_mapped (mc_mem (fst b')) (kernel_root kp) = heap_mapped (mc_mem (fst b)) (kernel_root kp)"
    using heap_frames_keep [OF inv(3) S(1) same_leaves_at [OF S(2)]] kernel_inv_grows [OF inv(1) S(1)] inv(2)
    by (simp add: b heap_space_def)
next
  fix a b assume a: "heap_space b" "va a \<in> heap_pages"
  obtain m s where b: "b = (m, s)" by (metis surj_pair)
  obtain r m' s' where run: "backing_map_page kp allocate a (m, s) = (r, m', s')" by (metis surj_pair)
  have "returns r" using backing_spec [OF _ _ a(2) run] a(1) unfolding b by (simp add: heap_space_def)
  then show "returns (fst (backing_map_page kp allocate a b))" using run by (simp add: b)
qed

end
