(* ===== verification/Page_Range.thy ===== *)
theory Page_Range
  imports Kernel_Space
begin

text \<open>
  Ranges of pages: an empty table as the root of a new address space, and \<open>map_range\<close>, which maps
  a contiguous range page by page.
\<close>

section \<open>Runs of pages\<close>

text \<open>The pages of a stretch of memory.\<close>

definition page_run :: "nat \<Rightarrow> nat \<Rightarrow> page set" where
  "page_run a n = (\<lambda>k. page_of_address (a + 4096 * k)) ` {..<n}"

lemma page_run_Suc: "page_run a (Suc n) = insert (page_of_address a) (page_run (a + 4096) n)"
  unfolding page_run_def lessThan_Suc_eq_insert_0 by (simp add: image_image add.assoc)

lemma page_run_0 [simp]: "page_run a 0 = {}"
  by (simp add: page_run_def)

text \<open>The pages from an address on are mapped to consecutive frames; no other leaf changes.\<close>

definition maps_run :: "nat \<Rightarrow> nat \<Rightarrow> nat \<Rightarrow> nat \<Rightarrow> kusize \<Rightarrow> machine \<Rightarrow> machine \<Rightarrow> bool" where
  "maps_run root a n f flags m m' \<longleftrightarrow>
     (\<forall>i<n. leaf_entry (mc_mem m) root (page_of_address (a + 4096 * i)) = 0 \<and>
        leaf_entry (mc_mem m') root (page_of_address (a + 4096 * i)) = mk_pte (f + i) flags) \<and>
     (\<forall>v. page_ok v \<longrightarrow> v \<notin> page_run a n \<longrightarrow> leaf_entry (mc_mem m') root v = leaf_entry (mc_mem m) root v)"

lemma maps_run_0: "maps_run root a 0 f flags m m" by (simp add: maps_run_def)

lemma page_run_iff: "v \<in> page_run a n \<longleftrightarrow> (\<exists>i<n. v = page_of_address (a + 4096 * i))"
  by (auto simp: page_run_def)

lemma maps_run_Suc:
  assumes run: "maps_run root a n f (leaf_flags p q) m m1"
    and leaf: "maps_leaf root (page_of_address (a + 4096 * n)) (mk_pte (f + n) (leaf_flags p q)) m1 m'"
  shows "maps_run root a (Suc n) f (leaf_flags p q) m m'"
proof -
  let ?v = "page_of_address (a + 4096 * n)"
  note L = maps_leaf_at [OF leaf]
  have new: "?v \<notin> page_run a n"
    using run L(1) leaf_pte_nonzero [of _ p q] unfolding maps_run_def page_run_iff by metis
  have set: "page_run a (Suc n) = insert ?v (page_run a n)" by (auto simp: page_run_iff less_Suc_eq)
  have "leaf_entry (mc_mem m) root (page_of_address (a + 4096 * i)) = 0 \<and>
      leaf_entry (mc_mem m') root (page_of_address (a + 4096 * i)) = mk_pte (f + i) (leaf_flags p q)" if "i < Suc n" for i
  proof (cases "i = n")
    case True
    have "leaf_entry (mc_mem m) root ?v = leaf_entry (mc_mem m1) root ?v"
      using run new page_ok_address unfolding maps_run_def by metis
    then show ?thesis using L by (simp add: True)
  next
    case False
    then have i: "i < n" using that by simp
    then have "page_of_address (a + 4096 * i) \<noteq> ?v" using new by (auto simp: page_run_iff)
    then show ?thesis using run i L(2) by (simp add: maps_run_def)
  qed
  moreover have "leaf_entry (mc_mem m') root v = leaf_entry (mc_mem m) root v"
    if "page_ok v" "v \<notin> page_run a (Suc n)" for v
    using that leaf run unfolding maps_run_def maps_leaf_def set insert_iff by metis
  ultimately show ?thesis by (simp add: maps_run_def)
qed

text \<open>Leaves are only added, and only at the given pages.\<close>

definition adds_leaves :: "nat \<Rightarrow> page set \<Rightarrow> machine \<Rightarrow> machine \<Rightarrow> bool" where
  "adds_leaves root P m m' \<longleftrightarrow> (\<forall>v. page_ok v \<longrightarrow>
     leaf_entry (mc_mem m') root v = leaf_entry (mc_mem m) root v \<or>
     v \<in> P \<and> leaf_entry (mc_mem m) root v = 0)"

lemma adds_leaves_same: "same_leaves root m m' \<Longrightarrow> adds_leaves root P m m'"
  by (simp add: adds_leaves_def same_leaves_def)

lemma adds_leaves_one: "maps_leaf root v e m m' \<Longrightarrow> v \<in> P \<Longrightarrow> adds_leaves root P m m'"
  unfolding adds_leaves_def maps_leaf_def by metis

lemma adds_leaves_trans:
  assumes "adds_leaves root P m m1" "adds_leaves root Q m1 m2" "P \<subseteq> R" "Q \<subseteq> R"
  shows "adds_leaves root R m m2"
  using assms unfolding adds_leaves_def by (metis subsetD)

lemma adds_leaves_keep:
  "adds_leaves root P m m' \<Longrightarrow> leaf_entry (mc_mem m) root (page_of_address x) \<noteq> 0 \<Longrightarrow>
   leaf_entry (mc_mem m') root (page_of_address x) = leaf_entry (mc_mem m) root (page_of_address x)"
  unfolding adds_leaves_def using page_ok_address by metis

lemma maps_run_adds: "maps_run root a n f flags m m' \<Longrightarrow> adds_leaves root (page_run a n) m m'"
  unfolding maps_run_def adds_leaves_def page_run_iff by metis

lemma for_op_cong: "(\<And>x. x \<in> set xs \<Longrightarrow> f x = g x) \<Longrightarrow> for_op f xs s = for_op g xs s"
  by (induction xs arbitrary: s) (auto split: prod.split res.split)

section \<open>The arithmetic of a range\<close>

definition page_count :: "nat \<Rightarrow> nat" where "page_count n = (n + 4095) div 4096"

lemma page_count_bounds: "0 < n \<Longrightarrow> 0 < page_count n \<and> (page_count n - 1) * 4096 < n" "i < page_count n \<longleftrightarrow> i * 4096 < n"
proof -
  show iff: "i < page_count n \<longleftrightarrow> i * 4096 < n" for i
    unfolding page_count_def less_eq_Suc_le using less_eq_div_iff_mult_less_eq [of 4096 "Suc i" "n + 4095"] by auto
  assume "0 < n"
  then have "0 < page_count n" using iff [of 0] by simp
  then show "0 < page_count n \<and> (page_count n - 1) * 4096 < n" using iff [of "page_count n - 1"] by simp
qed

lemma unat_page_count: "unat (word_div_ceil w PAGE_SIZE) = page_count (unat w)"
proof -
  define q r where "q = unat w div 4096" and "r = unat w mod 4096"
  have w: "unat w = 4096 * q + r" "r < 4096" by (simp_all add: q_def r_def)
  then have q: "q < 2 ^ 52" using unat_kusize [of w] by simp
  have d: "unat (w div PAGE_SIZE) = q" "unat (w mod PAGE_SIZE) = r"
    by (simp_all add: PAGE_SIZE_def unat_div unat_mod q_def r_def)
  have "w mod PAGE_SIZE = 0 \<longleftrightarrow> r = 0" using d(2) by (metis unat_eq_0)
  then have "unat (word_div_ceil w PAGE_SIZE) = q + (if r = 0 then 0 else 1)"
    using d(1) q by (simp add: word_div_ceil_def unat_word_ariths)
  also have "\<dots> = page_count (unat w)"
    unfolding page_count_def w(1) using w(2) by (intro div_nat_eqI [symmetric]) auto
  finally show ?thesis .
qed

lemma unat_offset: "i * 4096 < 2 ^ 64 \<Longrightarrow> unat (word_of_nat i * PAGE_SIZE) = i * 4096"
  by (subst unat_word_ariths(2)) (simp add: PAGE_SIZE_def unat_of_nat)

lemma unat_add_fits: "unat a + unat b < 2 ^ 64 \<Longrightarrow> unat (a + b :: kusize) = unat a + unat b"
  by (simp add: unat_word_ariths)

text \<open>The frame and the address of one step of the loop, and how often it runs.\<close>

definition range_frame :: "PhysFrame \<Rightarrow> nat \<Rightarrow> PhysFrame option" where
  "range_frame f i = phys_frame_from_start (PhysAddr (pa_as_usize (pf_start_address f) + word_of_nat i * PAGE_SIZE))"

definition range_address :: "virt_range \<Rightarrow> nat \<Rightarrow> VirtAddr" where
  "range_address rng i = VirtAddr (va_as_usize (vr_start rng) + word_of_nat i * PAGE_SIZE)"

definition range_pages :: "virt_range \<Rightarrow> nat" where
  "range_pages rng = page_count (va (vr_end rng) - va (vr_start rng))"

lemma range_step_frame:
  assumes "frame_ok f" "pa (pf_start_address f) + i * 4096 < 2 ^ 56"
  shows "\<exists>g. range_frame f i = Some g \<and> frame_ok g \<and> frame_no g = frame_no f + i"
proof -
  let ?w = "pa_as_usize (pf_start_address f) + word_of_nat i * PAGE_SIZE"
  have o: "unat (word_of_nat i * PAGE_SIZE) = i * 4096" by (rule unat_offset) (use assms(2) in simp)
  have w: "unat ?w = pa (pf_start_address f) + i * 4096" using unat_add_fits [of "pa_as_usize (pf_start_address f)"] o assms(2) by simp
  have al: "pa (pf_start_address f) mod 4096 = 0" using assms(1) by (simp add: frame_ok_def frame_aligned_def)
  then have ok: "frame_aligned (PhysAddr ?w)" "unat ?w + 4096 < 2 ^ 64"
    using w assms(2) by (simp_all add: frame_aligned_def mod_add_eq [symmetric])
  have "frame_no (PhysFrame (PhysAddr ?w)) = frame_no f + i"
    unfolding frame_no_def PhysFrame.sel PhysAddr.sel w by simp
  then show ?thesis
    using ok by (intro exI [of _ "PhysFrame (PhysAddr ?w)"]) (simp add: range_frame_def phys_frame_from_start_Some frame_ok_def)
qed

lemma range_words:
  assumes "virt_range_ok rng"
  defines "cnt \<equiv> word_div_ceil (va_as_usize (vr_end rng) - va_as_usize (vr_start rng)) PAGE_SIZE"
  shows "unat cnt = range_pages rng" "i < range_pages rng \<Longrightarrow> va (range_address rng i) = va (vr_start rng) + 4096 * i"
    "unat ((cnt - 1) * PAGE_SIZE) = (range_pages rng - 1) * 4096" "0 < range_pages rng"
    "i < range_pages rng \<Longrightarrow> va (vr_start rng) + 4096 * i < va (vr_end rng)"
proof -
  let ?start = "va_as_usize (vr_start rng)" and ?stop = "va_as_usize (vr_end rng)"
  have lt: "unat ?start < unat ?stop" using assms(1) by (simp add: virt_range_ok_def)
  then have sz: "unat (?stop - ?start) = unat ?stop - unat ?start" by (simp add: unat_sub word_le_nat_alt)
  show cnt: "unat cnt = range_pages rng" by (simp add: cnt_def unat_page_count sz range_pages_def)
  show pos: "0 < range_pages rng" using page_count_bounds(1) lt by (simp add: range_pages_def)
  have n: "i * 4096 < unat ?stop - unat ?start" if "i < range_pages rng" for i
    using page_count_bounds(2) that by (simp add: range_pages_def)
  have stop: "unat ?stop < 2 ^ 64" using unat_kusize [of ?stop] by simp
  have off: "unat (word_of_nat i * PAGE_SIZE :: kusize) = i * 4096" if "i < range_pages rng" for i
    by (rule unat_offset) (use n [OF that] stop in linarith)
  show "va (range_address rng i) = va (vr_start rng) + 4096 * i" if "i < range_pages rng"
    using unat_add_fits [of ?start "word_of_nat i * PAGE_SIZE"] off [OF that] n [OF that] stop by (simp add: range_address_def)
  show "va (vr_start rng) + 4096 * i < va (vr_end rng)" if "i < range_pages rng" using n [OF that] by linarith
  have "cnt = word_of_nat (range_pages rng)" by (simp flip: cnt)
  then have "cnt - 1 = word_of_nat (range_pages rng - 1)" using pos by (simp add: of_nat_diff)
  then show "unat ((cnt - 1) * PAGE_SIZE) = (range_pages rng - 1) * 4096" using off [of "range_pages rng - 1"] pos by simp
qed

lemma map_range_cases:
  assumes fr: "frame_ok fr" and rng: "virt_range_ok rng" and run: "map_range rf access rng fr perms alloc ms = (r, ms')"
  obtains (Refused) e where "r = Err e" "ms' = ms"
    | (Loop) "pa (pf_start_address fr) + (range_pages rng - 1) * 4096 < 2 ^ 56"
      "for_op (\<lambda>i. map_page rf access (range_address rng i) (the (range_frame fr i)) perms Supervisor alloc) [0..<range_pages rng] ms = (r, ms')"
proof (cases "pa (pf_start_address fr) + (range_pages rng - 1) * 4096 < 2 ^ 56")
  case True
  have E: "for_op (\<lambda>i. case range_frame fr i of
        None \<Rightarrow> err_op (PhysicalRangeNotRepresentable (pf_start_address fr) (va_as_usize (vr_end rng) - va_as_usize (vr_start rng)))
      | Some g \<Rightarrow> map_page rf access (range_address rng i) g perms Supervisor alloc) [0..<range_pages rng] ms =
      for_op (\<lambda>i. map_page rf access (range_address rng i) (the (range_frame fr i)) perms Supervisor alloc) [0..<range_pages rng] ms"
  proof (rule for_op_cong)
    fix i assume "i \<in> set [0..<range_pages rng]"
    then have "i * 4096 \<le> (range_pages rng - 1) * 4096" by simp
    then have "pa (pf_start_address fr) + i * 4096 < 2 ^ 56" using True by linarith
    from range_step_frame [OF fr this] show "(case range_frame fr i of
        None \<Rightarrow> err_op (PhysicalRangeNotRepresentable (pf_start_address fr) (va_as_usize (vr_end rng) - va_as_usize (vr_start rng)))
      | Some g \<Rightarrow> map_page rf access (range_address rng i) g perms Supervisor alloc) =
      map_page rf access (range_address rng i) (the (range_frame fr i)) perms Supervisor alloc" by auto
  qed
  show thesis using that run True
    unfolding map_range_def Let_def range_frame_def [symmetric] range_address_def [symmetric] range_words(1) [OF rng]
    by (auto simp only: E op_simps_basic prod.inject split: if_splits)
next
  case False
  then have "case phys_checked_add (pf_start_address fr)
        ((word_div_ceil (va_as_usize (vr_end rng) - va_as_usize (vr_start rng)) PAGE_SIZE - 1) * PAGE_SIZE) of
      None \<Rightarrow> True | Some address \<Rightarrow> pa_as_usize address > MAX_PHYSICAL_ADDRESS"
    by (auto simp: phys_checked_add_Some range_words [OF rng] MAX_PHYSICAL_ADDRESS_def word_less_nat_alt split: option.split)
  then show thesis using that(1) run unfolding map_range_def by (auto simp: Let_def split: if_splits)
qed

lemma empty_table:
  assumes "\<And>i. i < 512 \<Longrightarrow> pte_at m f i = 0" "representable f"
  shows "tables m f = {f}" "tree_ok m f" "page_ok v \<Longrightarrow> leaf_entry m f v = 0"
proof -
  have none: "path_ok q \<Longrightarrow> tab m f q = Some g \<longleftrightarrow> q = [] \<and> g = f" for q g
    using assms(1) by (cases q) (auto simp: path_ok_def child_def pte_link_def)
  show "tables m f = {f}" unfolding tables_def using none by (auto intro: exI [of _ "[]"])
  show "tree_ok m f" unfolding tree_ok_def
    using none assms path_ok_snoc by (fastforce simp: pte_link_def)
  assume "page_ok v"
  then have "tab m f [i, j] = None" if "v = (i, j, k)" for i j k
    using that none [of "[i, j]"] by (cases "tab m f [i, j]") (auto simp: page_ok_def)
  then show "leaf_entry m f v = 0" by (cases v) (simp add: leaf_entry_def)
qed

context page_tables
begin

section \<open>A new root\<close>

text \<open>Frames the allocator may give out while the window is in use.\<close>

definition frames_clear :: "machine \<times> 's \<Rightarrow> bool" where
  "frames_clear ms \<longleftrightarrow> (case ms of (m, s) \<Rightarrow> ok m \<and> finv s \<and> (\<forall>g\<in>set (free s). \<forall>c\<in>insert slot_at (guards m). c div 4096 \<noteq> g))"

definition apart :: "nat \<Rightarrow> machine \<Rightarrow> bool" where
  "apart root m \<longleftrightarrow> slot_at div 4096 \<notin> tables (mc_mem m) root"

lemma mapper_clear: "mapper root ms \<Longrightarrow> frames_clear ms"
  by (auto simp: mapper_def frames_clear_def split: prod.splits)

lemma apart_grows: "mapper root (m, s) \<Longrightarrow> grows root (m, s) (m', s') \<Longrightarrow> apart root m \<Longrightarrow> apart root m'"
  by (auto simp: apart_def grows_def mapper_def)

lemma grows_tab:
  "grows root (m, s) (m', s') \<Longrightarrow> path_ok q \<Longrightarrow> tab (mc_mem m) root q = Some h \<Longrightarrow> tab (mc_mem m') root q = Some h"
  by (simp add: grows_def)

lemma fresh_root:
  assumes clear: "frames_clear (m, s)" and run: "allocate_page_table access allocate (m, s) = (r, m', s')"
  shows "returns r \<and> mc_satp m' = mc_satp m \<and> frames_clear (m', s') \<and>
    (\<forall>a. r = Ok a \<longrightarrow> frame_ok (af_frame a) \<and> mapper (frame_no (af_frame a)) (m', s') \<and> apart (frame_no (af_frame a)) m' \<and>
       (\<forall>v. page_ok v \<longrightarrow> leaf_entry (mc_mem m') (frame_no (af_frame a)) v = 0))"
proof -
  have ok: "ok m" "finv s" "\<And>g c. g \<in> set (free s) \<Longrightarrow> c \<in> insert slot_at (guards m) \<Longrightarrow> c div 4096 \<noteq> g"
    using clear by (auto simp: frames_clear_def)
  from ok(2) show ?thesis
  proof (cases rule: take_frame_cases [where m = m])
    case (None s1)
    then have "r = Err OutOfPhysicalFrames" "m' = m" "s' = s1"
      using run by (simp_all add: allocate_page_table_def bind_op_def)
    then show ?thesis using None ok by (simp add: frames_clear_def)
  next
    case (Some a s1)
    let ?f = "frame_no (af_frame a)"
    have sub: "set (free s1) \<subseteq> set (free s)" "?f \<in> set (free s)" "?f \<notin> set (free s1)"
      using Some(3) free_distinct [OF ok(2)] by auto
    show ?thesis
    proof (cases "representable ?f")
      case False
      then have "r = Err (PhysicalAddressNotRepresentable (pf_start_address (af_frame a)))" "m' = m" "s' = s1"
        using run Some(1) zero_refused [OF ok(1) Some(4)] by (auto simp: allocate_page_table_def bind_op_def on_machine_def)
      then show ?thesis using Some(2) ok sub by (auto simp: frames_clear_def)
    next
      case True
      let ?m = "upd_mem (\<lambda>mm. clear_frame mm ?f) m"
      have far: "\<forall>c\<in>insert slot_at (guards m). c div 4096 \<noteq> ?f" using ok(3) sub(2) by blast
      have out: "r = Ok a" "m' = ?m" "s' = s1"
        using run Some(1) zero_law [OF ok(1) Some(4) True far] by (auto simp: allocate_page_table_def bind_op_def on_machine_def)
      have keep: "ok ?m" "guards ?m = guards m"
        by (rule keep_frame [OF ok(1) far]; simp add: clear_frame_apply)+
      have "pte_at (mc_mem ?m) ?f i = 0" if "i < 512" for i using that by (simp add: entry_clear_frame)
      note E = empty_table [OF this True]
      have clear': "frames_clear (?m, s1)" using keep Some(2) ok(3) sub(1) by (auto simp: frames_clear_def)
      then have "mapper ?f (?m, s1)" using E sub(3) far keep by (auto simp: mapper_def frames_clear_def slot_placed_def)
      then show ?thesis using out Some(4) E far clear' by (simp add: apart_def)
    qed
  qed
qed

section \<open>Mapping a range\<close>

lemma map_loop:
  assumes M: "mapper root (m, s)" "apart root m" and rf: "frame_ok rf" "frame_no rf = root"
    and fr: "\<And>i. i < n \<Longrightarrow> frame_ok (fr i) \<and> frame_no (fr i) = f + i" and a: "\<And>i. i < n \<Longrightarrow> va (a i) = b + 4096 * i"
    and run: "for_op (\<lambda>i. map_page rf access (a i) (fr i) perms priv allocate) [0..<n] (m, s) = (r, m', s')"
  shows "returns r \<and> grows root (m, s) (m', s') \<and> apart root m' \<and>
    (r = Ok () \<longrightarrow> maps_run root b n f (leaf_flags perms priv) m m' \<and> (\<forall>i<n. mappable (a i) \<and> representable (f + i)))"
  using fr a run
proof (induction n arbitrary: r m' s')
  case 0
  then show ?case using M grows_refl maps_run_0 by auto
next
  case (Suc n)
  let ?F = "\<lambda>i. map_page rf access (a i) (fr i) perms priv allocate"
  obtain r1 m1 s1 where n1: "for_op ?F [0..<n] (m, s) = (r1, m1, s1)" by (rule prod_cases3)
  note IH = Suc.IH [OF _ _ n1]
  have I: "returns r1" "grows root (m, s) (m1, s1)" "apart root m1"
      "r1 = Ok () \<Longrightarrow> maps_run root b n f (leaf_flags perms priv) m m1 \<and> (\<forall>i<n. mappable (a i) \<and> representable (f + i))"
    using IH Suc.prems(1,2) less_SucI by blast+
  show ?case
  proof (cases "r1 = Ok ()")
    case False
    then obtain e where "r1 = Err e" using I(1) by (metis returnsE old.unit.exhaust)
    then have "r = Err e" "m' = m1" "s' = s1" using Suc.prems(3) n1 by (auto simp: for_op_append bind_op_def)
    then show ?thesis using I by simp
  next
    case True
    obtain r2 m2 s2 where n2: "?F n (m1, s1) = (r2, m2, s2)" by (rule prod_cases3)
    have M1: "mapper root (m1, s1)" by (rule grows_mapper [OF I(2)])
    have slot: "cell g (vpn 0 (va (a n))) \<noteq> slot_at" if "tab (mc_mem m1) root [vpn 2 (va (a n)), vpn 1 (va (a n))] = Some g" for g
    proof
      assume "cell g (vpn 0 (va (a n))) = slot_at"
      then have "slot_at div 4096 = g" by (metis cell_frame vpn_lt)
      then show False using tables_tab [OF _ that] I(3) by (simp add: apart_def)
    qed
    have fn: "frame_ok (fr n)" "frame_no (fr n) = f + n" "va (a n) = b + 4096 * n" using Suc.prems(1,2) by auto
    note S = map_page_spec [OF M1 rf fn(1) slot n2]
    have "returns r2" using S by blast
    moreover have G: "grows root (m, s) (m2, s2)" using grows_trans [OF I(2)] S by blast
    moreover have "apart root m2" using apart_grows [OF M1 _ I(3)] S by blast
    moreover have "maps_run root b (Suc n) f (leaf_flags perms priv) m m2 \<and> mappable (a n) \<and> representable (f + n)" if "r2 = Ok ()"
      using maps_run_Suc I(4) True S that unfolding fn by blast
    moreover have "r = r2" "m' = m2" "s' = s2"
      using Suc.prems(3) n1 n2 True calculation(1) by (auto simp: for_op_append bind_op_def split: res.splits)
    ultimately show ?thesis using I(4) True by (auto simp: less_Suc_eq)
  qed
qed

lemma map_range_spec:
  assumes M: "mapper root (m, s)" "apart root m" and rf: "frame_ok rf" "frame_no rf = root" and fr: "frame_ok fr"
    and rng: "virt_range_ok rng" and run: "map_range rf access rng fr perms allocate (m, s) = (r, m', s')"
  shows "returns r \<and> grows root (m, s) (m', s') \<and> apart root m' \<and>
    (r = Ok () \<longrightarrow>
       maps_run root (va (vr_start rng)) (range_pages rng) (frame_no fr) (leaf_flags perms Supervisor) m m' \<and>
       (\<forall>i<range_pages rng. mappable (range_address rng i) \<and> representable (frame_no fr + i)))"
  using fr rng run
proof (cases rule: map_range_cases)
  case (Refused e)
  then show ?thesis using grows_refl [OF M(1)] M(2) by simp
next
  case Loop
  have "frame_ok (the (range_frame fr i)) \<and> frame_no (the (range_frame fr i)) = frame_no fr + i" if "i < range_pages rng" for i
  proof -
    have "i * 4096 \<le> (range_pages rng - 1) * 4096" using that by simp
    then have "pa (pf_start_address fr) + i * 4096 < 2 ^ 56" using Loop(1) by linarith
    from range_step_frame [OF fr this] show ?thesis by auto
  qed
  from map_loop [OF M rf this _ Loop(2)] show ?thesis using range_words(2) [OF rng] by simp
qed

end

end
