(* ===== verification/Memory_System.thy ===== *)
theory Memory_System
  imports Page_Range Boot_Allocator_Correct
begin

text \<open>
  The kernel's memory management with the boot allocator as its source of frames.
  \<open>address_space\<close> is the state in which \<open>KernelPaging\<close> works; the locales of the page tables,
  of the address space and of the heap are interpreted on the boot allocator here.
\<close>

interpretation tables: page_tables access "access_ok access" "guard access" "slot access" allocate ba_inv free_frames
  for access
  by unfold_locales

interpretation space: kernel_space kp allocate ba_inv free_frames for kp
  by unfold_locales

definition address_space :: "kernel_paging \<Rightarrow> machine \<times> boot_frame_allocator \<Rightarrow> bool" where
  "address_space kp ms \<longleftrightarrow> (case ms of (m, ba) \<Rightarrow>
     kernel_ok kp m \<and> frame_ok (af_frame (kp_root kp)) \<and> tree_ok (mc_mem m) (kernel_root kp) \<and> ba_inv ba \<and>
     set (free_frames ba) \<inter> tables (mc_mem m) (kernel_root kp) = {})"

text \<open>The window depends only on tables of the address space.\<close>

lemma kernel_cells:
  assumes "kernel_ok kp m" "c \<in> insert (slot (ViaKernel kp)) (guard (ViaKernel kp) m)"
  shows "c div 4096 \<in> tables (mc_mem m) (kernel_root kp)"
proof -
  let ?l1 = "pte_ppn (pte_at (mc_mem m) (kernel_root kp) 509)"
  have "tab (mc_mem m) (kernel_root kp) [509] = Some ?l1"
      "tab (mc_mem m) (kernel_root kp) [509, 511] = Some (kernel_fix kp)"
    using assms(1) by (auto simp: kernel_ok_def Let_def child_def link_to_def)
  from tables_tab [OF _ this(1)] tables_tab [OF _ this(2)]
  show ?thesis using assms(2) by (auto simp: slot_def guard_def)
qed

lemma address_space_inv: "space.kernel_inv kp ms \<longleftrightarrow> address_space kp ms"
proof (cases ms)
  case (Pair m ba)
  have "tables.slot_placed (ViaKernel kp) (mc_mem m) (kernel_root kp)" if "kernel_ok kp m"
  proof -
    have "tab (mc_mem m) (kernel_root kp) [509, 511] = Some (kernel_fix kp)"
      using that by (auto simp: kernel_ok_def Let_def child_def link_to_def)
    then show ?thesis
      unfolding tables.slot_placed_def
      by (intro impI exI [of _ 509] exI [of _ 511] exI [of _ 1] exI [of _ "kernel_fix kp"]) (simp add: slot_def)
  qed
  then show ?thesis
    using kernel_cells [of kp m] unfolding Pair space.kernel_inv_def tables.mapper_def address_space_def access_ok_def
    by auto
qed

section \<open>Mapping pages of the active address space\<close>

lemma installs_space:
  assumes "space.installs kp a f flags (m, ba) (r, m', ba')" "address_space kp (m, ba)"
  shows "returns r \<and> address_space kp (m', ba') \<and> mc_satp m' = mc_satp m \<and>
    (r = Ok () \<longrightarrow> mappable a \<and> representable f \<and>
       maps_leaf (kernel_root kp) (page_of_address (va a)) (mk_pte f flags) m m') \<and>
    (r \<noteq> Ok () \<longrightarrow> same_leaves (kernel_root kp) m m')"
proof -
  have g: "tables.grows (ViaKernel kp) (kernel_root kp) (m, ba) (m', ba')" using assms(1) by (simp add: space.installs_def)
  have "address_space kp (m', ba')"
    using space.kernel_inv_grows [OF _ g] assms(2) by (simp add: address_space_inv)
  moreover have "mc_satp m' = mc_satp m" using g by (simp add: tables.grows_def)
  ultimately show ?thesis using assms(1) by (simp add: space.installs_def)
qed

lemma map_user_page_space:
  assumes "address_space kp (m, ba)" "frame_ok (af_frame fr)" "map_user_page kp a fr perms allocate (m, ba) = (r, m', ba')"
  shows "returns r \<and> address_space kp (m', ba') \<and> mc_satp m' = mc_satp m \<and>
    (r = Ok () \<longrightarrow> mappable a \<and> representable (frame_no (af_frame fr)) \<and> maps_leaf (kernel_root kp) (page_of_address (va a))
       (mk_pte (frame_no (af_frame fr)) (leaf_flags perms User)) m m') \<and>
    (r \<noteq> Ok () \<longrightarrow> same_leaves (kernel_root kp) m m')"
  using installs_space space.map_user_page_installs [of kp "(m, ba)" fr a perms] assms by (simp add: address_space_inv)

lemma kernel_map_page_space:
  assumes "address_space kp (m, ba)" "frame_ok (af_frame fr)" "kernel_map_page kp a fr perms allocate (m, ba) = (r, m', ba')"
  shows "returns r \<and> address_space kp (m', ba') \<and> mc_satp m' = mc_satp m \<and>
    (r = Ok () \<longrightarrow> mappable a \<and> representable (frame_no (af_frame fr)) \<and> maps_leaf (kernel_root kp) (page_of_address (va a))
       (mk_pte (frame_no (af_frame fr)) (leaf_flags perms Supervisor)) m m') \<and>
    (r \<noteq> Ok () \<longrightarrow> same_leaves (kernel_root kp) m m')"
  using installs_space space.kernel_map_page_installs [of kp "(m, ba)" fr a perms] assms by (simp add: address_space_inv)

text \<open>What a leaf of the active address space means to the processor.\<close>

lemma address_space_translate:
  assumes "address_space kp (m, ba)" "mappable a" "representable f" "x < 4096"
    and "leaf_entry (mc_mem m) (kernel_root kp) (page_of_address (va a)) = mk_pte f (leaf_flags p Supervisor)"
    and "k = Store \<longrightarrow> p = ReadWrite"
  shows "translate (mc_mem m) (mc_satp m) k (va a + x) = Some (f * 4096 + x)"
proof -
  have ok: "tree_ok (mc_mem m) (kernel_root kp)" "satp_root (mc_satp m) = Some (kernel_root kp)"
    using assms(1) by (auto simp: address_space_def kernel_ok_def Let_def)
  have a: "va a mod 4096 = 0" "canonical (va a)" using assms(2) by (simp_all add: mappable_def)
  have lt: "va a < 2 ^ 64" using unat_kusize [of "va_as_usize a"] by simp
  have page: "page_of_address (va a + x) = page_of_address (va a)"
    unfolding page_of_address_def vpn_page [OF a(1) assms(4)] ..
  have "canonical (va a + x)"
  proof (cases "va a < 2 ^ 38")
    case True
    then have "va a + 4096 \<le> 2 ^ 38" using aligned_gap [of "va a" "2 ^ 38"] a(1) by (simp add: page_aligned_def)
    then show ?thesis using assms(4) by (simp add: canonical_def)
  qed (use a(2) in \<open>simp add: canonical_def\<close>)
  from translate_leaf [OF ok this, of k, unfolded page assms(5)] leaf_permits_flags(1) [OF assms(3), of k p Supervisor]
    leaf_permits_flags(2) [OF assms(3)] assms(6)
  show ?thesis by (simp add: mod_page [OF a(1) assms(4)])
qed

section \<open>The heap of the address space\<close>

definition heap_state :: "kernel_paging \<Rightarrow> kernel_heap \<Rightarrow> machine \<times> boot_frame_allocator \<Rightarrow> bool" where
  "heap_state kp h ms \<longleftrightarrow> address_space kp ms \<and> kp_heap_claimed kp \<and> heap_ok h \<and> hp_range h = HEAP_RANGE \<and>
     heap_frames (mc_mem (fst ms)) (kernel_root kp) (set (free_frames (snd ms))) \<and>
     heap_mapped (mc_mem (fst ms)) (kernel_root kp) = pages (va (hp_mapped_start h)) (unat HEAP_END)"

lemma heap_limits: "hp_range h = HEAP_RANGE \<Longrightarrow> heap_lo h = unat HEAP_START \<and> heap_hi h = unat HEAP_END"
  by (simp add: heap_lo_def heap_hi_def HEAP_RANGE_def)

lemma heap_state_inv:
  assumes "hp_range h = HEAP_RANGE"
  shows "space.heap.heap_inv kp (h, ms) \<longleftrightarrow> heap_state kp h ms"
proof -
  note lim = heap_limits [OF assms]
  have "heap_mapped m root \<inter> heap_pages = heap_mapped m root" for m root by (auto simp: heap_mapped_def)
  then show ?thesis
    using assms lim unfolding space.heap.heap_inv_def heap_state_def space.heap_space_def
    by (auto simp: address_space_inv heap_pages_def)
qed

lemma heap_allocate_state:
  assumes "heap_state kp h ms" "alloc_layout_ok l" "heap_allocate l (backing_map_page kp allocate) (h, ms) = (r, h', ms')"
  shows "heap_state kp h' ms' \<and> returns r \<and>
    heap_mapped (mc_mem (fst ms)) (kernel_root kp) \<subseteq> heap_mapped (mc_mem (fst ms')) (kernel_root kp) \<and>
    (\<forall>p. r = Ok p \<longrightarrow> 0 < unat (ly_size l) \<and> fits h l \<and> unat p = block_at h l \<and> hp_cursor h' = VirtAddr p) \<and>
    (\<forall>e. r = Err e \<longrightarrow> hp_cursor h' = hp_cursor h)"
proof -
  have rng: "hp_range h = HEAP_RANGE" using assms(1) by (simp add: heap_state_def)
  have "space.heap.heap_inv kp (h, ms)" using assms(1) by (simp add: heap_state_inv [OF rng])
  note S = space.heap.heap_allocate_inv [OF this assms(2,3)]
  then have "hp_range h' = HEAP_RANGE" using rng by simp
  from heap_state_inv [OF this, of kp ms'] S show ?thesis by blast
qed

text \<open>
  What a load or store at a backed address of the heap reaches: a frame that is neither a table nor
  available, the same for the whole page and for no other page.
\<close>

definition heap_byte :: "kernel_paging \<Rightarrow> machine \<times> boot_frame_allocator \<Rightarrow> nat \<Rightarrow> nat \<Rightarrow> bool" where
  "heap_byte kp ms x f \<longleftrightarrow> (case ms of (m, ba) \<Rightarrow>
     (\<forall>k. translate (mc_mem m) (mc_satp m) k x = Some (f * 4096 + x mod 4096)) \<and> representable f \<and>
     f \<notin> tables (mc_mem m) (kernel_root kp) \<and> f \<notin> set (free_frames ba) \<and>
     leaf_entry (mc_mem m) (kernel_root kp) (page_of_address (round_down x)) = mk_pte f (leaf_flags ReadWrite Supervisor))"

lemma heap_byte_at:
  assumes "heap_state kp h (m, ba)" "va (hp_mapped_start h) \<le> x" "x < unat HEAP_END"
  shows "round_down x \<in> heap_mapped (mc_mem m) (kernel_root kp) \<and> (\<exists>f. heap_byte kp (m, ba) x f)"
proof -
  let ?p = "round_down x" and ?root = "kernel_root kp"
  have st: "address_space kp (m, ba)" "heap_frames (mc_mem m) ?root (set (free_frames ba))" "heap_ok h" "hp_range h = HEAP_RANGE"
      "heap_mapped (mc_mem m) ?root = pages (va (hp_mapped_start h)) (unat HEAP_END)"
    using assms(1) by (auto simp: heap_state_def)
  have "va (hp_mapped_start h) \<le> ?p"
    using round_down_mono_aligned assms(2) st(3) by (simp add: heap_ok_def)
  then have mapped: "?p \<in> heap_mapped (mc_mem m) ?root"
    using assms(3) round_down_le [of x] round_down_aligned [of x] by (simp add: st(5) pages_def page_aligned_def)
  then have hp: "?p \<in> heap_pages" by (simp add: heap_mapped_def)
  define a where "a = VirtAddr (word_of_nat ?p)"
  have a: "va a = ?p" using heap_pages_lt [OF hp] by (simp add: a_def unat_of_nat)
  obtain f where f: "leaf_entry (mc_mem m) ?root (page_of_address ?p) = mk_pte f (leaf_flags ReadWrite Supervisor)"
      "representable f" "f \<notin> tables (mc_mem m) ?root" "f \<notin> set (free_frames ba)"
    using st(2) mapped unfolding heap_frames_def by blast
  have "mappable a" using heap_page_checks(1) hp a by simp
  from address_space_translate [OF st(1) this f(2), of "x mod 4096" ReadWrite]
  have "translate (mc_mem m) (mc_satp m) k x = Some (f * 4096 + x mod 4096)" for k
    using f(1) by (simp add: a round_down_def)
  with mapped f show ?thesis by (auto simp: heap_byte_def)
qed

lemma heap_byte_inj:
  assumes "heap_state kp h (m, ba)" "va (hp_mapped_start h) \<le> x" "x < unat HEAP_END" "va (hp_mapped_start h) \<le> y" "y < unat HEAP_END"
    and "heap_byte kp (m, ba) x f" "heap_byte kp (m, ba) y f"
  shows "round_down x = round_down y"
proof -
  have "inj_on (\<lambda>a. leaf_entry (mc_mem m) (kernel_root kp) (page_of_address a)) (heap_mapped (mc_mem m) (kernel_root kp))"
    using assms(1) unfolding heap_state_def heap_frames_def fst_conv by blast
  from inj_onD [OF this] show ?thesis
    using heap_byte_at [OF assms(1-3)] heap_byte_at [OF assms(1,4,5)] assms(6,7) by (simp add: heap_byte_def)
qed

text \<open>Different addresses of the heap are different bytes of memory.\<close>

lemma heap_translate_inj:
  assumes "heap_state kp h (m, ba)"
  shows "inj_on (translate (mc_mem m) (mc_satp m) k) {va (hp_mapped_start h) ..< unat HEAP_END}"
proof (rule inj_onI)
  fix x y assume x: "x \<in> {va (hp_mapped_start h) ..< unat HEAP_END}" and y: "y \<in> {va (hp_mapped_start h) ..< unat HEAP_END}"
    and eq: "translate (mc_mem m) (mc_satp m) k x = translate (mc_mem m) (mc_satp m) k y"
  obtain f g where f: "heap_byte kp (m, ba) x f" and g: "heap_byte kp (m, ba) y g"
    using heap_byte_at [OF assms, of x] heap_byte_at [OF assms, of y] x y by auto
  have tr: "f * 4096 + x mod 4096 = g * 4096 + y mod 4096" using f g eq by (simp add: heap_byte_def)
  from arg_cong [OF tr, of "\<lambda>z. z div 4096"] have fg: "f = g" by simp
  then have "round_down x = round_down y" using heap_byte_inj [OF assms, of x y f] x y f g by simp
  then show "x = y" using tr fg by (metis add_left_cancel round_down_def div_mult_mod_eq)
qed

text \<open>Writing memory outside the tables keeps the address space, its heap and all translations.\<close>

lemma address_space_write:
  assumes "address_space kp (m, ba)" "\<And>x. x div 4096 \<in> tables (mc_mem m) (kernel_root kp) \<Longrightarrow> mm x = mc_mem m x"
  shows "address_space kp (m\<lparr>mc_mem := mm\<rparr>, ba)"
proof -
  have ok: "kernel_ok kp m" "tree_ok (mc_mem m) (kernel_root kp)" using assms(1) by (auto simp: address_space_def)
  have same: "load64 mm c = load64 (mc_mem m) c" if "c \<in> insert (slot (ViaKernel kp)) (guard (ViaKernel kp) m)" for c
  proof -
    have c: "c div 4096 \<in> tables (mc_mem m) (kernel_root kp)" by (rule kernel_cells [OF ok(1) that])
    have "(0 :: nat) < 512" "(1 :: nat) < 512" "(509 :: nat) < 512" "(511 :: nat) < 512" by simp_all
    with that obtain f i where "i < 512" "c = cell f i" unfolding slot_def guard_def frame_access.case by blast
    with c assms(2) show ?thesis using entry_cong [of i f mm "mc_mem m"] by auto
  qed
  then have "kernel_ok kp (m\<lparr>mc_mem := mm\<rparr>)"
    using ok(1) by (simp add: kernel_ok_def slot_def guard_def Let_def)
  then show ?thesis using assms(1) outside_tree(2,3) [of "mc_mem m" "kernel_root kp" mm] assms(2) by (simp add: address_space_def)
qed

lemma heap_state_write:
  assumes st: "heap_state kp h (m, ba)" and mm: "\<And>x. x div 4096 \<in> tables (mc_mem m) (kernel_root kp) \<Longrightarrow> mm x = mc_mem m x"
  shows "heap_state kp h (m\<lparr>mc_mem := mm\<rparr>, ba) \<and> same_leaves (kernel_root kp) m (m\<lparr>mc_mem := mm\<rparr>) \<and>
    tables mm (kernel_root kp) = tables (mc_mem m) (kernel_root kp) \<and>
    (\<forall>x\<in>{va (hp_mapped_start h) ..< unat HEAP_END}. \<forall>f. heap_byte kp (m\<lparr>mc_mem := mm\<rparr>, ba) x f \<longleftrightarrow> heap_byte kp (m, ba) x f)"
proof -
  let ?root = "kernel_root kp" and ?m = "m\<lparr>mc_mem := mm\<rparr>"
  have t: "tables mm ?root = tables (mc_mem m) ?root" by (rule outside_tree(2)) (rule mm)
  have leaf: "leaf_entry mm ?root (page_of_address a) = leaf_entry (mc_mem m) ?root (page_of_address a)" for a
    by (rule outside_tree(4) [OF mm page_ok_address])
  have hm: "heap_mapped mm ?root = heap_mapped (mc_mem m) ?root" by (simp add: heap_mapped_def leaf)
  then have hf: "heap_frames mm ?root S = heap_frames (mc_mem m) ?root S" for S by (simp add: heap_frames_def leaf t)
  have h': "heap_state kp h (?m, ba)"
    using st address_space_write [of kp m ba mm] mm by (simp add: heap_state_def hm hf)
  have "heap_byte kp (?m, ba) x f \<longleftrightarrow> heap_byte kp (m, ba) x f" if x: "x \<in> {va (hp_mapped_start h) ..< unat HEAP_END}" for x f
  proof -
    obtain g g' where g: "heap_byte kp (m, ba) x g" and g': "heap_byte kp (?m, ba) x g'"
      using heap_byte_at [OF st] heap_byte_at [OF h'] x by (metis atLeastLessThan_iff)
    have "mk_pte g (leaf_flags ReadWrite Supervisor) = mk_pte g' (leaf_flags ReadWrite Supervisor)" "representable g" "representable g'"
      using g g' by (simp_all add: heap_byte_def leaf)
    then have eq: "g' = g" using leaf_permits_flags(2) by metis
    have one: "f1 = f2" if "heap_byte kp ms x f1" "heap_byte kp ms x f2" for ms f1 f2 using that by (simp add: heap_byte_def split: prod.splits)
    show ?thesis using one g g' eq by blast
  qed
  moreover have "same_leaves ?root m ?m" unfolding same_leaves_def using outside_tree(4) [OF mm] by simp
  ultimately show ?thesis using h' t by blast
qed

text \<open>Filling a backed stretch of the heap.\<close>

lemma heap_fill:
  assumes "heap_state kp h (m, ba)" "va (hp_mapped_start h) \<le> a" "a + n \<le> unat HEAP_END"
  shows "\<exists>mm. (vwrite_bytes a v n :: (machine, unit, 'e) op) m = (Ok (), m\<lparr>mc_mem := mm\<rparr>) \<and>
    (\<forall>x. x div 4096 \<in> tables (mc_mem m) (kernel_root kp) \<or> x div 4096 \<in> set (free_frames ba) \<longrightarrow> mm x = mc_mem m x) \<and>
    (\<forall>i<n. \<forall>f. heap_byte kp (m, ba) (a + i) f \<longrightarrow> mm (f * 4096 + (a + i) mod 4096) = v)"
  using assms(3)
proof (induction n)
  case 0
  show ?case by (intro exI [of _ "mc_mem m"]) (simp add: vwrite_bytes_def)
next
  case (Suc n)
  have "a + n \<le> unat HEAP_END" using Suc.prems by simp
  from Suc.IH [OF this] obtain mm where mm: "(vwrite_bytes a v n :: (machine, unit, 'e) op) m = (Ok (), m\<lparr>mc_mem := mm\<rparr>)"
      "\<And>x. x div 4096 \<in> tables (mc_mem m) (kernel_root kp) \<or> x div 4096 \<in> set (free_frames ba) \<Longrightarrow> mm x = mc_mem m x"
      "\<And>i f. i < n \<Longrightarrow> heap_byte kp (m, ba) (a + i) f \<Longrightarrow> mm (f * 4096 + (a + i) mod 4096) = v" by blast
  note W = heap_state_write [OF assms(1) mm(2)]
  have x: "a + n \<in> {va (hp_mapped_start h) ..< unat HEAP_END}" using Suc.prems assms(2) by simp
  then obtain g where g: "heap_byte kp (m, ba) (a + n) g" using heap_byte_at [OF assms(1)] by (metis atLeastLessThan_iff)
  then have g': "heap_byte kp (m\<lparr>mc_mem := mm\<rparr>, ba) (a + n) g" using W x by blast
  define p where "p = g * 4096 + (a + n) mod 4096"
  have p: "translate mm (mc_satp m) Store (a + n) = Some p" "p div 4096 = g"
    using g' by (simp_all add: heap_byte_def p_def)
  have run: "(vwrite_bytes a v (Suc n) :: (machine, unit, 'e) op) m = (Ok (), m\<lparr>mc_mem := mm(p := v)\<rparr>)"
    using mm(1) p(1) by (simp add: vwrite_bytes_def for_op_append bind_op_def vstore8_def)
  have out: "g \<notin> tables (mc_mem m) (kernel_root kp)" "g \<notin> set (free_frames ba)" using g by (simp_all add: heap_byte_def)
  have one: "f = g" if "heap_byte kp (m, ba) (a + n) f" for f using that g by (simp add: heap_byte_def)
  show ?case
  proof (intro exI [of _ "mm(p := v)"] conjI run allI impI)
    fix x assume "x div 4096 \<in> tables (mc_mem m) (kernel_root kp) \<or> x div 4096 \<in> set (free_frames ba)"
    then show "(mm(p := v)) x = mc_mem m x" using mm(2) out p(2) by auto
  next
    fix i f assume i: "i < Suc n" "heap_byte kp (m, ba) (a + i) f"
    then show "(mm(p := v)) (f * 4096 + (a + i) mod 4096) = v"
      using mm(3) [of i f] one by (cases "i = n") (auto simp: p_def)
  qed
qed

section \<open>Claiming the heap\<close>

lemma address_space_claimed [simp]: "address_space (kp\<lparr>kp_heap_claimed := b\<rparr>) ms = address_space kp ms"
  by (simp add: address_space_def kernel_ok_def kernel_root_def kernel_fix_def split: prod.split)

lemma heap_vpn: "vpn 2 a = 384" if "a \<in> heap_pages" for a
proof -
  have "a div 2 ^ 30 = 17179869056" by (rule div_nat_eqI) (use that in \<open>simp_all add: heap_pages_def pages_def heap_bounds\<close>)
  then show ?thesis by (simp add: vpn_def)
qed

lemma claim_heap_reads:
  assumes "address_space kp (m, ba)" "\<not> kp_heap_claimed kp"
  shows "claim_heap allocate (kp, m, ba) =
    (let index = drop_bit 30 HEAP_START AND VPN_MASK; e = pte_at (mc_mem m) (kernel_root kp) 384; kp' = kp\<lparr>kp_heap_claimed := True\<rparr> in
     if e \<noteq> 0 then (Err (Backing (RootEntryInUse index e)), kp, m, ba)
     else case heap_new HEAP_RANGE (backing_map_page kp' allocate) (m, ba) of (h, ms) \<Rightarrow> (h, kp', ms))"
proof -
  let ?i = "drop_bit 30 HEAP_START AND VPN_MASK" and ?root = "kernel_root kp"
  have i: "unat ?i = 384" by (simp add: HEAP_START_def VPN_MASK_def)
  have ok: "kernel_ok kp m" "frame_ok (af_frame (kp_root kp))" "tree_ok (mc_mem m) ?root"
    using assms(1) by (auto simp: address_space_def)
  have "cell ?root 384 \<noteq> slot (ViaKernel kp)" using ok(1) by (simp add: slot_def kernel_ok_def Let_def)
  then have "read_page_table_entry (ViaKernel kp) (af_frame (kp_root kp)) ?i m = (Ok (pte_at (mc_mem m) ?root 384), m)"
    using read_page_table_entry_eq [of "ViaKernel kp" m "af_frame (kp_root kp)" ?i] ok i
    by (simp add: access_ok_def kernel_root_def [symmetric] tree_ok_def)
  then show ?thesis using assms(2) by (simp add: claim_heap_def map_err_op_def Let_def)
qed

lemma claim_heap_state:
  assumes "address_space kp (m, ba)" "claim_heap allocate (kp, m, ba) = (r, kp', m', ba')"
  shows "returns r \<and> address_space kp' (m', ba') \<and>
    (\<forall>h. r = Ok h \<longrightarrow> \<not> kp_heap_claimed kp \<and> kp' = kp\<lparr>kp_heap_claimed := True\<rparr> \<and> heap_state kp' h (m', ba') \<and>
       hp_cursor h = VirtAddr HEAP_END \<and> hp_mapped_start h \<noteq> VirtAddr HEAP_END)"
proof (cases "kp_heap_claimed kp")
  case True
  then show ?thesis using assms by (auto simp: claim_heap_def)
next
  case False
  let ?kp = "kp\<lparr>kp_heap_claimed := True\<rparr>" and ?root = "kernel_root kp"
  define e where "e = pte_at (mc_mem m) ?root 384"
  note read = claim_heap_reads [OF assms(1) False, folded e_def]
  show ?thesis
  proof (cases "e = 0")
    case False
    then show ?thesis using assms read by (auto simp: Let_def)
  next
    case True
    obtain q mm where q: "heap_new HEAP_RANGE (backing_map_page ?kp allocate) (m, ba) = (q, mm)" by (metis surj_pair)
    then have out: "r = q" "kp' = ?kp" "(m', ba') = mm"
      using assms(2) read True by (auto simp: Let_def)
    have "leaf_entry (mc_mem m) ?root (page_of_address a) = 0" if "a \<in> heap_pages" for a
      using True heap_vpn [OF that] by (simp add: leaf_entry_def page_of_address_def child_def e_def pte_link_def)
    then have none: "heap_mapped (mc_mem m) (kernel_root ?kp) = {}" by (auto simp: heap_mapped_def kernel_root_def)
    then have inv: "space.heap_space ?kp (m, ba)"
      using assms(1) heap_frames_none by (simp add: space.heap_space_def address_space_inv)
    have "virt_range_ok HEAP_RANGE" "va (vr_start HEAP_RANGE) = unat HEAP_START" "va (vr_end HEAP_RANGE) = unat HEAP_END"
      by (simp_all add: virt_range_ok_def HEAP_RANGE_def heap_bounds)
    note S = space.heap.heap_new_inv [OF inv this(1) _ _ q, unfolded this heap_pages_def [symmetric] fst_conv none]
    have S1: "returns q" "address_space ?kp mm" "\<And>h. q = Ok h \<Longrightarrow> space.heap.heap_inv ?kp (h, mm) \<and> hp_range h = HEAP_RANGE \<and>
        hp_cursor h = vr_end HEAP_RANGE \<and> hp_mapped_start h \<noteq> vr_end HEAP_RANGE"
      using S by (auto simp: space.heap_space_def address_space_inv)
    have "heap_state ?kp h mm" if "q = Ok h" for h using S1(3) [OF that] heap_state_inv by blast
    moreover have "vr_end HEAP_RANGE = VirtAddr HEAP_END" by (simp add: HEAP_RANGE_def)
    ultimately show ?thesis using S1 False out by auto
  qed
qed

text \<open>A claim succeeds when the root slot is free and three usable frames are left.\<close>

lemma claim_heap_succeeds:
  assumes sp: "address_space kp (m, ba)" "\<not> kp_heap_claimed kp" "pte_at (mc_mem m) (kernel_root kp) 384 = 0"
    and frames: "3 \<le> length (free_frames ba)" "\<forall>g\<in>set (take 3 (free_frames ba)). representable g"
  shows "\<exists>h. fst (claim_heap allocate (kp, m, ba)) = Ok h"
proof -
  let ?kp = "kp\<lparr>kp_heap_claimed := True\<rparr>" and ?root = "kernel_root kp" and ?a = "VirtAddr 0xFFFFFFE03FFFF000"
  have page: "va ?a \<in> heap_pages" by (simp add: heap_pages_def pages_def page_aligned_def heap_bounds)
  have v2: "vpn 2 (va ?a) = 384" by (rule heap_vpn [OF page])
  have root: "kernel_root ?kp = ?root" by (simp add: kernel_root_def)
  have inv: "space.kernel_inv ?kp (m, ba)" using sp(1) by (simp add: address_space_inv)
  have "leaf_entry (mc_mem m) ?root (page_of_address (va ?a)) = 0"
    using sp(3) v2 by (simp add: leaf_entry_def page_of_address_def child_def pte_link_def)
  from space.backing_succeeds [OF inv _ page, unfolded root, OF _ this _ frames] sp(3) v2
  obtain ms where "backing_map_page ?kp allocate ?a (m, ba) = (Ok (), ms)"
    by (cases "backing_map_page ?kp allocate ?a (m, ba)") auto
  moreover have "HEAP_END - FRAME_SIZE = 0xFFFFFFE03FFFF000" "checked_sub HEAP_END FRAME_SIZE = Some 0xFFFFFFE03FFFF000"
    "HEAP_START mod FRAME_SIZE = 0" "HEAP_END mod FRAME_SIZE = 0" "HEAP_START \<noteq> 0" "(0xFFFFFFE03FFFF000 :: kusize) < HEAP_END"
    by (simp_all add: HEAP_END_def HEAP_START_def GIGAPAGE_SIZE_def FRAME_SIZE_def checked_sub_def)
  ultimately have "\<exists>h. fst (heap_new HEAP_RANGE (backing_map_page ?kp allocate) (m, ba)) = Ok h"
    by (cases ms) (simp add: heap_new_def HEAP_RANGE_def back_to.simps)
  then show ?thesis using claim_heap_reads [OF sp(1,2)] sp(3) by (auto simp: Let_def split: prod.splits)
qed

end
