(* ===== verification/Kernel_Switch.thy ===== *)
theory Kernel_Switch
  imports Memory_System
begin

text \<open>
  The switch from the bootstrap tables to the kernel's own, \<open>BootstrapPaging::into_kernel\<close>: every
  section and the blob are mapped page by page into a new tree, the fixmap table maps itself, and the
  new root is made active.  What it leaves is the address space in which \<open>KernelPaging\<close> works.
\<close>

section \<open>Mapped ranges\<close>

definition range_mapped :: "mem \<Rightarrow> nat \<Rightarrow> virt_range \<Rightarrow> nat \<Rightarrow> PagePermissions \<Rightarrow> bool" where
  "range_mapped m root rng f perms \<longleftrightarrow> (\<forall>i<range_pages rng. mappable (range_address rng i) \<and> representable (f + i) \<and>
     leaf_entry m root (page_of_address (va (range_address rng i))) = mk_pte (f + i) (leaf_flags perms Supervisor))"

definition range_run :: "virt_range \<Rightarrow> page set" where
  "range_run rng = page_run (va (vr_start rng)) (range_pages rng)"

lemma range_mapped_adds:
  assumes "range_mapped (mc_mem m) root rng f perms" "adds_leaves root P m m'"
  shows "range_mapped (mc_mem m') root rng f perms"
  unfolding range_mapped_def
proof (intro allI impI)
  fix i assume "i < range_pages rng"
  then have r: "mappable (range_address rng i)" "representable (f + i)"
      "leaf_entry (mc_mem m) root (page_of_address (va (range_address rng i))) = mk_pte (f + i) (leaf_flags perms Supervisor)"
    using assms(1) by (auto simp: range_mapped_def)
  then have "leaf_entry (mc_mem m) root (page_of_address (va (range_address rng i))) \<noteq> 0" using leaf_pte_nonzero by simp
  from adds_leaves_keep [OF assms(2) this] r
  show "mappable (range_address rng i) \<and> representable (f + i) \<and>
      leaf_entry (mc_mem m') root (page_of_address (va (range_address rng i))) = mk_pte (f + i) (leaf_flags perms Supervisor)" by simp
qed

context page_tables
begin

lemma map_range_mapped:
  assumes M: "mapper root (m, s)" "apart root m" and rf: "frame_ok rf" "frame_no rf = root" and fr: "frame_ok fr"
    and rng: "virt_range_ok rng" and run: "map_range rf access rng fr perms allocate (m, s) = (r, m', s')"
  shows "returns r \<and> grows root (m, s) (m', s') \<and> apart root m' \<and>
    (r = Ok () \<longrightarrow> range_mapped (mc_mem m') root rng (frame_no fr) perms \<and> adds_leaves root (range_run rng) m m')"
proof -
  note S = map_range_spec [OF assms]
  have "range_mapped (mc_mem m') root rng (frame_no fr) perms" if "r = Ok ()"
    using S that range_words(2) [OF rng] by (auto simp: range_mapped_def maps_run_def)
  then show ?thesis using S maps_run_adds by (auto simp: range_run_def)
qed

end

section \<open>The sections of the kernel\<close>

definition sections_ok :: "(virt_range option \<times> PagePermissions) list \<Rightarrow> bool" where
  "sections_ok xs \<longleftrightarrow> (\<forall>rng p. (Some rng, p) \<in> set xs \<longrightarrow> virt_range_ok rng)"

definition sections_run :: "(virt_range option \<times> PagePermissions) list \<Rightarrow> page set" where
  "sections_run xs = (\<Union>rng\<in>{rng. \<exists>p. (Some rng, p) \<in> set xs}. range_run rng)"

definition sections_mapped ::
    "mem \<Rightarrow> nat \<Rightarrow> PhysAddr \<Rightarrow> kernel_sections \<Rightarrow> (virt_range option \<times> PagePermissions) list \<Rightarrow> bool" where
  "sections_mapped m root start sections xs \<longleftrightarrow> (\<forall>rng p. (Some rng, p) \<in> set xs \<longrightarrow>
     (\<exists>fr. section_frame start sections rng = Some fr \<and> range_mapped m root rng (frame_no fr) p))"

lemma section_frame_ok: "section_frame start sections rng = Some fr \<Longrightarrow> frame_ok fr"
  by (auto simp: section_frame_def phys_frame_from_start_Some frame_ok_def split: option.splits)

lemma sections_mapped_adds:
  "sections_mapped (mc_mem m) root start sections xs \<Longrightarrow> adds_leaves root P m m' \<Longrightarrow> sections_mapped (mc_mem m') root start sections xs"
  unfolding sections_mapped_def using range_mapped_adds by blast

lemma map_section_spec:
  assumes M: "tables.mapper (ViaBootstrap bp) root (m, ba)" "tables.apart (ViaBootstrap bp) root m"
    and rf: "frame_ok rf" "frame_no rf = root" and ok: "sections_ok [x]"
    and run: "map_section bp rf start sections allocate x (m, ba) = (r, m', ba')"
  shows "returns r \<and> tables.grows (ViaBootstrap bp) root (m, ba) (m', ba') \<and> tables.apart (ViaBootstrap bp) root m' \<and>
    (r = Ok () \<longrightarrow> sections_mapped (mc_mem m') root start sections [x] \<and> adds_leaves root (sections_run [x]) m m')"
proof (cases "fst x")
  case None
  then have "r = Ok ()" "m' = m" "ba' = ba" using run by (auto simp: map_section_def split: prod.splits)
  then show ?thesis using M tables.grows_refl [OF M(1)] None
    by (cases x) (simp add: sections_mapped_def adds_leaves_def)
next
  case (Some rng)
  then obtain p where x: "x = (Some rng, p)" by (cases x) auto
  show ?thesis
  proof (cases "section_frame start sections rng")
    case None
    then have "r = Err (InvalidKernelSection rng)" "m' = m" "ba' = ba" using run x by (auto simp: map_section_def bind_op_def)
    then show ?thesis using M tables.grows_refl [OF M(1)] by simp
  next
    case (Some fr)
    then have run': "map_range rf (ViaBootstrap bp) rng fr p allocate (m, ba) = (r, m', ba')"
      using run x by (simp add: map_section_def bind_op_def)
    have rng: "virt_range_ok rng" using ok x by (auto simp: sections_ok_def)
    from tables.map_range_mapped [OF M rf section_frame_ok [OF Some] rng run']
    show ?thesis using x Some by (simp add: sections_mapped_def sections_run_def)
  qed
qed

lemma map_sections_spec:
  assumes "tables.mapper (ViaBootstrap bp) root (m, ba)" "tables.apart (ViaBootstrap bp) root m"
    and rf: "frame_ok rf" "frame_no rf = root" and "sections_ok xs"
    and "for_op (map_section bp rf start sections allocate) xs (m, ba) = (r, m', ba')"
  shows "returns r \<and> tables.grows (ViaBootstrap bp) root (m, ba) (m', ba') \<and> tables.apart (ViaBootstrap bp) root m' \<and>
    (r = Ok () \<longrightarrow> sections_mapped (mc_mem m') root start sections xs \<and> adds_leaves root (sections_run xs) m m')"
  using assms(1,2,5,6)
proof (induction xs arbitrary: m ba)
  case Nil
  then show ?case using tables.grows_refl by (auto simp: sections_mapped_def adds_leaves_def)
next
  case (Cons x xs)
  have ok: "sections_ok [x]" "sections_ok xs" using Cons.prems(3) by (auto simp: sections_ok_def)
  obtain r1 m1 ba1 where n1: "map_section bp rf start sections allocate x (m, ba) = (r1, m1, ba1)" by (rule prod_cases3)
  note S1 = map_section_spec [OF Cons.prems(1,2) rf ok(1) n1]
  have G1: "tables.grows (ViaBootstrap bp) root (m, ba) (m1, ba1)" using S1 by blast
  show ?case
  proof (cases "r1 = Ok ()")
    case False
    then obtain e where "r1 = Err e" using S1 by (metis returnsE old.unit.exhaust)
    then have "r = Err e" "m' = m1" "ba' = ba1" using Cons.prems(4) n1 by auto
    then show ?thesis using S1 False by simp
  next
    case True
    then have "for_op (map_section bp rf start sections allocate) xs (m1, ba1) = (r, m', ba')" using Cons.prems(4) n1 by simp
    note IH = Cons.IH [OF tables.grows_mapper [OF G1] _ ok(2) this]
    have IH': "returns r" "tables.grows (ViaBootstrap bp) root (m1, ba1) (m', ba')" "tables.apart (ViaBootstrap bp) root m'"
      "r = Ok () \<Longrightarrow> sections_mapped (mc_mem m') root start sections xs \<and> adds_leaves root (sections_run xs) m1 m'"
      using IH S1 by auto
    have "sections_mapped (mc_mem m') root start sections (x # xs) \<and> adds_leaves root (sections_run (x # xs)) m m'" if "r = Ok ()"
    proof
      have "sections_mapped (mc_mem m') root start sections [x]" using sections_mapped_adds S1 True IH'(4) [OF that] by blast
      then show "sections_mapped (mc_mem m') root start sections (x # xs)" using IH'(4) [OF that] by (auto simp: sections_mapped_def)
      show "adds_leaves root (sections_run (x # xs)) m m'"
        by (rule adds_leaves_trans [of root "sections_run [x]" m m1 "sections_run xs"])
          (use S1 True IH'(4) [OF that] in \<open>auto simp: sections_run_def\<close>)
    qed
    then show ?thesis using IH' tables.grows_trans [OF G1 IH'(2)] by simp
  qed
qed

section \<open>The fixmap\<close>

lemma fixmap_words:
  "unat (drop_bit 30 FIXMAP_TABLE_BASE AND VPN_MASK) = 509" "unat (drop_bit 21 FIXMAP_TABLE_BASE AND VPN_MASK) = 511"
  by (simp_all add: FIXMAP_TABLE_BASE_def BOOT_FRAME_WINDOW_BASE_def SV39_HIGH_HALF_BASE_def BOOT_FRAME_WINDOW_VPN2_def
      VPN_MASK_def SV39_HIGH_HALF_VPN2_def GIGAPAGE_SIZE_def)

text \<open>The last step: the table of the fixmap is entered into itself.\<close>

lemma fixmap_entry:
  assumes M: "tables.mapper (ViaBootstrap bp) root (m, ba)" "tables.apart (ViaBootstrap bp) root m"
    and before: "tables.grows (ViaBootstrap bp) root (m0, ba0) (m, ba)" "same_leaves root m0 m"
    and rf: "frame_ok rf" "frame_no rf = root" and fx: "frame_ok fx" "tab (mc_mem m) root [509, 511] = Some (frame_no fx)"
    and run: "bind_op (on_machine (read_page_table_entry (ViaBootstrap bp) fx FIXMAP_FRAME_INDEX)) (\<lambda>existing.
       if existing \<noteq> 0 then err_op (PageAlreadyMapped FIXMAP_FRAME_BASE existing) else
       bind_op (map_page rf (ViaBootstrap bp) (VirtAddr FIXMAP_TABLE_BASE) fx ReadWrite Supervisor allocate) (\<lambda>_. ret_op fx)) (m, ba) = (r, m', ba')"
  shows "returns r \<and> tables.grows (ViaBootstrap bp) root (m0, ba0) (m', ba') \<and>
    (\<forall>g. r = Ok g \<longrightarrow> tab (mc_mem m') root [509, 511] = Some (frame_no g) \<and> leaf_entry (mc_mem m') root (509, 511, 1) = 0 \<and>
       maps_leaf root (509, 511, 0) (mk_pte (frame_no g) (leaf_flags ReadWrite Supervisor)) m0 m')"
proof -
  let ?A = "ViaBootstrap bp" and ?f = "frame_no fx"
  have in_tree: "?f \<in> tables (mc_mem m) root" by (rule tables_tab [OF _ fx(2)]) simp
  have ok: "access_ok ?A m" "tree_ok (mc_mem m) root" using M(1) by (simp_all add: tables.mapper_def)
  have rep: "representable ?f" by (rule tab_representable [OF _ fx(2)]) (use ok(2) in \<open>simp add: tree_ok_def\<close>)
  have far: "cell g i \<noteq> slot ?A" if "tab (mc_mem m) root [a, b] = Some g" "a < 512" "b < 512" "i < 512" for g a b i
  proof
    assume "cell g i = slot ?A"
    then have "slot ?A div 4096 = g" using that(4) by (metis cell_frame)
    then show False using M(2) tables_tab [OF _ that(1)] that by (simp add: tables.apart_def)
  qed
  define e where "e = pte_at (mc_mem m) ?f 1"
  have read: "read_page_table_entry ?A fx FIXMAP_FRAME_INDEX m = (Ok e, m)"
    using window.read_law [OF ok(1) fx(1) rep, of 1] far [OF fx(2), of 1] by (simp add: fixmap_addresses e_def)
  show ?thesis
  proof (cases "e = 0")
    case False
    then have "r = Err (PageAlreadyMapped FIXMAP_FRAME_BASE e)" "m' = m" "ba' = ba"
      using run read by (auto simp: bind_op_def on_machine_def)
    then show ?thesis using before by simp
  next
    case True
    obtain q m1 b1 where n: "map_page rf ?A (VirtAddr FIXMAP_TABLE_BASE) fx ReadWrite Supervisor allocate (m, ba) = (q, m1, b1)"
      by (rule prod_cases3)
    have page: "page_of_address (va (VirtAddr FIXMAP_TABLE_BASE)) = (509, 511, 0)"
      by (simp add: page_of_address_def fixmap_addresses fixmap_vpns)
    note S = tables.map_page_spec [OF M(1) rf fx(1) far n, unfolded page]
    then have S': "returns q" "tables.grows ?A root (m, ba) (m1, b1)"
        "q = Ok () \<Longrightarrow> maps_leaf root (509, 511, 0) (mk_pte ?f (leaf_flags ReadWrite Supervisor)) m m1" by auto
    have out: "r = bind_res q (\<lambda>_. Ok fx)" "m' = m1" "ba' = b1"
      using run read n True by (cases q; auto simp: bind_op_def on_machine_def)+
    have G: "tables.grows ?A root (m0, ba0) (m1, b1)" by (rule tables.grows_trans [OF before(1) S'(2)])
    have "tab (mc_mem m1) root [509, 511] = Some ?f" by (rule tables.grows_tab [OF S'(2) _ fx(2)]) simp
    moreover have "leaf_entry (mc_mem m1) root (509, 511, 1) = 0" if "q = Ok ()"
    proof -
      have "leaf_entry (mc_mem m) root (509, 511, 1) = 0" using True fx(2) by (simp add: leaf_entry_def e_def del: tab.simps)
      then show ?thesis using S'(3) [OF that] by (simp add: maps_leaf_def page_ok_def)
    qed
    moreover have "maps_leaf root (509, 511, 0) (mk_pte ?f (leaf_flags ReadWrite Supervisor)) m0 m1" if "q = Ok ()"
      using maps_leaf_after [OF before(2) S'(3) [OF that]] by (simp add: page_ok_def)
    ultimately show ?thesis using S'(1) G unfolding out by (cases q) auto
  qed
qed

lemma prepare_fixmap_spec:
  assumes M: "tables.mapper (ViaBootstrap bp) root (m, ba)" "tables.apart (ViaBootstrap bp) root m"
    and rf: "frame_ok rf" "frame_no rf = root" and run: "prepare_fixmap rf bp allocate (m, ba) = (r, m', ba')"
  shows "returns r \<and> tables.grows (ViaBootstrap bp) root (m, ba) (m', ba') \<and>
    (\<forall>fx. r = Ok fx \<longrightarrow> tab (mc_mem m') root [509, 511] = Some (frame_no fx) \<and> leaf_entry (mc_mem m') root (509, 511, 1) = 0 \<and>
       maps_leaf root (509, 511, 0) (mk_pte (frame_no fx) (leaf_flags ReadWrite Supervisor)) m m')"
proof -
  let ?A = "ViaBootstrap bp" and ?v2 = "drop_bit 30 FIXMAP_TABLE_BASE AND VPN_MASK" and ?v1 = "drop_bit 21 FIXMAP_TABLE_BASE AND VPN_MASK"
  obtain r1 m1 b1 where n1: "next_table ?A rf ?v2 allocate (m, ba) = (r1, m1, b1)" by (rule prod_cases3)
  note S1 = tables.next_table_spec [OF M(1), of "[]", OF _ _ rf(1) n1, unfolded append_Nil fixmap_words rf(2)]
  have S1': "returns r1" "tables.grows ?A root (m, ba) (m1, b1)" "same_leaves root m m1"
      "\<And>fr. r1 = Ok fr \<Longrightarrow> frame_ok fr \<and> tab (mc_mem m1) root [509] = Some (frame_no fr)"
    using S1 by auto
  have M1: "tables.mapper ?A root (m1, b1)" "tables.apart ?A root m1"
    using tables.grows_mapper [OF S1'(2)] tables.apart_grows [OF M(1) S1'(2) M(2)] by auto
  from S1'(1) show ?thesis
  proof (cases rule: returnsE)
    case (Err e)
    then have "r = Err e" "m' = m1" "ba' = b1" using run n1 by (auto simp: prepare_fixmap_def bind_op_def)
    then show ?thesis using S1' by simp
  next
    case (Ok l1)
    note l1 = S1'(4) [OF Ok]
    obtain r2 m2 b2 where n2: "next_table ?A l1 ?v1 allocate (m1, b1) = (r2, m2, b2)" by (rule prod_cases3)
    note S2 = tables.next_table_spec [OF M1(1), of "[509]", OF _ _ _ n2, unfolded append_Cons append_Nil fixmap_words]
    have S2': "returns r2" "tables.grows ?A root (m1, b1) (m2, b2)" "same_leaves root m1 m2"
        "\<And>fr. r2 = Ok fr \<Longrightarrow> frame_ok fr \<and> tab (mc_mem m2) root [509, 511] = Some (frame_no fr)"
      using S2 l1 by auto
    have M2: "tables.mapper ?A root (m2, b2)" "tables.apart ?A root m2"
      using tables.grows_mapper [OF S2'(2)] tables.apart_grows [OF M1(1) S2'(2) M1(2)] by auto
    have G2: "tables.grows ?A root (m, ba) (m2, b2)" by (rule tables.grows_trans [OF S1'(2) S2'(2)])
    have L2: "same_leaves root m m2" by (rule same_leaves_trans [OF S1'(3) S2'(3)])
    from S2'(1) show ?thesis
    proof (cases rule: returnsE)
      case (Err e)
      then have "r = Err e" "m' = m2" "ba' = b2" using run n1 n2 Ok by (auto simp: prepare_fixmap_def bind_op_def)
      then show ?thesis using G2 by simp
    next
      case fx: (Ok fx)
      then have run2: "bind_op (on_machine (read_page_table_entry ?A fx FIXMAP_FRAME_INDEX)) (\<lambda>existing.
           if existing \<noteq> 0 then err_op (PageAlreadyMapped FIXMAP_FRAME_BASE existing) else
           bind_op (map_page rf ?A (VirtAddr FIXMAP_TABLE_BASE) fx ReadWrite Supervisor allocate) (\<lambda>_. ret_op fx)) (m2, b2) = (r, m', ba')"
        using run n1 n2 Ok by (simp add: prepare_fixmap_def bind_op_def)
      show ?thesis by (rule fixmap_entry [OF M2 G2 L2 rf _ _ run2]) (use S2'(4) [OF fx] in simp_all)
    qed
  qed
qed

section \<open>The new address space\<close>

lemma window_flags: "leaf_flags ReadWrite Supervisor = FRAME_WINDOW_PTE_FLAGS"
  by (simp add: leaf_flags_cases FRAME_WINDOW_PTE_FLAGS_def PTE_VALID_def PTE_READ_def PTE_WRITE_def PTE_ACCESSED_def PTE_DIRTY_def)

lemma activate_root_eq:
  assumes "frame_ok f" "representable (frame_no f)"
  obtains w where "activate_root f m = (Ok (), m\<lparr>mc_satp := w\<rparr>)" "satp_root w = Some (frame_no f)"
proof
  let ?ppn = "drop_bit 12 (pa_as_usize (pf_start_address f))" and ?mode = "push_bit 60 SATP_MODE_SV39"
  show "activate_root f m = (Ok (), m\<lparr>mc_satp := ?mode OR ?ppn\<rparr>)" by (simp add: activate_root_def)
  have ppn: "unat ?ppn = frame_no f" "frame_no f < 2 ^ 44"
    using assms by (simp_all add: unat_drop_bit frame_no_def representable_def)
  have mode: "?mode = 2 ^ 63" by (simp add: SATP_MODE_SV39_def)
  have "\<not> bit ?ppn 63" using bit_imp_le_length [of "pa_as_usize (pf_start_address f)" 75] by (auto simp: bit_drop_bit_eq)
  then have "?mode AND ?ppn = 0" using and_single [of ?ppn 63] unfolding mode by (simp add: and.commute)
  then have "?mode OR ?ppn = ?mode + ?ppn" by (simp add: disjunctive_add_eq_or)
  then have "unat (?mode OR ?ppn) = 2 ^ 63 + frame_no f"
    using ppn unfolding mode by (simp add: unat_word_ariths)
  moreover have "(2 ^ 63 + frame_no f) div 2 ^ 60 = 8" by (rule div_nat_eqI) (use ppn(2) in simp_all)
  moreover have "(frame_no f + 2 ^ 19 * 2 ^ 44) mod 2 ^ 44 = frame_no f" using ppn(2) by (simp only: mod_mult_self1 mod_less)
  ultimately show "satp_root (?mode OR ?ppn) = Some (frame_no f)" by (simp add: satp_root_def add.commute)
qed

lemma kernel_ok_fixmap:
  assumes ok: "tree_ok (mc_mem m) root" and path: "tab (mc_mem m) root [509, 511] = Some (frame_no fx)"
    and leaf: "leaf_entry (mc_mem m) root (509, 511, 0) = mk_pte (frame_no fx) (leaf_flags ReadWrite Supervisor)"
      "leaf_entry (mc_mem m) root (509, 511, 1) = 0"
    and kp: "kernel_root kp = root" "kp_fixmap_table kp = fx" "kp_frame_slot kp = FIXMAP_TABLE_BASE + 8" and satp: "satp_root (mc_satp m) = Some root"
  shows "kernel_ok kp m"
proof -
  let ?f = "frame_no fx" and ?e = "pte_at (mc_mem m) root 509"
  obtain l1 where l1: "child (mc_mem m) root 509 = Some l1" "child (mc_mem m) l1 511 = Some ?f"
    using path by (auto split: option.splits)
  have t1: "tab (mc_mem m) root [509] = Some l1" using l1(1) by simp
  have e1: "pte_link ?e" "pte_ppn ?e = l1" using l1(1) by (auto simp: child_def Let_def split: if_splits)
  have e2: "pte_link (pte_at (mc_mem m) l1 511)" "pte_ppn (pte_at (mc_mem m) l1 511) = ?f"
    using l1(2) by (auto simp: child_def Let_def split: if_splits)
  have "unat ?e div 2 ^ 54 = 0" using tree_clean [OF ok, of "[]" 509 root] e1(1) by simp
  moreover have "unat (pte_at (mc_mem m) l1 511) div 2 ^ 54 = 0" using tree_clean [OF ok, of "[509]" 511 l1] e2(1) t1 by simp
  moreover have "representable ?f" by (rule tab_representable [OF _ path]) (use ok in \<open>simp add: tree_ok_def\<close>)
  moreover have "root \<noteq> ?f" using tree_inj [OF ok, of "[]" "[509, 511]" ?f] path by auto
  moreover have "l1 \<noteq> ?f" using tree_inj [OF ok, of "[509]" "[509, 511]" ?f] path t1 by auto
  moreover have "pte_at (mc_mem m) ?f 0 = mk_pte ?f FRAME_WINDOW_PTE_FLAGS" "pte_at (mc_mem m) ?f 1 = 0"
    using leaf path by (simp_all add: leaf_entry_def window_flags del: tab.simps)
  moreover have "kernel_fix kp = ?f" by (simp add: kernel_fix_def kp(2))
  ultimately show ?thesis using e1 e2 kp(1,3) satp by (simp add: kernel_ok_def Let_def link_to_def)
qed

text \<open>The state before the switch: the bootstrap window works and its table is not available.\<close>

definition boot_space :: "bootstrap_paging \<Rightarrow> machine \<times> boot_frame_allocator \<Rightarrow> bool" where
  "boot_space bp ms \<longleftrightarrow> (case ms of (m, ba) \<Rightarrow> boot_ok bp m \<and> ba_inv ba \<and> boot_root bp \<notin> set (free_frames ba))"

lemma boot_space_clear: "tables.frames_clear (ViaBootstrap bp) ms \<longleftrightarrow> boot_space bp ms"
  by (cases ms) (simp only: tables.frames_clear_def boot_space_def prod.case, auto simp: access_ok_def guard_def slot_def)

lemma boot_space_grows: "tables.grows (ViaBootstrap bp) root (m, ba) (m', ba') \<Longrightarrow> boot_space bp (m', ba') \<and> mc_satp m' = mc_satp m"
  using tables.mapper_clear [OF tables.grows_mapper, of "ViaBootstrap bp" root "(m, ba)" "(m', ba')", unfolded boot_space_clear]
  by (simp add: tables.grows_def)

definition FIXMAP_PAGE :: page where "FIXMAP_PAGE = (509, 511, 0)"

text \<open>What the new root maps: the sections, the blob and the table of the window, and nothing else.\<close>

definition kernel_mapped ::
    "mem \<Rightarrow> nat \<Rightarrow> PhysAddr \<Rightarrow> kernel_sections \<Rightarrow> virt_range \<Rightarrow> PhysFrame \<Rightarrow> bool" where
  "kernel_mapped m root start sections dtb dtb_frame \<longleftrightarrow>
     sections_mapped m root start sections (section_list sections) \<and> range_mapped m root dtb (frame_no dtb_frame) ReadOnly \<and>
     (\<forall>v. page_ok v \<longrightarrow> leaf_entry m root v \<noteq> 0 \<longrightarrow> v \<in> sections_run (section_list sections) \<union> range_run dtb \<union> {FIXMAP_PAGE})"

lemma dtb_page_mapping_Ok:
  "dtb_page_mapping a rng = Ok (dtb, fr) \<Longrightarrow> virt_range_ok dtb \<and> frame_ok fr"
  by (auto simp: dtb_page_mapping_def Let_def phys_frame_from_start_Some frame_ok_def virt_range_new_Some virt_range_ok_def
      split: if_splits option.splits)

lemma dtb_page_mapping_returns: "returns (dtb_page_mapping a rng)"
  by (simp add: dtb_page_mapping_def Let_def returns_bind)

section \<open>Building the tables\<close>

definition build_tables ::
    "bootstrap_paging \<Rightarrow> PhysFrame \<Rightarrow> PhysAddr \<Rightarrow> kernel_sections \<Rightarrow> virt_range \<Rightarrow> PhysFrame \<Rightarrow> 's frames \<Rightarrow>
     (machine \<times> 's, PhysFrame, PagingError) op" where
  "build_tables bp root start sections dtb dtb_frame alloc =
     bind_op (for_op (map_section bp root start sections alloc) (section_list sections)) (\<lambda>_.
     bind_op (map_range root (ViaBootstrap bp) dtb dtb_frame ReadOnly alloc) (\<lambda>_.
     prepare_fixmap root bp alloc))"

lemma into_kernel_build:
  "into_kernel bp start sections dtb_virtual dtb_physical alloc =
     bind_op (lift_op (dtb_page_mapping dtb_virtual dtb_physical)) (\<lambda>(dtb, dtb_frame).
     bind_op (page_table_new (ViaBootstrap bp) alloc) (\<lambda>root.
     bind_op (build_tables bp (af_frame root) start sections dtb dtb_frame alloc) (\<lambda>fx.
     bind_op (on_machine (activate_root (af_frame root))) (\<lambda>_.
     ret_op \<lparr>kp_root = root, kp_fixmap_table = fx, kp_dtb_mapping = dtb,
             kp_frame_slot = FIXMAP_TABLE_BASE + 8 * FIXMAP_FRAME_INDEX, kp_heap_claimed = False\<rparr>))))"
  unfolding into_kernel_def build_tables_def bind_op_assoc Let_def by simp

lemma build_tables_spec:
  assumes M: "tables.mapper (ViaBootstrap bp) root (m, ba)" "tables.apart (ViaBootstrap bp) root m"
    and empty: "\<And>v. page_ok v \<Longrightarrow> leaf_entry (mc_mem m) root v = 0" and rf: "frame_ok rf" "frame_no rf = root"
    and ok: "sections_ok (section_list sections)" "virt_range_ok dtb" "frame_ok dtb_frame"
    and run: "build_tables bp rf start sections dtb dtb_frame allocate (m, ba) = (r, m', ba')"
  shows "returns r \<and> tables.grows (ViaBootstrap bp) root (m, ba) (m', ba') \<and>
    (\<forall>fx. r = Ok fx \<longrightarrow> tab (mc_mem m') root [509, 511] = Some (frame_no fx) \<and>
       leaf_entry (mc_mem m') root (509, 511, 0) = mk_pte (frame_no fx) (leaf_flags ReadWrite Supervisor) \<and>
       leaf_entry (mc_mem m') root (509, 511, 1) = 0 \<and> kernel_mapped (mc_mem m') root start sections dtb dtb_frame)"
proof -
  let ?A = "ViaBootstrap bp" and ?S = "sections_run (section_list sections)"
  obtain r1 m1 b1 where n1: "for_op (map_section bp rf start sections allocate) (section_list sections) (m, ba) = (r1, m1, b1)" by (rule prod_cases3)
  note S1 = map_sections_spec [OF M rf ok(1) n1]
  have G1: "tables.grows ?A root (m, ba) (m1, b1)" using S1 by blast
  have "returns (fst (for_op (map_section bp rf start sections allocate) (section_list sections) (m, ba)))" using S1 n1 by simp
  from run [unfolded build_tables_def] this show ?thesis
  proof (cases rule: bind_op_returns)
    case (Err e)
    then show ?thesis using G1 n1 by simp
  next
    case (Ok u s1)
    then have s1: "s1 = (m1, b1)" "r1 = Ok ()" using n1 by auto
    obtain r2 m2 b2 where n2: "map_range rf ?A dtb dtb_frame ReadOnly allocate (m1, b1) = (r2, m2, b2)" by (rule prod_cases3)
    have M1: "tables.mapper ?A root (m1, b1)" "tables.apart ?A root m1" using tables.grows_mapper [OF G1] S1 by auto
    note S2 = tables.map_range_mapped [OF M1 rf ok(3,2) n2]
    have G2: "tables.grows ?A root (m1, b1) (m2, b2)" using S2 by blast
    have G12: "tables.grows ?A root (m, ba) (m2, b2)" by (rule tables.grows_trans [OF G1 G2])
    have "returns (fst (map_range rf ?A dtb dtb_frame ReadOnly allocate (m1, b1)))" using S2 n2 by simp
    from Ok(2) [unfolded s1(1)] this show ?thesis
    proof (cases rule: bind_op_returns)
      case (Err e)
      then show ?thesis using G12 n2 by simp
    next
      case (Ok u' s2)
      then have s2: "s2 = (m2, b2)" "r2 = Ok ()" using n2 by auto
      have M2: "tables.mapper ?A root (m2, b2)" "tables.apart ?A root m2" using tables.grows_mapper [OF G2] S2 by auto
      note S3 = prepare_fixmap_spec [OF M2 rf Ok(2) [unfolded s2(1)]]
      have G3: "tables.grows ?A root (m, ba) (m', ba')" using tables.grows_trans [OF G12] S3 by blast
      have "leaf_entry (mc_mem m') root (509, 511, 0) = mk_pte (frame_no fx) (leaf_flags ReadWrite Supervisor) \<and>
          kernel_mapped (mc_mem m') root start sections dtb dtb_frame" if "r = Ok fx" for fx
      proof
        have leaf: "maps_leaf root FIXMAP_PAGE (mk_pte (frame_no fx) (leaf_flags ReadWrite Supervisor)) m2 m'"
          using S3 that by (simp add: FIXMAP_PAGE_def)
        then show "leaf_entry (mc_mem m') root (509, 511, 0) = mk_pte (frame_no fx) (leaf_flags ReadWrite Supervisor)"
          unfolding maps_leaf_def FIXMAP_PAGE_def by (simp add: page_ok_def)
        have A: "adds_leaves root ?S m m1" "adds_leaves root (range_run dtb) m1 m2" "adds_leaves root {FIXMAP_PAGE} m2 m'"
          using S1 S2 s1(2) s2(2) adds_leaves_one [OF leaf] by auto
        have "adds_leaves root (range_run dtb \<union> {FIXMAP_PAGE}) m1 m'" by (rule adds_leaves_trans [OF A(2,3)]) auto
        then have all: "adds_leaves root (?S \<union> range_run dtb \<union> {FIXMAP_PAGE}) m m'" by (rule adds_leaves_trans [OF A(1)]) auto
        have "sections_mapped (mc_mem m') root start sections (section_list sections)"
          using sections_mapped_adds [OF sections_mapped_adds [OF _ A(2)] A(3)] S1 s1(2) by blast
        moreover have "range_mapped (mc_mem m') root dtb (frame_no dtb_frame) ReadOnly"
          using range_mapped_adds [OF _ A(3)] S2 s2(2) by blast
        ultimately show "kernel_mapped (mc_mem m') root start sections dtb dtb_frame"
          using all empty unfolding kernel_mapped_def adds_leaves_def by metis
      qed
      then show ?thesis using S3 G3 by blast
    qed
  qed
qed

text \<open>The kernel's address space from the tables that were built, once they are active.\<close>

lemma switched_space:
  assumes M: "tables.mapper (ViaBootstrap bp) root (m, ba)" and root: "frame_ok (af_frame rt)" "frame_no (af_frame rt) = root"
    and fx: "tab (mc_mem m) root [509, 511] = Some (frame_no fx)"
      "leaf_entry (mc_mem m) root (509, 511, 0) = mk_pte (frame_no fx) (leaf_flags ReadWrite Supervisor)"
      "leaf_entry (mc_mem m) root (509, 511, 1) = 0" and satp: "satp_root w = Some root"
    and kp: "kp_root kp = rt" "kp_fixmap_table kp = fx" "kp_frame_slot kp = FIXMAP_TABLE_BASE + 8"
  shows "address_space kp (m\<lparr>mc_satp := w\<rparr>, ba)"
proof -
  have ok: "tree_ok (mc_mem m) root" "ba_inv ba" "\<forall>g\<in>set (free_frames ba). g \<notin> tables (mc_mem m) root"
    using M by (auto simp: tables.mapper_def)
  have kr: "kernel_root kp = root" using kp(1) root(2) by (simp add: kernel_root_def)
  have "kernel_ok kp (m\<lparr>mc_satp := w\<rparr>)"
    by (rule kernel_ok_fixmap [of _ root fx]) (use ok(1) fx kr kp(2,3) satp in \<open>simp_all del: tab.simps\<close>)
  then show ?thesis using ok root(1) kr kp(1) by (auto simp: address_space_def)
qed

section \<open>The switch\<close>

lemma into_kernel_spec:
  assumes boot: "boot_space bp (m, ba)" and ok: "sections_ok (section_list sections)"
    and run: "into_kernel bp start sections dtb_virtual dtb_physical allocate (m, ba) = (r, m', ba')"
  shows "returns r \<and> (\<forall>e. r = Err e \<longrightarrow> boot_space bp (m', ba') \<and> mc_satp m' = mc_satp m) \<and>
    (\<forall>kp. r = Ok kp \<longrightarrow> address_space kp (m', ba') \<and> \<not> kp_heap_claimed kp \<and>
       (\<exists>fr. dtb_page_mapping dtb_virtual dtb_physical = Ok (kp_dtb_mapping kp, fr) \<and>
          kernel_mapped (mc_mem m') (kernel_root kp) start sections (kp_dtb_mapping kp) fr))"
proof (cases "dtb_page_mapping dtb_virtual dtb_physical")
  case (Ok d)
  obtain dtb dfr where d: "d = (dtb, dfr)" by (cases d)
  have dok: "virt_range_ok dtb" "frame_ok dfr" using dtb_page_mapping_Ok Ok d by auto
  let ?A = "ViaBootstrap bp"
  obtain r1 m1 b1 where n1: "page_table_new ?A allocate (m, ba) = (r1, m1, b1)" by (rule prod_cases3)
  note S1 = tables.fresh_root [OF boot [folded boot_space_clear] n1 [unfolded page_table_new_def], unfolded boot_space_clear]
  have "returns (fst (page_table_new ?A allocate (m, ba)))" using S1 n1 by simp
  from run [unfolded into_kernel_build Ok d, simplified bind_op_def [of "lift_op _"] op_simps_basic prod.case res.case] this
  show ?thesis
  proof (cases rule: bind_op_returns)
    case (Err e)
    then show ?thesis using S1 n1 by auto
  next
    case (Ok rt s1)
    then have s1: "s1 = (m1, b1)" "r1 = Ok rt" using n1 by auto
    let ?root = "frame_no (af_frame rt)"
    have rt: "frame_ok (af_frame rt)" "tables.mapper ?A ?root (m1, b1)" "tables.apart ?A ?root m1"
        "\<And>v. page_ok v \<Longrightarrow> leaf_entry (mc_mem m1) ?root v = 0" using S1 s1(2) by auto
    obtain r2 m2 b2 where n2: "build_tables bp (af_frame rt) start sections dtb dfr allocate (m1, b1) = (r2, m2, b2)" by (rule prod_cases3)
    note S2 = build_tables_spec [OF rt(2-4,1) refl ok dok n2]
    have G2: "tables.grows ?A ?root (m1, b1) (m2, b2)" using S2 by blast
    have "returns (fst (build_tables bp (af_frame rt) start sections dtb dfr allocate (m1, b1)))" using S2 n2 by simp
    from Ok(2) [unfolded s1(1)] this show ?thesis
    proof (cases rule: bind_op_returns)
      case (Err e)
      then show ?thesis using boot_space_grows [OF G2] S1 n2 by auto
    next
      case (Ok fx s2)
      then have s2: "s2 = (m2, b2)" "r2 = Ok fx" using n2 by auto
      have rep: "representable ?root" using rt(2) by (simp add: tables.mapper_def tree_ok_def)
      obtain w where w: "activate_root (af_frame rt) m2 = (Ok () :: (unit, PagingError) res, m2\<lparr>mc_satp := w\<rparr>)" "satp_root w = Some ?root"
        using activate_root_eq [OF rt(1) rep] by metis
      let ?kp = "\<lparr>kp_root = rt, kp_fixmap_table = fx, kp_dtb_mapping = dtb,
             kp_frame_slot = FIXMAP_TABLE_BASE + 8 * FIXMAP_FRAME_INDEX, kp_heap_claimed = False\<rparr>"
      have out: "r = Ok ?kp" "m' = m2\<lparr>mc_satp := w\<rparr>" "ba' = b2"
        using Ok(2) w(1) unfolding s2(1) by (auto simp: bind_op_def on_machine_def)
      have "address_space ?kp (m2\<lparr>mc_satp := w\<rparr>, b2)"
        by (rule switched_space [OF tables.grows_mapper [OF G2] rt(1) refl _ _ _ w(2)])
          (use S2 s2(2) in \<open>auto simp: fixmap_addresses simp del: tab.simps\<close>)
      then show ?thesis using S2 s2(2) unfolding out \<open>dtb_page_mapping dtb_virtual dtb_physical = Ok d\<close> d by (simp add: kernel_root_def)
    qed
  qed
qed (use boot run dtb_page_mapping_returns [of dtb_virtual dtb_physical] in \<open>auto simp: into_kernel_def bind_op_def\<close>)

end
