(* ===== verification/Sample_Kernel.thy ===== *)
theory Sample_Kernel
  imports Sample_Boot Kernel_Switch
begin

text \<open>
  Concrete states of the paging code: the boot allocator of the sample blob, whose frames are between
  \<open>0x80000\<close> and \<open>0x88000\<close>, and tables in the frames from \<open>0x90000\<close> on.
\<close>

section \<open>Frames\<close>

lemma sample_memory_list:
  "case fdt_from_ptr sample_memory sample_address of
     Ok f \<Rightarrow> map (\<lambda>r. (mmr_address r, mmr_size r)) (fdt_memory_list f) = [(0x80000000, 0x8000000)]
   | _ \<Rightarrow> False"
  by code_simp

lemma sample_more_frames:
  "case fdt_from_ptr sample_memory sample_address of
     Ok f \<Rightarrow>
       (case fst (boot_claim False f sample_kernel sample_dtb) of
          Ok ba \<Rightarrow>
            (case allocate ba of
               Ok (fr, ba1) \<Rightarrow> fr = Some (AllocatedFrame (PhysFrame (PhysAddr 0x80003000))) \<and>
                 (case allocate ba1 of
                    Ok (fr, ba2) \<Rightarrow> fr = Some (AllocatedFrame (PhysFrame (PhysAddr 0x80004000))) \<and>
                      (case allocate ba2 of
                         Ok (fr, ba3) \<Rightarrow> fr = Some (AllocatedFrame (PhysFrame (PhysAddr 0x80005000)))
                       | _ \<Rightarrow> False)
                  | _ \<Rightarrow> False)
             | _ \<Rightarrow> False)
        | _ \<Rightarrow> False)
   | _ \<Rightarrow> False"
  by code_simp

definition sample_allocator :: boot_frame_allocator where
  "sample_allocator =
     (case fdt_from_ptr sample_memory sample_address of
        Ok f \<Rightarrow> (case fst (boot_claim False f sample_kernel sample_dtb) of Ok ba \<Rightarrow> ba))"

lemma sample_allocator_state:
  "ba_inv sample_allocator" "n \<in> set (free_frames sample_allocator) \<Longrightarrow> 0x80000 \<le> n \<and> n < 0x88000"
  "\<exists>rest. free_frames sample_allocator = 0x80003 # 0x80004 # 0x80005 # rest"
proof -
  obtain f where f: "fdt_from_ptr sample_memory sample_address = Ok f" by (rule sample_fdt)
  obtain ba c' where ba: "boot_claim False f sample_kernel sample_dtb = (Ok ba, c')"
    using sample_more_frames f by (cases "boot_claim False f sample_kernel sample_dtb") (auto split: res.splits)
  have eq: "sample_allocator = ba" by (simp add: sample_allocator_def f ba)
  obtain t xs where state: "fdt_rep f t xs" "ba_inv ba"
      and free: "\<And>n. n \<in> set (free_frames ba) \<longleftrightarrow>
        (\<exists>r\<in>set (fdt_memory_list f). frame_addrs n \<subseteq> mem_region r) \<and> \<not> reserved_frame (ba_reserved ba) n"
    by (rule claimed_state [OF f sample_ranges_ok ba]) blast
  show "ba_inv sample_allocator" using state(2) eq by simp
  have region: "mem_region r = {0x80000000 ..< 0x88000000}" if "r \<in> set (fdt_memory_list f)" for r
  proof -
    have "(mmr_address r, mmr_size r) \<in> set (map (\<lambda>r. (mmr_address r, mmr_size r)) (fdt_memory_list f))" using that by auto
    moreover have "map (\<lambda>r. (mmr_address r, mmr_size r)) (fdt_memory_list f) = [(0x80000000, 0x8000000)]"
      using sample_memory_list f by simp
    ultimately have "mmr_address r = 0x80000000" "mmr_size r = 0x8000000" by simp_all
    then show ?thesis by (simp add: mem_region_def)
  qed
  show "0x80000 \<le> n \<and> n < 0x88000" if n: "n \<in> set (free_frames sample_allocator)"
  proof -
    obtain r where r: "r \<in> set (fdt_memory_list f)" "frame_addrs n \<subseteq> mem_region r" using n unfolding eq free by blast
    have "n * 4096 \<in> frame_addrs n" by (simp add: frame_addrs_def)
    then have "n * 4096 \<in> {0x80000000 ..< 0x88000000}" using r region by blast
    then show ?thesis by simp
  qed
  obtain x ba1 where a1: "allocate ba = Ok (x, ba1)" using sample_more_frames f ba by (cases "allocate ba") auto
  obtain y ba2 where a2: "allocate ba1 = Ok (y, ba2)" using sample_more_frames f ba a1 by (cases "allocate ba1") auto
  obtain z ba3 where a3: "allocate ba2 = Ok (z, ba3)" using sample_more_frames f ba a1 a2 by (cases "allocate ba2") auto
  have "x = Some (AllocatedFrame (PhysFrame (PhysAddr 0x80003000)))" "y = Some (AllocatedFrame (PhysFrame (PhysAddr 0x80004000)))"
      "z = Some (AllocatedFrame (PhysFrame (PhysAddr 0x80005000)))"
    using sample_more_frames f ba a1 a2 a3 by simp_all
  with a1 a2 a3 have "allocate ba = Ok (Some (AllocatedFrame (PhysFrame (PhysAddr 0x80003000))), ba1)"
      "allocate ba1 = Ok (Some (AllocatedFrame (PhysFrame (PhysAddr 0x80004000))), ba2)"
      "allocate ba2 = Ok (Some (AllocatedFrame (PhysFrame (PhysAddr 0x80005000))), ba3)" by simp_all
  then have "allocates allocate ba [PhysFrame (PhysAddr 0x80003000), PhysFrame (PhysAddr 0x80004000), PhysFrame (PhysAddr 0x80005000)] ba3"
    using allocates_some [of allocate] allocates_none by (metis AllocatedFrame.sel)
  from boot.allocates_prefix [OF this state(2)]
  show "\<exists>rest. free_frames sample_allocator = 0x80003 # 0x80004 # 0x80005 # rest" by (simp add: eq frame_no_def)
qed

section \<open>Before the switch\<close>

definition sample_boot_paging :: bootstrap_paging where
  "sample_boot_paging = \<lparr>bp_root_virtual = VirtAddr 0x90000000\<rparr>"

definition sample_boot_machine :: machine where
  "sample_boot_machine = \<lparr>mc_mem = set_entry (\<lambda>_. 0) 0x90000 2 (mk_pte 0x80000 FRAME_WINDOW_PTE_FLAGS), mc_satp = 0x8000000000090000\<rparr>"

lemma zero_entry [simp]: "pte_at (\<lambda>_. 0) f i = 0"
  by (simp add: load64_def)

lemma sample_boot_ok: "boot_ok sample_boot_paging sample_boot_machine"
proof -
  have "representable 0x80000" by (simp add: representable_def)
  note w = window_pte [OF this]
  have "vpn 2 0x90000000 = 2" by (simp add: vpn_def)
  then show ?thesis
    using w by (simp add: boot_ok_def boot_root_def sample_boot_paging_def sample_boot_machine_def entry_set_entry
        window_leaf_def satp_root_def Let_def)
qed

lemma sample_boot_space: "boot_space sample_boot_paging (sample_boot_machine, sample_allocator)"
  using sample_boot_ok sample_allocator_state(1) sample_allocator_state(2) [of "0x90000"]
  by (auto simp: boot_space_def boot_root_def sample_boot_paging_def)

section \<open>After the switch\<close>

definition sample_upper :: mem where
  "sample_upper = link_table (\<lambda>_. 0) 0x90000 509 0x90001 (mk_pte 0x90001 PTE_VALID)"

definition sample_tables :: mem where
  "sample_tables = link_table sample_upper 0x90001 511 0x90002 (mk_pte 0x90002 PTE_VALID)"

definition sample_machine :: machine where
  "sample_machine = \<lparr>mc_mem = set_entry sample_tables 0x90002 0 (mk_pte 0x90002 FRAME_WINDOW_PTE_FLAGS), mc_satp = 0x8000000000090000\<rparr>"

definition sample_paging :: kernel_paging where
  "sample_paging = \<lparr>kp_root = AllocatedFrame (frame_of 0x90000), kp_fixmap_table = frame_of 0x90002,
     kp_dtb_mapping = \<lparr>vr_start = VirtAddr 0xFFFFFFC000000000, vr_end = VirtAddr 0xFFFFFFC000001000\<rparr>,
     kp_frame_slot = FIXMAP_TABLE_BASE + 8, kp_heap_claimed = False\<rparr>"

lemma sample_representable: "representable 0x90000" "representable 0x90001" "representable 0x90002"
  by (simp_all add: representable_def)

lemma sample_upper_link: "linkable (\<lambda>_. 0) 0x90000 [] 509 0x90000 0x90001 (mk_pte 0x90001 PTE_VALID)"
  using empty_table [of "\<lambda>_. 0" "0x90000"] sample_representable(1) link_pte [OF sample_representable(2)]
  by (simp add: linkable_def)

lemma sample_tables_link: "linkable sample_upper 0x90000 [509] 511 0x90001 0x90002 (mk_pte 0x90002 PTE_VALID)"
proof -
  have t: "tables sample_upper 0x90000 = {0x90000, 0x90001}"
    unfolding sample_upper_def tables_link [OF sample_upper_link]
    using empty_table(1) [of "\<lambda>_. 0" "0x90000"] sample_representable(1) by auto
  have "pte_at sample_upper 0x90001 511 = 0" using link_entry [OF sample_upper_link, of 511 "0x90001"] by (simp add: sample_upper_def)
  moreover have "tab sample_upper 0x90000 [509] = Some 0x90001"
    unfolding sample_upper_def using tab_link [OF sample_upper_link, of "[509]"] by simp
  ultimately show ?thesis
    using t tree_ok_link [OF sample_upper_link] link_pte [OF sample_representable(3)] by (simp add: linkable_def sample_upper_def [symmetric])
qed

lemma sample_tree:
  "tree_ok (mc_mem sample_machine) 0x90000" "tab (mc_mem sample_machine) 0x90000 [509, 511] = Some 0x90002"
  "tables (mc_mem sample_machine) 0x90000 = {0x90000, 0x90001, 0x90002}"
  "page_ok v \<Longrightarrow> leaf_entry (mc_mem sample_machine) 0x90000 v = (if v = (509, 511, 0) then mk_pte 0x90002 FRAME_WINDOW_PTE_FLAGS else 0)"
proof -
  note L = sample_upper_link sample_tables_link
  have ok: "tree_ok sample_tables 0x90000" unfolding sample_tables_def by (rule tree_ok_link [OF L(2)])
  have t: "tables sample_tables 0x90000 = {0x90000, 0x90001, 0x90002}"
    unfolding sample_tables_def tables_link [OF L(2)] unfolding sample_upper_def tables_link [OF L(1)]
    using empty_table(1) [of "\<lambda>_. 0" "0x90000"] sample_representable(1) by auto
  have p: "tab sample_tables 0x90000 [509, 511] = Some 0x90002"
    unfolding sample_tables_def using tab_link [OF L(2), of "[509, 511]"] by simp
  have e: "page_ok v \<Longrightarrow> leaf_entry sample_tables 0x90000 v = 0" for v
    unfolding sample_tables_def leaf_entry_link [OF L(2)] unfolding sample_upper_def leaf_entry_link [OF L(1)]
    using empty_table(3) [of "\<lambda>_. 0" "0x90000"] sample_representable(1) by simp
  note W = leaf_write [OF ok, of 509 511 0 "0x90002", OF _ _ _ p]
  show "tree_ok (mc_mem sample_machine) 0x90000" "tab (mc_mem sample_machine) 0x90000 [509, 511] = Some 0x90002"
    "tables (mc_mem sample_machine) 0x90000 = {0x90000, 0x90001, 0x90002}"
    "page_ok v \<Longrightarrow> leaf_entry (mc_mem sample_machine) 0x90000 v = (if v = (509, 511, 0) then mk_pte 0x90002 FRAME_WINDOW_PTE_FLAGS else 0)"
    using W t p e by (simp_all add: sample_machine_def del: tab.simps)
qed

lemma sample_space: "address_space sample_paging (sample_machine, sample_allocator)"
proof -
  have fx: "frame_no (frame_of 0x90002) = 0x90002" "frame_no (frame_of 0x90000) = 0x90000"
    using sample_representable by simp_all
  have root: "kernel_root sample_paging = 0x90000" by (simp add: kernel_root_def sample_paging_def fx)
  have "kernel_ok sample_paging sample_machine"
    by (rule kernel_ok_fixmap [of _ "0x90000" "frame_of 0x90002"])
      (simp_all add: sample_tree fx root window_flags page_ok_def satp_root_def del: tab.simps,
        simp_all add: sample_paging_def sample_machine_def)
  moreover have "frame_ok (af_frame (kp_root sample_paging))" using sample_representable(1) by (simp add: sample_paging_def)
  moreover have "set (free_frames sample_allocator) \<inter> {0x90000, 0x90001, 0x90002} = {}"
    using sample_allocator_state(2) [of "0x90000"] sample_allocator_state(2) [of "0x90001"] sample_allocator_state(2) [of "0x90002"] by auto
  ultimately show ?thesis using sample_tree(1,3) sample_allocator_state(1) by (simp add: address_space_def root)
qed

lemma sample_frames_usable:
  "3 \<le> length (free_frames sample_allocator)" "\<forall>g\<in>set (take 3 (free_frames sample_allocator)). representable g"
  using sample_allocator_state(3) by (auto simp: representable_def)

lemma sample_root_kp: "kernel_root sample_paging = 0x90000"
  using sample_representable(1) by (simp add: kernel_root_def sample_paging_def)

lemma sample_slot_free: "pte_at (mc_mem sample_machine) (kernel_root sample_paging) 384 = 0"
proof -
  have "pte_at sample_tables 0x90000 384 = 0"
    using link_entry [OF sample_tables_link, of 384 "0x90000"] link_entry [OF sample_upper_link, of 384 "0x90000"]
    by (simp add: sample_tables_def sample_upper_def)
  then show ?thesis by (simp add: sample_root_kp sample_machine_def entry_set_entry)
qed

lemma sample_claim:
  obtains h kp m ba where "claim_heap allocate (sample_paging, sample_machine, sample_allocator) = (Ok h, kp, m, ba)"
    "heap_state kp h (m, ba)" "hp_cursor h = VirtAddr HEAP_END" "hp_mapped_start h \<noteq> VirtAddr HEAP_END"
proof -
  obtain h where h: "fst (claim_heap allocate (sample_paging, sample_machine, sample_allocator)) = Ok h"
    using claim_heap_succeeds [OF sample_space _ sample_slot_free sample_frames_usable] by (auto simp: sample_paging_def)
  obtain r kp m ba where c: "claim_heap allocate (sample_paging, sample_machine, sample_allocator) = (r, kp, m, ba)" by (rule prod_cases4)
  from claim_heap_state [OF sample_space c] h c that show thesis by auto
qed

end
