(* ===== verification/Sbi.thy ===== *)
theory Sbi
  imports State_Result Word_Bits Address
begin

text \<open>
  Calls of the supervisor binary interface, \<open>kernel/src/firmware/sbi.rs\<close>, and the console over
  them, \<open>kernel/src/console/sbi.rs\<close>.  The firmware and the time counter are not part of the
  sources: they are the parameter \<open>'w platform\<close>, functions over an outside world of type
  \<open>'w\<close>, with the two code addresses the linker gives to the labels of the counter probe.  A returned \<open>isize\<close> is the signed value of a 64-bit word.
\<close>

record 'w platform =
  pf_ecall :: "kusize \<Rightarrow> kusize \<Rightarrow> u64 \<Rightarrow> 'w \<Rightarrow> kusize \<times> 'w"
  pf_rdtime :: "'w \<Rightarrow> u64"
  pf_time_readable :: "'w \<Rightarrow> bool"
  pf_probe_read :: kusize
  pf_probe_unavailable :: kusize

section \<open>Model\<close>

definition DBCN_EID :: kusize where "DBCN_EID = 0x4442434E"
definition DBCN_WRITE_BYTE_FID :: kusize where "DBCN_WRITE_BYTE_FID = 2"
definition TIME_EID :: kusize where "TIME_EID = 0x54494d45"
definition SET_TIMER_FID :: kusize where "SET_TIMER_FID = 0"

datatype SetTimerError = SetTimerNotSupported | SetTimerDenied | SetTimerUnexpected int

datatype WriteByteError = WriteByteFailed | WriteByteDenied | WriteByteUnexpected int

definition sbi_call :: "'w platform \<Rightarrow> kusize \<Rightarrow> kusize \<Rightarrow> u64 \<Rightarrow> 'w \<Rightarrow> int \<times> 'w" where
  "sbi_call pf extension func argument w =
     (case pf_ecall pf extension func argument w of (a0, w') \<Rightarrow> (sint a0, w'))"

definition sbi_write_byte :: "'w platform \<Rightarrow> u8 \<Rightarrow> ('w, unit, WriteByteError) op" where
  "sbi_write_byte pf byte w =
     (case sbi_call pf DBCN_EID DBCN_WRITE_BYTE_FID (ucast byte) w of (code, w') \<Rightarrow>
        (if code = 0 then Ok ()
         else if code = - 1 then Err WriteByteFailed
         else if code = - 4 then Err WriteByteDenied
         else Err (WriteByteUnexpected code), w'))"

definition sbi_set_timer :: "'w platform \<Rightarrow> u64 \<Rightarrow> ('w, unit, SetTimerError) op" where
  "sbi_set_timer pf deadline w =
     (case sbi_call pf TIME_EID SET_TIMER_FID deadline w of (code, w') \<Rightarrow>
        (if code = 0 then Ok ()
         else if code = - 2 then Err SetTimerNotSupported
         else if code = - 4 then Err SetTimerDenied
         else Err (SetTimerUnexpected code), w'))"

text \<open>\<open>fmt::Error\<close> carries no information.\<close>

definition console_write_byte :: "'w platform \<Rightarrow> u8 \<Rightarrow> ('w, unit, unit) op" where
  "console_write_byte pf byte = map_err_op (\<lambda>_. ()) (sbi_write_byte pf byte)"

definition console_write_str :: "'w platform \<Rightarrow> bytes \<Rightarrow> ('w, unit, unit) op" where
  "console_write_str pf string = for_op (console_write_byte pf) string"

section \<open>Behaviour\<close>

lemma sint_eq_0 [simp]: "sint (w :: kusize) = 0 \<longleftrightarrow> w = 0"
  by (metis signed_0 signed_word_eqI)

lemma console_write_byte_returns: "returns (fst (console_write_byte pf b w))"
  by (simp add: console_write_byte_def map_err_op_def sbi_write_byte_def split: prod.split)

lemma console_write_byte_Ok:
  "fst (console_write_byte pf b w) = Ok () \<longleftrightarrow> fst (pf_ecall pf DBCN_EID DBCN_WRITE_BYTE_FID (ucast b) w) = 0"
  by (auto simp: console_write_byte_def map_err_op_def sbi_write_byte_def sbi_call_def split: prod.splits)

lemma set_timer_Ok:
  "fst (sbi_set_timer pf d w) = Ok () \<longleftrightarrow> fst (pf_ecall pf TIME_EID SET_TIMER_FID d w) = 0"
  by (auto simp: sbi_set_timer_def sbi_call_def split: prod.splits)

lemma set_timer_returns: "returns (fst (sbi_set_timer pf d w))"
  by (simp add: sbi_set_timer_def split: prod.split)

text \<open>The world after a string is the world after its bytes, up to the first one that fails.\<close>

lemma console_write_str_append:
  "console_write_str pf (xs @ ys) = bind_op (console_write_str pf xs) (\<lambda>_. console_write_str pf ys)"
  by (simp add: console_write_str_def for_op_append)

end
