(* ===== verification/Hart.thy ===== *)
theory Hart
  imports Sbi
begin

text \<open>
  The state of the running hart that the kernel's interrupt, time and timer code changes:
  \<open>kernel/src/arch/riscv64/interrupt.rs\<close>, \<open>time.rs\<close> and \<open>timer.rs\<close>.  The control registers
  \<open>sstatus\<close> and \<open>sie\<close> and the statics \<open>STATE\<close>, \<open>INTERVAL\<close>, \<open>TICKS\<close> and
  \<open>USER_TICKS\<close> are fields; the firmware's world is one too.  The counter probe itself, which takes
  a trap, is with the trap handler.
\<close>

unbundle bit_operations_syntax

section \<open>Model\<close>

record 'w hart =
  ht_sstatus :: kusize
  ht_sie :: kusize
  ht_time_state :: u8
  ht_interval :: u64
  ht_ticks :: u64
  ht_user_ticks :: u64
  ht_world :: 'w

subsection \<open>Interrupt delivery\<close>

text \<open>A guard is the enable bit it found.\<close>

definition disable_interrupts :: "'w hart \<Rightarrow> bool \<times> 'w hart" where
  "disable_interrupts h =
     (let status = ht_sstatus h in (status AND 2 \<noteq> 0, h\<lparr>ht_sstatus := status AND NOT 2\<rparr>))"

definition enable_interrupts :: "'w hart \<Rightarrow> 'w hart" where
  "enable_interrupts h = h\<lparr>ht_sstatus := ht_sstatus h OR 2\<rparr>"

definition interrupt_guard_drop :: "bool \<Rightarrow> 'w hart \<Rightarrow> 'w hart" where
  "interrupt_guard_drop was_enabled h =
     (if was_enabled then h\<lparr>ht_sstatus := ht_sstatus h OR 2\<rparr>
      else h\<lparr>ht_sstatus := ht_sstatus h AND NOT 2\<rparr>)"

subsection \<open>The time counter\<close>

definition UNINITIALIZED :: u8 where "UNINITIALIZED = 0"
definition UNAVAILABLE :: u8 where "UNAVAILABLE = 1"
definition AVAILABLE :: u8 where "AVAILABLE = 2"

definition time_ticks :: "'w platform \<Rightarrow> 'w hart \<Rightarrow> u64 option" where
  "time_ticks pf h = (if ht_time_state h \<noteq> AVAILABLE then None else Some (pf_rdtime pf (ht_world h)))"

definition time_disable :: "'w hart \<Rightarrow> 'w hart" where
  "time_disable h = h\<lparr>ht_time_state := UNAVAILABLE\<rparr>"

subsection \<open>The periodic timer\<close>

definition TIMER_ENABLE :: kusize where "TIMER_ENABLE = 0x20"

datatype TimerError =
    TimerAlreadyInitialized
  | TimerNotInitialized
  | CounterUnavailable
  | InvalidInterval
  | DeadlineOverflow
  | TimerFirmware SetTimerError

text \<open>\<open>core::time::Duration\<close>: whole seconds and nanoseconds below one second.\<close>

record duration =
  du_secs :: u64
  du_nanos :: u32

definition as_nanos :: "duration \<Rightarrow> nat" where
  "as_nanos d = unat (du_secs d) * 1000000000 + unat (du_nanos d)"

definition checked_mul_u128 :: "nat \<Rightarrow> nat \<Rightarrow> nat option" where
  "checked_mul_u128 a b = (if a * b < 2 ^ 128 then Some (a * b) else None)"

definition div_ceil :: "nat \<Rightarrow> nat \<Rightarrow> nat" where
  "div_ceil a b = a div b + (if a mod b = 0 then 0 else 1)"

definition interval_ticks :: "u32 \<Rightarrow> duration \<Rightarrow> (u64, TimerError) res" where
  "interval_ticks timebase_hz period =
     bind_res (ok_or InvalidInterval (checked_mul_u128 (unat timebase_hz) (as_nanos period))) (\<lambda>scaled.
     let ticks = div_ceil scaled 1000000000 in
     bind_res (if ticks < 2 ^ 64 then Ok (word_of_nat ticks) else Err InvalidInterval) (\<lambda>ticks.
     if ticks = 0 then Err InvalidInterval else Ok ticks))"

definition next_deadline :: "'w platform \<Rightarrow> u64 \<Rightarrow> 'w hart \<Rightarrow> (u64, TimerError) res" where
  "next_deadline pf interval h =
     bind_res (ok_or CounterUnavailable (time_ticks pf h)) (\<lambda>now.
     ok_or DeadlineOverflow (checked_add now interval))"

definition set_timer :: "'w platform \<Rightarrow> u64 \<Rightarrow> ('w hart, unit, TimerError) op" where
  "set_timer pf deadline h =
     (case sbi_set_timer pf deadline (ht_world h) of (r, w) \<Rightarrow> (map_err TimerFirmware r, h\<lparr>ht_world := w\<rparr>))"

text \<open>The body of \<open>init\<close> between taking the interrupt guard and dropping it.\<close>

definition timer_configure :: "'w platform \<Rightarrow> u32 \<Rightarrow> duration \<Rightarrow> ('w hart, unit, TimerError) op" where
  "timer_configure pf timebase_hz period =
     bind_op (get_op ht_interval) (\<lambda>installed.
     if installed \<noteq> 0 then err_op TimerAlreadyInitialized else
     bind_op (lift_op (interval_ticks timebase_hz period)) (\<lambda>interval.
     bind_op (\<lambda>h. (next_deadline pf interval h, h)) (\<lambda>deadline.
     bind_op (set_timer pf deadline) (\<lambda>_.
     modify_op (\<lambda>h. h\<lparr>ht_interval := interval, ht_sie := ht_sie h OR TIMER_ENABLE\<rparr>)))))"

definition timer_init :: "'w platform \<Rightarrow> u32 \<Rightarrow> duration \<Rightarrow> ('w hart, unit, TimerError) op" where
  "timer_init pf timebase_hz period h =
     (case disable_interrupts h of (guard, h1) \<Rightarrow>
      case timer_configure pf timebase_hz period h1 of (r, h2) \<Rightarrow> (r, interrupt_guard_drop guard h2))"

definition timer_ticks :: "'w hart \<Rightarrow> u64" where
  "timer_ticks h = ht_ticks h"

definition handle_interrupt :: "'w platform \<Rightarrow> ('w hart, unit, TimerError) op" where
  "handle_interrupt pf =
     bind_op (get_op ht_interval) (\<lambda>interval.
     if interval = 0 then err_op TimerNotInitialized else
     bind_op (\<lambda>h. (next_deadline pf interval h, h)) (\<lambda>deadline.
     bind_op (set_timer pf deadline) (\<lambda>_.
     modify_op (\<lambda>h. h\<lparr>ht_ticks := ht_ticks h + 1\<rparr>))))"

section \<open>Interrupt guards\<close>

lemma status_restore: "(w :: kusize) AND 2 \<noteq> 0 \<Longrightarrow> w OR 2 = w" "w AND 2 = 0 \<Longrightarrow> w AND NOT 2 = w"
  using and_single [of w 1] mask_id(1) [of w 2] mask_id(2) [of w 2] by (auto split: if_splits)

lemmas status_simps = mask_or [where m = "2 :: kusize", simplified] status_restore [simplified]

text \<open>Dropping a guard restores the register, if nothing but the enable bit was changed in between.\<close>

lemma guard_restores:
  assumes "disable_interrupts h = (g, h1)" "ht_sstatus h2 = ht_sstatus h1"
  shows "interrupt_guard_drop g h2 = h2\<lparr>ht_sstatus := ht_sstatus h\<rparr>"
  using assms by (auto simp: disable_interrupts_def interrupt_guard_drop_def status_simps Let_def)

section \<open>Intervals\<close>

lemma div_ceil_eq: "0 < b \<Longrightarrow> div_ceil a b = (a + b - 1) div b"
proof -
  assume b: "0 < b"
  define q r where "q = a div b" and "r = a mod b"
  have a: "a = q * b + r" and r: "r < b" using b by (simp_all add: q_def r_def)
  show ?thesis
  proof (cases "r = 0")
    case True
    with b have "(a + b - 1) div b = q" unfolding a by (intro div_nat_eqI) (simp_all add: mult.commute [of b])
    with True show ?thesis by (simp add: div_ceil_def q_def r_def)
  next
    case False
    with r have "(a + b - 1) div b = Suc q" unfolding a by (intro div_nat_eqI) (simp_all add: mult.commute [of b])
    with False show ?thesis by (simp add: div_ceil_def q_def r_def)
  qed
qed

lemma as_nanos_lt: "as_nanos d < 2 ^ 94 + 2 ^ 32"
proof -
  have "unat (du_secs d) * 1000000000 < 2 ^ 64 * 2 ^ 30" using unat_lt2p [of "du_secs d"] by simp
  moreover have "unat (du_nanos d) < 2 ^ 32" using unat_lt2p [of "du_nanos d"] by simp
  ultimately show ?thesis unfolding as_nanos_def by simp
qed

lemma scaled_fits: "unat (hz :: u32) * as_nanos d < 2 ^ 128"
proof -
  have "unat hz * as_nanos d \<le> 2 ^ 32 * (2 ^ 94 + 2 ^ 32)"
    using unat_lt2p [of hz] as_nanos_lt [of d] by (intro mult_le_mono) simp_all
  then show ?thesis by simp
qed

lemma interval_ticks_eq:
  "interval_ticks hz d =
     (let n = (unat hz * as_nanos d + 999999999) div 1000000000 in
      if 0 < n \<and> n < 2 ^ 64 then Ok (word_of_nat n) else Err InvalidInterval)"
proof -
  have eq: "div_ceil (unat hz * as_nanos d) 1000000000 = (unat hz * as_nanos d + 999999999) div 1000000000"
    by (simp add: div_ceil_eq)
  have "(word_of_nat n :: u64) = 0 \<longleftrightarrow> n = 0" if "n < 2 ^ 64" for n
    using that by (simp add: word_unat_eq_iff unat_of_nat)
  then show ?thesis
    using scaled_fits [of hz d] unfolding interval_ticks_def checked_mul_u128_def Let_def eq [symmetric] by auto
qed

section \<open>Arming the timer\<close>

lemma next_deadline_Ok:
  "next_deadline pf n h = Ok d \<longleftrightarrow>
     ht_time_state h = AVAILABLE \<and> unat d = unat (pf_rdtime pf (ht_world h)) + unat n"
  by (auto simp: next_deadline_def time_ticks_def checked_add_SomeD)

lemma next_deadline_cases:
  "next_deadline pf n h =
     (if ht_time_state h \<noteq> AVAILABLE then Err CounterUnavailable
      else if unat (pf_rdtime pf (ht_world h)) + unat n < 2 ^ 64 then Ok (pf_rdtime pf (ht_world h) + n)
      else Err DeadlineOverflow)"
  by (simp add: next_deadline_def time_ticks_def checked_add_def)

text \<open>The two ways a call of the firmware ends; either way only the world has changed.\<close>

lemma set_timer_cases:
  obtains (Ok) "fst (pf_ecall pf TIME_EID SET_TIMER_FID d (ht_world h)) = 0"
      "set_timer pf d h = (Ok (), h\<lparr>ht_world := snd (pf_ecall pf TIME_EID SET_TIMER_FID d (ht_world h))\<rparr>)"
    | (Err) e where "fst (pf_ecall pf TIME_EID SET_TIMER_FID d (ht_world h)) \<noteq> 0"
      "set_timer pf d h =
         (Err (TimerFirmware e), h\<lparr>ht_world := snd (pf_ecall pf TIME_EID SET_TIMER_FID d (ht_world h))\<rparr>)"
proof (cases "sbi_set_timer pf d (ht_world h)")
  case (Pair r w)
  then have w: "w = snd (pf_ecall pf TIME_EID SET_TIMER_FID d (ht_world h))"
    by (auto simp: sbi_set_timer_def sbi_call_def split: prod.splits)
  have "returns r" using set_timer_returns [of pf d "ht_world h"] Pair by simp
  then show thesis
  proof (cases rule: returnsE)
    case (Ok u)
    then show thesis using that(1) Pair w set_timer_Ok [of pf d "ht_world h"] by (simp add: set_timer_def)
  next
    case (Err e)
    then show thesis using that(2) Pair w set_timer_Ok [of pf d "ht_world h"] by (simp add: set_timer_def)
  qed
qed

definition firmware_accepts :: "'w platform \<Rightarrow> u64 \<Rightarrow> 'w \<Rightarrow> bool" where
  "firmware_accepts pf d w \<longleftrightarrow> fst (pf_ecall pf TIME_EID SET_TIMER_FID d w) = 0"

definition world_after :: "'w platform \<Rightarrow> u64 \<Rightarrow> 'w hart \<Rightarrow> 'w hart" where
  "world_after pf d h = h\<lparr>ht_world := snd (pf_ecall pf TIME_EID SET_TIMER_FID d (ht_world h))\<rparr>"

lemma timer_configure_cases:
  obtains (Armed) n d where "ht_interval h = 0" "interval_ticks hz p = Ok n" "next_deadline pf n h = Ok d"
      "firmware_accepts pf d (ht_world h)"
      "timer_configure pf hz p h =
         (Ok (), (world_after pf d h)\<lparr>ht_interval := n, ht_sie := ht_sie h OR TIMER_ENABLE\<rparr>)"
    | (Failed) e where "timer_configure pf hz p h = (Err e, h)"
        "ht_interval h \<noteq> 0 \<or> (\<nexists>n. interval_ticks hz p = Ok n) \<or>
         (\<forall>n. interval_ticks hz p = Ok n \<longrightarrow> (\<nexists>d. next_deadline pf n h = Ok d))"
    | (Refused) n d e where "ht_interval h = 0" "interval_ticks hz p = Ok n" "next_deadline pf n h = Ok d"
      "\<not> firmware_accepts pf d (ht_world h)" "timer_configure pf hz p h = (Err e, world_after pf d h)"
proof (cases "ht_interval h = 0")
  case fresh: True
  show thesis
  proof (cases "interval_ticks hz p")
    case n: (Ok n)
    show thesis
    proof (cases "next_deadline pf n h")
      case d: (Ok d)
      show thesis
      proof (cases rule: set_timer_cases [where pf = pf and d = d and h = h])
        case Ok
        with fresh n d that(1) show thesis
          by (simp add: timer_configure_def bind_op_def firmware_accepts_def world_after_def)
      next
        case (Err e)
        with fresh n d that(3) show thesis
          by (simp add: timer_configure_def bind_op_def firmware_accepts_def world_after_def)
      qed
    qed (use fresh n that(2) in \<open>auto simp: timer_configure_def bind_op_def next_deadline_cases split: if_splits\<close>)
  qed (use fresh that(2) in \<open>auto simp: timer_configure_def bind_op_def interval_ticks_eq Let_def split: if_splits\<close>)
qed (use that(2) in \<open>simp add: timer_configure_def bind_op_def\<close>)

lemma timer_init_eq:
  "timer_init pf hz p h =
     (case timer_configure pf hz p (h\<lparr>ht_sstatus := ht_sstatus h AND NOT 2\<rparr>) of
        (r, h') \<Rightarrow> (r, h'\<lparr>ht_sstatus := ht_sstatus h\<rparr>))"
proof -
  let ?h1 = "h\<lparr>ht_sstatus := ht_sstatus h AND NOT 2\<rparr>"
  obtain r h2 where conf: "timer_configure pf hz p ?h1 = (r, h2)" by (cases "timer_configure pf hz p ?h1")
  then have "ht_sstatus h2 = ht_sstatus ?h1"
    by (cases rule: timer_configure_cases [where pf = pf and hz = hz and p = p and h = ?h1])
      (auto simp: world_after_def)
  then have "interrupt_guard_drop g h2 = h2\<lparr>ht_sstatus := ht_sstatus h\<rparr>" if "disable_interrupts h = (g, ?h1)" for g
    using guard_restores [OF that] by simp
  then show ?thesis using conf by (simp add: timer_init_def disable_interrupts_def Let_def)
qed

lemma timer_init_cases:
  obtains (Armed) n d where "ht_interval h = 0" "interval_ticks hz p = Ok n" "next_deadline pf n h = Ok d"
      "firmware_accepts pf d (ht_world h)"
      "timer_init pf hz p h =
         (Ok (), (world_after pf d h)\<lparr>ht_interval := n, ht_sie := ht_sie h OR TIMER_ENABLE\<rparr>)"
    | (Failed) e where "timer_init pf hz p h = (Err e, h)"
        "ht_interval h \<noteq> 0 \<or> (\<nexists>n. interval_ticks hz p = Ok n) \<or>
         (\<forall>n. interval_ticks hz p = Ok n \<longrightarrow> (\<nexists>d. next_deadline pf n h = Ok d))"
    | (Refused) n d e where "ht_interval h = 0" "interval_ticks hz p = Ok n" "next_deadline pf n h = Ok d"
      "\<not> firmware_accepts pf d (ht_world h)" "timer_init pf hz p h = (Err e, world_after pf d h)"
proof -
  let ?h1 = "h\<lparr>ht_sstatus := ht_sstatus h AND NOT 2\<rparr>"
  have dl: "next_deadline pf n ?h1 = next_deadline pf n h" for n by (simp add: next_deadline_cases)
  show thesis
  proof (cases rule: timer_configure_cases [where pf = pf and hz = hz and p = p and h = ?h1])
    case (Armed n d)
    with that(1) dl show thesis by (simp add: timer_init_eq world_after_def)
  next
    case (Failed e)
    show thesis by (rule that(2) [of e]) (use Failed(1) Failed(2) [unfolded dl] in \<open>simp_all add: timer_init_eq\<close>)
  next
    case (Refused n d e)
    show thesis
      by (rule that(3) [of n d e]) (use Refused Refused(3) [unfolded dl] in \<open>simp_all add: timer_init_eq world_after_def\<close>)
  qed
qed

section \<open>Serving an interrupt\<close>

lemma handle_interrupt_cases:
  obtains (Served) d where "ht_interval h \<noteq> 0" "next_deadline pf (ht_interval h) h = Ok d"
      "firmware_accepts pf d (ht_world h)"
      "handle_interrupt pf h = (Ok (), (world_after pf d h)\<lparr>ht_ticks := ht_ticks h + 1\<rparr>)"
    | (Failed) e where "handle_interrupt pf h = (Err e, h)"
        "ht_interval h = 0 \<or> (\<nexists>d. next_deadline pf (ht_interval h) h = Ok d)"
    | (Refused) d e where "ht_interval h \<noteq> 0" "next_deadline pf (ht_interval h) h = Ok d"
        "\<not> firmware_accepts pf d (ht_world h)" "handle_interrupt pf h = (Err e, world_after pf d h)"
proof (cases "ht_interval h = 0")
  case armed: False
  show thesis
  proof (cases "next_deadline pf (ht_interval h) h")
    case d: (Ok d)
    show thesis
    proof (cases rule: set_timer_cases [where pf = pf and d = d and h = h])
      case Ok
      with armed d that(1) show thesis
        by (simp add: handle_interrupt_def bind_op_def firmware_accepts_def world_after_def)
    next
      case (Err e)
      with armed d that(3) show thesis
        by (simp add: handle_interrupt_def bind_op_def firmware_accepts_def world_after_def)
    qed
  qed (use armed that(2) in \<open>auto simp: handle_interrupt_def bind_op_def next_deadline_cases split: if_splits\<close>)
qed (use that(2) in \<open>simp add: handle_interrupt_def bind_op_def\<close>)

end
