(* ===== verification/Global_Allocator.thy ===== *)
theory Global_Allocator
  imports Memory_System Hart
begin

text \<open>
  The global allocator, \<open>kernel/src/memory/allocator.rs\<close>.  Its static is the pair of the busy
  flag and the optional memory state; operations run with supervisor interrupts masked.  The
  kernel's state joins the hart, the machine and the statics.
\<close>

section \<open>Model\<close>

datatype AllocatorInitError = AllocatorBusy | AllocatorAlreadyInitialized

datatype MemoryAccessError = MemoryBusy | MemoryNotInitialized

record memory_state =
  ms_heap :: kernel_heap
  ms_paging :: kernel_paging
  ms_frames :: boot_frame_allocator

record 'w kernel =
  kn_hart :: "'w hart"
  kn_machine :: machine
  kn_busy :: bool
  kn_memory :: "memory_state option"
  kn_claimed :: bool   \<comment> \<open>the static \<open>CLAIMED\<close> of \<open>process.rs\<close>\<close>

text \<open>
  The operation gives its result as a value.  The gate is released before the interrupt state is
  restored; an operation that panics halts the kernel with the gate held.
\<close>

definition with_state :: "(memory_state option \<times> machine, 'r, 'e) op \<Rightarrow> ('w kernel, 'r option, 'e) op" where
  "with_state operation k =
     (case disable_interrupts (kn_hart k) of (was_enabled, h) \<Rightarrow>
        if kn_busy k then (Ok None, k\<lparr>kn_hart := interrupt_guard_drop was_enabled h\<rparr>)
        else
          (case operation (kn_memory k, kn_machine k) of (r, stored, m) \<Rightarrow>
             let k' = k\<lparr>kn_hart := h, kn_machine := m, kn_busy := True, kn_memory := stored\<rparr> in
             (case r of
                Ok x \<Rightarrow> (Ok (Some x), k'\<lparr>kn_busy := False, kn_hart := interrupt_guard_drop was_enabled h\<rparr>)
              | Err e \<Rightarrow> (Err e, k') | Panic \<Rightarrow> (Panic, k') | Diverge \<Rightarrow> (Diverge, k'))))"

text \<open>A null pointer is the address zero.\<close>

definition alloc_in :: "layout \<Rightarrow> (memory_state option \<times> machine, kusize, infallible) op" where
  "alloc_in layout sm =
     (case sm of (stored, m) \<Rightarrow>
        (case stored of
           None \<Rightarrow> (Ok 0, sm)
         | Some st \<Rightarrow>
             (case heap_allocate layout (backing_map_page (ms_paging st) allocate) (ms_heap st, m, ms_frames st) of
                (r, heap, m', frames) \<Rightarrow>
                  (case r of Ok p \<Rightarrow> Ok p | Err _ \<Rightarrow> Ok 0 | Panic \<Rightarrow> Panic | Diverge \<Rightarrow> Diverge,
                   Some (st\<lparr>ms_heap := heap, ms_frames := frames\<rparr>), m'))))"

definition unwrap_or :: "'a \<Rightarrow> 'a option \<Rightarrow> 'a" where
  "unwrap_or d x = (case x of None \<Rightarrow> d | Some a \<Rightarrow> a)"

definition global_alloc :: "layout \<Rightarrow> ('w kernel, kusize, infallible) op" where
  "global_alloc layout = bind_op (with_state (alloc_in layout)) (\<lambda>x. ret_op (unwrap_or 0 x))"

definition global_dealloc :: "kusize \<Rightarrow> layout \<Rightarrow> ('w kernel, unit, infallible) op" where
  "global_dealloc pointer layout = ret_op ()"

definition with_paging ::
    "(kernel_paging \<times> machine \<times> boot_frame_allocator, 'r, 'e) op \<Rightarrow> ('w kernel, ('r, MemoryAccessError) res, 'e) op" where
  "with_paging operation =
     bind_op (with_state (\<lambda>(stored, m).
       case stored of
         None \<Rightarrow> (Ok (Err MemoryNotInitialized), stored, m)
       | Some st \<Rightarrow>
           (case operation (ms_paging st, m, ms_frames st) of (r, paging, m', frames) \<Rightarrow>
              (case r of Ok x \<Rightarrow> Ok (Ok x) | Err e \<Rightarrow> Err e | Panic \<Rightarrow> Panic | Diverge \<Rightarrow> Diverge,
               Some (st\<lparr>ms_paging := paging, ms_frames := frames\<rparr>), m'))))
     (\<lambda>x. ret_op (unwrap_or (Err MemoryBusy) x))"

definition initialize ::
    "kernel_heap \<Rightarrow> kernel_paging \<Rightarrow> boot_frame_allocator \<Rightarrow> ('w kernel, unit, AllocatorInitError) op" where
  "initialize heap paging frames =
     bind_op (with_state (\<lambda>(stored, m).
       case stored of
         Some _ \<Rightarrow> (Ok (Err AllocatorAlreadyInitialized), stored, m)
       | None \<Rightarrow> (Ok (Ok ()), Some \<lparr>ms_heap = heap, ms_paging = paging, ms_frames = frames\<rparr>, m)))
     (\<lambda>x. lift_op (unwrap_or (Err AllocatorBusy) x))"

section \<open>The gate\<close>

lemma disable_restore:
  "disable_interrupts h = (g, h1) \<Longrightarrow> interrupt_guard_drop g h1 = h"
  using guard_restores [of h g h1 h1] by (auto simp: disable_interrupts_def Let_def)

lemma with_state_busy: "kn_busy k \<Longrightarrow> with_state f k = (Ok None, k)"
  by (cases "disable_interrupts (kn_hart k)") (simp add: with_state_def disable_restore)

lemma with_state_free:
  assumes "\<not> kn_busy k" "f (kn_memory k, kn_machine k) = (Ok x, stored, m)"
  shows "with_state f k = (Ok (Some x), k\<lparr>kn_machine := m, kn_memory := stored\<rparr>)"
proof -
  obtain g h1 where d: "disable_interrupts (kn_hart k) = (g, h1)" by (cases "disable_interrupts (kn_hart k)")
  show ?thesis using assms d disable_restore [OF d] by (cases k) (simp add: with_state_def)
qed

text \<open>The state of the allocator: free, and with a heap over its address space once installed.\<close>

definition allocator_ok :: "'w kernel \<Rightarrow> bool" where
  "allocator_ok k \<longleftrightarrow> \<not> kn_busy k \<and>
     (\<forall>st. kn_memory k = Some st \<longrightarrow> heap_state (ms_paging st) (ms_heap st) (kn_machine k, ms_frames st))"

definition heap_of :: "'w kernel \<Rightarrow> kernel_heap option" where
  "heap_of k = map_option ms_heap (kn_memory k)"

definition mapped_heap :: "'w kernel \<Rightarrow> nat set" where
  "mapped_heap k = (case kn_memory k of None \<Rightarrow> {}
     | Some st \<Rightarrow> heap_mapped (mc_mem (kn_machine k)) (kernel_root (ms_paging st)))"

lemma global_alloc_cases:
  assumes "allocator_ok k" "alloc_layout_ok l"
  obtains (Uninstalled) "kn_memory k = None" "global_alloc l k = (Ok 0, k)"
    | (Given) st p h' m' ba' where "kn_memory k = Some st"
        "heap_allocate l (backing_map_page (ms_paging st) allocate) (ms_heap st, kn_machine k, ms_frames st) = (Ok p, h', m', ba')"
        "global_alloc l k = (Ok p, k\<lparr>kn_machine := m', kn_memory := Some (st\<lparr>ms_heap := h', ms_frames := ba'\<rparr>)\<rparr>)"
    | (Refused) st e h' m' ba' where "kn_memory k = Some st"
        "heap_allocate l (backing_map_page (ms_paging st) allocate) (ms_heap st, kn_machine k, ms_frames st) = (Err e, h', m', ba')"
        "global_alloc l k = (Ok 0, k\<lparr>kn_machine := m', kn_memory := Some (st\<lparr>ms_heap := h', ms_frames := ba'\<rparr>)\<rparr>)"
proof (cases "kn_memory k")
  case None
  have "with_state (alloc_in l) k = (Ok (Some 0), k\<lparr>kn_machine := kn_machine k, kn_memory := None\<rparr>)"
    by (rule with_state_free) (use assms(1) None in \<open>simp_all add: allocator_ok_def alloc_in_def\<close>)
  then have "global_alloc l k = (Ok 0, k\<lparr>kn_machine := kn_machine k, kn_memory := None\<rparr>)"
    by (simp add: global_alloc_def bind_op_def unwrap_or_def)
  also have "k\<lparr>kn_machine := kn_machine k, kn_memory := None\<rparr> = k" using None by (cases k) simp
  finally show thesis using that(1) None by simp
next
  case (Some st)
  obtain r h' m' ba' where run:
      "heap_allocate l (backing_map_page (ms_paging st) allocate) (ms_heap st, kn_machine k, ms_frames st) = (r, h', m', ba')"
    by (metis surj_pair)
  have free: "\<not> kn_busy k" "heap_state (ms_paging st) (ms_heap st) (kn_machine k, ms_frames st)"
    using assms(1) Some by (simp_all add: allocator_ok_def)
  let ?k = "k\<lparr>kn_machine := m', kn_memory := Some (st\<lparr>ms_heap := h', ms_frames := ba'\<rparr>)\<rparr>"
  have "returns r" using heap_allocate_state [OF free(2) assms(2) run] by blast
  then show thesis
  proof (cases rule: returnsE)
    case (Ok p)
    have "with_state (alloc_in l) k = (Ok (Some p), ?k)"
      by (rule with_state_free [OF free(1)]) (simp add: alloc_in_def Some run Ok)
    then show thesis using that(2) [OF Some run [unfolded Ok]] by (simp add: global_alloc_def bind_op_def unwrap_or_def)
  next
    case (Err e)
    have "with_state (alloc_in l) k = (Ok (Some 0), ?k)"
      by (rule with_state_free [OF free(1)]) (simp add: alloc_in_def Some run Err)
    then show thesis using that(3) [OF Some run [unfolded Err]] by (simp add: global_alloc_def bind_op_def unwrap_or_def)
  qed
qed

text \<open>A history of the allocator: requests, answered with a block or with null, and returned blocks.\<close>

inductive kernel_serves :: "'w kernel \<Rightarrow> (layout \<times> kusize) list \<Rightarrow> 'w kernel \<Rightarrow> bool" where
  serves_none: "kernel_serves k [] k"
| serves_block: "\<lbrakk>alloc_layout_ok l; global_alloc l k = (Ok p, k1); p \<noteq> 0; kernel_serves k1 bs k2\<rbrakk>
    \<Longrightarrow> kernel_serves k ((l, p) # bs) k2"
| serves_null: "\<lbrakk>alloc_layout_ok l; global_alloc l k = (Ok 0, k1); kernel_serves k1 bs k2\<rbrakk> \<Longrightarrow> kernel_serves k bs k2"
| serves_return: "\<lbrakk>global_dealloc p l k = (Ok (), k1); kernel_serves k1 bs k2\<rbrakk> \<Longrightarrow> kernel_serves k bs k2"

lemma global_alloc_total:
  assumes "allocator_ok k" "alloc_layout_ok l"
  shows "\<exists>p k'. global_alloc l k = (Ok p, k') \<and> allocator_ok k' \<and> kn_hart k' = kn_hart k \<and> mapped_heap k \<subseteq> mapped_heap k'"
  using assms
proof (cases rule: global_alloc_cases)
  case Uninstalled
  then show ?thesis using assms(1) by simp
next
  case (Given st p h' m' ba')
  have "heap_state (ms_paging st) (ms_heap st) (kn_machine k, ms_frames st)" using assms(1) Given(1) by (simp add: allocator_ok_def)
  from heap_allocate_state [OF this assms(2) Given(2)] Given assms(1)
  show ?thesis by (auto simp: allocator_ok_def mapped_heap_def)
next
  case (Refused st e h' m' ba')
  have "heap_state (ms_paging st) (ms_heap st) (kn_machine k, ms_frames st)" using assms(1) Refused(1) by (simp add: allocator_ok_def)
  from heap_allocate_state [OF this assms(2) Refused(2)] Refused assms(1)
  show ?thesis by (auto simp: allocator_ok_def mapped_heap_def)
qed

text \<open>A null answer comes from the heap's refusal: blocks of the heap are never at zero.\<close>

lemma block_not_null:
  assumes "heap_state kp h ms" "alloc_layout_ok l" "heap_allocate l (backing_map_page kp allocate) (h, ms) = (Ok p, h', ms')"
  shows "p \<noteq> 0"
proof -
  have "unat p = block_at h l" "fits h l" using heap_allocate_state [OF assms] by auto
  moreover have "heap_lo h = unat HEAP_START" using assms(1) heap_limits by (simp add: heap_state_def)
  ultimately show ?thesis by (auto simp: fits_def heap_bounds)
qed

lemma kernel_serves_heap:
  assumes "kernel_serves k bs k'" "allocator_ok k" "kn_memory k = Some st"
  shows "\<exists>st'. kn_memory k' = Some st' \<and> ms_paging st' = ms_paging st \<and> kn_hart k' = kn_hart k \<and> allocator_ok k' \<and>
    heap_serves (backing_map_page (ms_paging st) allocate)
      (ms_heap st, kn_machine k, ms_frames st) bs (ms_heap st', kn_machine k', ms_frames st')"
  using assms
proof (induction arbitrary: st)
  case (serves_none k)
  then show ?case using heap_serves.heap_serves_none by fastforce
next
  case (serves_block l k p k1 bs k2)
  from serves_block.prems(1) serves_block.hyps(1) show ?case
  proof (cases rule: global_alloc_cases)
    case (Given st0 q h' m' ba')
    then have st: "st0 = st" "q = p" "k1 = k\<lparr>kn_machine := m', kn_memory := Some (st\<lparr>ms_heap := h', ms_frames := ba'\<rparr>)\<rparr>"
      using serves_block.prems(2) serves_block.hyps(2) by auto
    have ok1: "allocator_ok k1" using global_alloc_total [OF serves_block.prems(1) serves_block.hyps(1)] serves_block.hyps(2) by auto
    from serves_block.IH [OF ok1, of "st\<lparr>ms_heap := h', ms_frames := ba'\<rparr>"] st(3)
      heap_serves.heap_serves_given [OF serves_block.hyps(1) Given(2) [unfolded st(1,2)]]
    show ?thesis by auto
  qed (use serves_block.prems serves_block.hyps in auto)
next
  case (serves_null l k k1 bs k2)
  have ok1: "allocator_ok k1" using global_alloc_total [OF serves_null.prems(1) serves_null.hyps(1)] serves_null.hyps(2) by auto
  from serves_null.prems(1) serves_null.hyps(1) show ?case
  proof (cases rule: global_alloc_cases)
    case (Given st0 q h' m' ba')
    have "heap_state (ms_paging st0) (ms_heap st0) (kn_machine k, ms_frames st0)" using serves_null.prems(1) Given(1) by (simp add: allocator_ok_def)
    from block_not_null [OF this serves_null.hyps(1) Given(2)] show ?thesis using Given(3) serves_null.hyps(2) by simp
  next
    case (Refused st0 e h' m' ba')
    then have st: "st0 = st" "k1 = k\<lparr>kn_machine := m', kn_memory := Some (st\<lparr>ms_heap := h', ms_frames := ba'\<rparr>)\<rparr>"
      using serves_null.prems(2) serves_null.hyps(2) by auto
    from serves_null.IH [OF ok1, of "st\<lparr>ms_heap := h', ms_frames := ba'\<rparr>"] st(2)
      heap_serves.heap_serves_refused [OF serves_null.hyps(1) Refused(2) [unfolded st(1)]]
    show ?thesis by auto
  qed (use serves_null.prems in auto)
next
  case (serves_return p l k k1 bs k2)
  then show ?case by (simp add: global_dealloc_def)
qed

text \<open>The blocks of a history, and the bytes of memory behind them.\<close>

lemma kernel_serves_blocks:
  assumes "kernel_serves k bs k'" "allocator_ok k" "kn_memory k = Some st"
  shows "allocator_ok k' \<and> kn_hart k' = kn_hart k \<and> sorted_wrt (\<lambda>x y. block_span x \<inter> block_span y = {}) bs \<and>
    (\<forall>x\<in>set bs. unat (snd x) mod unat (ly_align (fst x)) = 0 \<and>
       unat HEAP_START \<le> unat (snd x) \<and> unat (snd x) + unat (ly_size (fst x)) \<le> va (hp_cursor (ms_heap st)) \<and>
       (\<forall>a\<in>block_span x. \<exists>f. heap_byte (ms_paging st) (kn_machine k', ms_frames (the (kn_memory k'))) a f))"
proof -
  let ?kp = "ms_paging st"
  obtain st' where st': "kn_memory k' = Some st'" "ms_paging st' = ?kp" "kn_hart k' = kn_hart k" "allocator_ok k'"
      "heap_serves (backing_map_page ?kp allocate) (ms_heap st, kn_machine k, ms_frames st) bs (ms_heap st', kn_machine k', ms_frames st')"
    using kernel_serves_heap [OF assms] by blast
  have hs: "heap_state ?kp (ms_heap st) (kn_machine k, ms_frames st)" "heap_state ?kp (ms_heap st') (kn_machine k', ms_frames st')"
    using assms(2,3) st' by (auto simp: allocator_ok_def)
  have rng: "hp_range (ms_heap st) = HEAP_RANGE" "heap_ok (ms_heap st)" "hp_range (ms_heap st') = HEAP_RANGE" "heap_ok (ms_heap st')"
    using hs by (simp_all add: heap_state_def)
  have inv: "space.heap.heap_inv ?kp (ms_heap st, kn_machine k, ms_frames st)" using heap_state_inv [OF rng(1)] hs(1) by simp
  note S = space.heap.heap_serves_inv [OF st'(5) inv]
  have lim: "heap_lo (ms_heap st') = unat HEAP_START" "heap_hi (ms_heap st) = unat HEAP_END"
    using heap_limits rng by simp_all
  have low: "unat HEAP_START \<le> va (hp_mapped_start (ms_heap st'))" "va (hp_mapped_start (ms_heap st')) \<le> va (hp_cursor (ms_heap st'))"
      "va (hp_cursor (ms_heap st)) \<le> unat HEAP_END" using rng(2,4) lim by (auto simp: heap_ok_def)
  have "\<exists>f. heap_byte ?kp (kn_machine k', ms_frames st') a f" if x: "x \<in> set bs" "a \<in> block_span x" for x a
  proof -
    have "va (hp_cursor (ms_heap st')) \<le> unat (snd x)" "unat (snd x) + unat (ly_size (fst x)) \<le> va (hp_cursor (ms_heap st))"
      using S x(1) by auto
    with x(2) low have "va (hp_mapped_start (ms_heap st')) \<le> a" "a < unat HEAP_END" by (auto simp: block_span_def)
    from heap_byte_at [OF hs(2) this] show ?thesis by blast
  qed
  moreover have "unat HEAP_START \<le> unat (snd x)" if "x \<in> set bs" for x using S that low by fastforce
  ultimately show ?thesis using S st' by auto
qed

end
