(* ===== verification/Image.thy ===== *)
theory Image
  imports Global_Allocator
begin

text \<open>
  Embedded user images, \<open>kernel/src/process/image.rs\<close>: the header is checked field by field, and
  the payload is copied into fresh frames that are mapped for user mode.
\<close>

unbundle bit_operations_syntax

section \<open>Model\<close>

datatype LoadError =
    MissingImage
  | InvalidImage
  | ImageAlreadyClaimed
  | KernelStackAllocation
  | LoadMemory MemoryAccessError
  | LoadPaging PagingError

definition IMAGE_HEADER_SIZE :: nat where "IMAGE_HEADER_SIZE = 32"

record image =
  im_base :: VirtAddr
  im_entry :: VirtAddr
  im_bytes :: bytes

text \<open>The bytes of \<open>BBUSER01\<close>.\<close>

definition image_magic :: bytes where
  "image_magic = [66, 66, 85, 83, 69, 82, 48, 49]"

definition u64_from_le_bytes :: "bytes \<Rightarrow> u64" where
  "u64_from_le_bytes bs = load64 (\<lambda>i. if i < length bs then bs ! i else 0) 0"

definition image_field :: "bytes \<Rightarrow> nat \<Rightarrow> nat \<Rightarrow> kusize option" where
  "image_field hdr lo hi = (if hi \<le> length hdr \<and> hi - lo = 8 then Some (u64_from_le_bytes (take (hi - lo) (drop lo hdr))) else None)"

definition image_parse :: "bytes \<Rightarrow> kusize \<Rightarrow> (image, LoadError) res" where
  "image_parse bs limit =
     (if bs = [] then Err MissingImage else
      bind_res (if IMAGE_HEADER_SIZE \<le> length bs then Ok (take IMAGE_HEADER_SIZE bs) else Err InvalidImage) (\<lambda>hdr.
      if take 8 hdr \<noteq> image_magic then Err InvalidImage else
      bind_res (ok_or InvalidImage (image_field hdr 8 16)) (\<lambda>base.
      bind_res (ok_or InvalidImage (image_field hdr 16 24)) (\<lambda>entry_at.
      bind_res (ok_or InvalidImage (image_field hdr 24 32)) (\<lambda>sz.
      let payload = drop IMAGE_HEADER_SIZE bs in
      bind_res (ok_or InvalidImage (checked_add base sz)) (\<lambda>stop.
      bind_res (ok_or InvalidImage (checked_add stop (FRAME_SIZE - 1))) (\<lambda>padded.
      let mapped_end = padded AND NOT (FRAME_SIZE - 1) in
      if sz = 0 \<or> unat sz \<noteq> length payload \<or> base < FRAME_SIZE \<or> base mod FRAME_SIZE \<noteq> 0 \<or>
         \<not> (base \<le> entry_at \<and> entry_at < stop) \<or> entry_at mod 2 \<noteq> 0 \<or> mapped_end > limit
      then Err InvalidImage
      else Ok \<lparr>im_base = VirtAddr base, im_entry = VirtAddr entry_at, im_bytes = payload\<rparr>)))))))"

text \<open>\<open>slice::chunks\<close>.\<close>

function chunks :: "nat \<Rightarrow> 'a list \<Rightarrow> 'a list list" where
  "chunks n xs = (if xs = [] \<or> n = 0 then [] else take n xs # chunks n (drop n xs))"
  by pat_completeness auto
termination by (relation "measure (\<lambda>(n, xs). length xs)") auto

declare chunks.simps [simp del]

definition image_map_page ::
    "kernel_paging \<Rightarrow> 's frames \<Rightarrow> VirtAddr \<Rightarrow> bytes \<Rightarrow> PagePermissions \<Rightarrow> (machine \<times> 's, unit, LoadError) op" where
  "image_map_page kp alloc address bs permissions =
     (if length bs > unat FRAME_SIZE then err_op InvalidImage else
      map_err_op LoadPaging (
        bind_op (take_frame alloc) (\<lambda>x.
        case x of
          None \<Rightarrow> err_op OutOfPhysicalFrames
        | Some frame \<Rightarrow>
            bind_op (on_machine (zero_frame (ViaKernel kp) frame)) (\<lambda>_.
            bind_op (if bs = [] then ret_op () else
                on_machine (with_frame (ViaKernel kp) (af_frame frame) (\<lambda>alias_at. vcopy_bytes (va alias_at) bs))) (\<lambda>_.
            map_user_page kp address frame permissions alloc)))))"

text \<open>The loop of \<open>load\<close>: the address is advanced after every page.\<close>

fun load_pages :: "kernel_paging \<Rightarrow> 's frames \<Rightarrow> VirtAddr \<Rightarrow> bytes list \<Rightarrow> (machine \<times> 's, unit, LoadError) op" where
  "load_pages kp alloc address [] = ret_op ()"
| "load_pages kp alloc address (bs # rest) =
     bind_op (image_map_page kp alloc address bs ReadExecute) (\<lambda>_.
     bind_op (lift_op (ok_or (LoadPaging (VirtualAddressNotUser (va_as_usize address)))
                 (virt_checked_add address FRAME_SIZE))) (\<lambda>address'.
     load_pages kp alloc address' rest))"

definition image_load :: "image \<Rightarrow> kernel_paging \<Rightarrow> 's frames \<Rightarrow> (machine \<times> 's, unit, LoadError) op" where
  "image_load img kp alloc = load_pages kp alloc (im_base img) (chunks (unat FRAME_SIZE) (im_bytes img))"

section \<open>Accepted images\<close>

text \<open>
  A well-formed image: the magic, three fields and a payload of the stated size that begins on a
  page other than the first, holds its entry, and whose pages end at or below the limit.
\<close>

definition image_ok :: "bytes \<Rightarrow> nat \<Rightarrow> nat \<Rightarrow> nat \<Rightarrow> bool" where
  "image_ok bs limit base entry_at \<longleftrightarrow>
     32 < length bs \<and> take 8 bs = image_magic \<and>
     unat (u64_from_le_bytes (take 8 (drop 8 bs))) = base \<and>
     unat (u64_from_le_bytes (take 8 (drop 16 bs))) = entry_at \<and>
     unat (u64_from_le_bytes (take 8 (drop 24 bs))) = length bs - 32 \<and>
     0 < base \<and> base mod 4096 = 0 \<and> base \<le> entry_at \<and> entry_at < base + (length bs - 32) \<and> even entry_at \<and>
     round_up (base + (length bs - 32)) \<le> limit \<and> base + (length bs - 32) + 4095 < 2 ^ 64"

lemma image_fields:
  assumes "32 \<le> length bs"
  shows "image_field (take 32 bs) 8 16 = Some (u64_from_le_bytes (take 8 (drop 8 bs)))"
    "image_field (take 32 bs) 16 24 = Some (u64_from_le_bytes (take 8 (drop 16 bs)))"
    "image_field (take 32 bs) 24 32 = Some (u64_from_le_bytes (take 8 (drop 24 bs)))"
  using assms by (simp_all add: image_field_def drop_take min_def)

lemma kusize_even: "(w :: kusize) mod 2 = 0 \<longleftrightarrow> even (unat w)"
proof -
  have "w mod 2 = 0 \<longleftrightarrow> unat (w mod 2) = 0" by (simp add: unat_eq_0)
  then show ?thesis by (simp add: unat_mod even_iff_mod_2_eq_zero)
qed

lemma image_ok_arith:
  assumes "M" "b + z + 4095 < L"
  shows "0 < n \<and> M \<and> z = n \<and> 0 < b \<and> page_aligned b \<and> b \<le> e \<and> e < b + n \<and> Q \<and> round_up (b + n) \<le> l \<and> b + n + 4095 < L \<longleftrightarrow>
    \<not> (z = 0 \<or> z \<noteq> n \<or> b < 4096 \<or> \<not> page_aligned b \<or> \<not> (b \<le> e \<and> e < b + z) \<or> \<not> Q \<or> l < round_up (b + z))"
proof -
  have "0 < b \<longleftrightarrow> \<not> b < 4096" if "page_aligned b" using that aligned_gap [of 0 b] by (auto simp: page_aligned_def)
  with assms show ?thesis by auto
qed

text \<open>The parse of a long enough image, with its fields as numbers.\<close>

lemma image_parse_long:
  fixes bs limit
  defines "B \<equiv> u64_from_le_bytes (take 8 (drop 8 bs))" and "E \<equiv> u64_from_le_bytes (take 8 (drop 16 bs))"
    and "S \<equiv> u64_from_le_bytes (take 8 (drop 24 bs))"
  assumes len: "32 \<le> length bs"
  shows "image_parse bs limit =
    (if image_ok bs (unat limit) (unat B) (unat E)
     then Ok \<lparr>im_base = VirtAddr B, im_entry = VirtAddr E, im_bytes = drop 32 bs\<rparr> else Err InvalidImage)"
proof (cases "take 8 bs = image_magic \<and> unat B + unat S + 4095 < 2 ^ 64")
  case False
  have "checked_add B S = None \<or> (\<exists>x. checked_add B S = Some x \<and> checked_add x (FRAME_SIZE - 1) = None)"
    if "take 8 bs = image_magic"
  proof -
    have "2 ^ 64 \<le> unat B + unat S + 4095" using False that by simp
    moreover have "unat (FRAME_SIZE - 1) = 4095" by (simp add: FRAME_SIZE_def)
    ultimately show ?thesis by (cases "checked_add B S") (auto simp: checked_add_SomeD checked_add_None)
  qed
  then have "image_parse bs limit = Err InvalidImage"
    using len image_fields [OF len] by (auto simp: image_parse_def IMAGE_HEADER_SIZE_def min_def B_def E_def S_def)
  moreover have "\<not> image_ok bs (unat limit) (unat B) (unat E)"
    using False by (auto simp: image_ok_def B_def S_def)
  ultimately show ?thesis by simp
next
  case True
  have fs: "unat (FRAME_SIZE - 1) = 4095" by (simp add: FRAME_SIZE_def)
  have stop: "checked_add B S = Some (B + S)" "unat (B + S) = unat B + unat S"
    using True by (simp_all add: checked_add_def unat_word_ariths)
  have padded: "checked_add (B + S) (FRAME_SIZE - 1) = Some (B + S + (FRAME_SIZE - 1))"
      "unat (B + S + (FRAME_SIZE - 1)) = unat B + unat S + 4095"
    using True stop fs by (simp_all add: checked_add_def unat_word_ariths)
  have mapped: "unat ((B + S + (FRAME_SIZE - 1)) AND NOT (FRAME_SIZE - 1)) = round_up (unat B + unat S)"
    unfolding page_of padded(2) by (simp add: round_up_def round_down_def)
  define bad where "bad \<longleftrightarrow> S = 0 \<or> unat S \<noteq> length bs - 32 \<or> B < FRAME_SIZE \<or> B mod FRAME_SIZE \<noteq> 0 \<or> \<not> (B \<le> E \<and> E < B + S) \<or>
         E mod 2 \<noteq> 0 \<or> (B + S + (FRAME_SIZE - 1)) AND NOT (FRAME_SIZE - 1) > limit"
  have "image_ok bs (unat limit) (unat B) (unat E) \<longleftrightarrow> \<not> bad"
    unfolding bad_def word_less_nat_alt word_le_nat_alt mapped stop(2) mod_FRAME_SIZE_eq_0 kusize_even unat_FRAME_SIZE image_ok_def
      B_def [symmetric] E_def [symmetric] S_def [symmetric]
    page_aligned_def [symmetric] unat_eq_0 [of S, symmetric]
    using image_ok_arith [where b = "unat B" and z = "unat S" and n = "length bs - 32" and M = "take 8 bs = image_magic"
        and e = "unat E" and L = "2 ^ 64"] True len by simp
  moreover have "image_parse bs limit =
      (if bad then Err InvalidImage else Ok \<lparr>im_base = VirtAddr B, im_entry = VirtAddr E, im_bytes = drop 32 bs\<rparr>)"
  proof -
    have "bs \<noteq> []" "take 8 (take 32 bs) = image_magic" using True len by (auto simp: min_def)
    then show ?thesis
      unfolding image_parse_def IMAGE_HEADER_SIZE_def using len image_fields [OF len, folded B_def E_def S_def] stop(1) padded(1)
      by (simp only: if_True if_False simp_thms bind_res_simps ok_or_simps option.case Let_def length_drop bad_def)
  qed
  ultimately show ?thesis by (cases bad) simp_all
qed

lemma image_parse_Ok:
  "image_parse bs limit = Ok img \<longleftrightarrow>
     (\<exists>base entry_at. image_ok bs (unat limit) (unat base) (unat entry_at) \<and>
        img = \<lparr>im_base = VirtAddr base, im_entry = VirtAddr entry_at, im_bytes = drop 32 bs\<rparr>)"
proof (cases "32 \<le> length bs")
  case True
  have uniq: "base = u64_from_le_bytes (take 8 (drop 8 bs)) \<and> entry_at = u64_from_le_bytes (take 8 (drop 16 bs))"
    if "image_ok bs (unat limit) (unat base) (unat entry_at)" for base entry_at
    using that by (simp add: image_ok_def word_unat_eq_iff)
  have ite: "(if c then Ok x else Err InvalidImage) = Ok img \<longleftrightarrow> c \<and> img = x" for c x by auto
  show ?thesis unfolding image_parse_long [OF True, of limit] ite
    by (intro iffI exI, assumption) (elim exE conjE, frule uniq, simp)
next
  case False
  then show ?thesis by (auto simp: image_parse_def image_ok_def IMAGE_HEADER_SIZE_def)
qed

lemma image_parse_Err: "image_parse bs limit = Err e \<Longrightarrow> e = (if bs = [] then MissingImage else InvalidImage)"
proof (cases "32 \<le> length bs")
  case True
  assume "image_parse bs limit = Err e"
  moreover have "(if c then Ok x else Err InvalidImage) = Err e \<Longrightarrow> e = InvalidImage" for c x by (simp split: if_splits)
  ultimately have "e = InvalidImage" unfolding image_parse_long [OF True, of limit] by metis
  with True show ?thesis by auto
qed (auto simp: image_parse_def IMAGE_HEADER_SIZE_def split: if_splits)

lemma image_parse_returns: "returns (image_parse bs limit)"
proof (cases "32 \<le> length bs")
  case True
  have "returns (if c then Ok x else Err InvalidImage)" for c x by simp
  then show ?thesis unfolding image_parse_long [OF True, of limit] .
qed (auto simp: image_parse_def IMAGE_HEADER_SIZE_def)

end
