(* ===== verification/Image_Load.thy ===== *)
theory Image_Load
  imports Image
begin

text \<open>
  Loading an image: after success every page of the payload is mapped for user mode to a frame of
  its own that holds the bytes of the page, padded with zeros, and no other page has changed.
\<close>

context kernel_space
begin

text \<open>A page mapped for user mode with known contents.\<close>

definition user_page :: "machine \<times> 's \<Rightarrow> VirtAddr \<Rightarrow> bytes \<Rightarrow> PagePermissions \<Rightarrow> nat \<Rightarrow> bool" where
  "user_page ms a bs perms f \<longleftrightarrow> (case ms of (m, s) \<Rightarrow>
     leaf_entry (mc_mem m) (kernel_root kp) (page_of_address (va a)) = mk_pte f (leaf_flags perms User) \<and>
     representable f \<and> f \<notin> tables (mc_mem m) (kernel_root kp) \<and> f \<notin> set (free s) \<and>
     (\<forall>i<4096. mc_mem m (f * 4096 + i) = (if i < length bs then bs ! i else 0)))"

lemma user_page_keep:
  assumes "user_page (m, s) a bs perms f" "grows (kernel_root kp) (m, s) (m', s')"
    and "leaf_entry (mc_mem m') (kernel_root kp) (page_of_address (va a)) = leaf_entry (mc_mem m) (kernel_root kp) (page_of_address (va a))"
  shows "user_page (m', s') a bs perms f"
proof -
  have out: "f \<notin> tables (mc_mem m) (kernel_root kp)" "f \<notin> set (free s)" using assms(1) by (simp_all add: user_page_def)
  have "mc_mem m' (f * 4096 + i) = mc_mem m (f * 4096 + i)" if "i < 4096" for i
    by (rule grows_data(1) [OF assms(2) out]) (use that in simp)
  then show ?thesis
    using assms(1,3) grows_data(2,3) [OF assms(2) out, of "f * 4096"] by (simp add: user_page_def)
qed

lemma image_map_page_eq:
  assumes "length bs \<le> 4096"
  shows "image_map_page kp allocate a bs perms ms =
    map_err_op LoadPaging (
      bind_op (allocate_page_table (ViaKernel kp) allocate) (\<lambda>frame.
      bind_op (if bs = [] then ret_op () else
          on_machine (with_frame (ViaKernel kp) (af_frame frame) (\<lambda>alias_at. vcopy_bytes (va alias_at) bs))) (\<lambda>_.
      map_user_page kp a frame perms allocate))) ms"
  using assms unfolding image_map_page_def allocate_page_table_def map_err_op_def
  by (cases ms) (auto simp: bind_op_def not_le FRAME_SIZE_def split: prod.splits res.splits option.splits)

text \<open>A fresh frame with the given contents, not yet mapped.\<close>

definition filled :: "bytes \<Rightarrow> nat \<Rightarrow> mem \<Rightarrow> mem" where
  "filled bs f mm = fill_frame (clear_frame mm f) f (length bs) (\<lambda>i. bs ! i)"

lemma filled_contents:
  "length bs \<le> 4096 \<Longrightarrow> i < 4096 \<Longrightarrow> filled bs f mm (f * 4096 + i) = (if i < length bs then bs ! i else 0)"
  by (simp add: filled_def fill_frame_def clear_frame_apply)

lemma filled_other: "length bs \<le> 4096 \<Longrightarrow> x div 4096 \<noteq> f \<Longrightarrow> filled bs f mm x = mm x"
  by (simp add: filled_def fill_frame_other clear_frame_apply)

lemma fill_fresh:
  assumes M: "mapper root (m, s)" and bs: "length bs \<le> 4096"
    and alloc: "allocate_page_table (ViaKernel kp) allocate (m, s) = (Ok a, m1, s1)"
  shows "(if bs = [] then ret_op () else
      on_machine (with_frame (ViaKernel kp) (af_frame a) (\<lambda>alias_at. vcopy_bytes (va alias_at) bs))) (m1, s1) =
      (Ok (), (upd_mem (filled bs (frame_no (af_frame a))) m, s1))"
    "grows root (m, s) (upd_mem (filled bs (frame_no (af_frame a))) m, s1)"
    "same_leaves root m (upd_mem (filled bs (frame_no (af_frame a))) m)"
proof -
  let ?g = "frame_no (af_frame a)"
  have A: "frame_ok (af_frame a)" "representable ?g" "free s = ?g # free s1" "m1 = upd_mem (\<lambda>mm. clear_frame mm ?g) m"
      "mapper root (m1, s1)" "guard (ViaKernel kp) m1 = guard (ViaKernel kp) m"
    using allocate_page_table_spec [OF M alloc] by (auto simp: grows_def)
  have g: "\<forall>c\<in>insert (slot (ViaKernel kp)) (guard (ViaKernel kp) m1). c div 4096 \<noteq> ?g"
    using M A(3) unfolding A(6) by (auto simp: mapper_def)
  have "with_frame (ViaKernel kp) (af_frame a) (\<lambda>alias_at. vcopy_bytes (va alias_at) bs) m1 =
      (Ok (), upd_mem (filled bs ?g) m)"
    using with_frame_fill [of "ViaKernel kp" m1 "af_frame a" "length bs" "\<lambda>i. bs ! i"] A(1,2,5) g bs
    by (simp add: vcopy_bytes_def mapper_def clear_of_def filled_def A(4))
  then show "(if bs = [] then ret_op () else
      on_machine (with_frame (ViaKernel kp) (af_frame a) (\<lambda>alias_at. vcopy_bytes (va alias_at) bs))) (m1, s1) =
      (Ok (), (upd_mem (filled bs ?g) m, s1))"
    by (simp add: on_machine_def A(4) filled_def)
  have "finv s1" using A(5) by (simp add: mapper_def)
  from grows_fill [OF M this A(3), of "filled bs ?g"] filled_other [OF bs]
  show "grows root (m, s) (upd_mem (filled bs ?g) m, s1)" "same_leaves root m (upd_mem (filled bs ?g) m)" by blast+
qed

lemma image_map_page_spec:
  assumes inv: "kernel_inv (m, s)" and run: "image_map_page kp allocate a bs perms (m, s) = (r, m', s')"
  shows "returns r \<and> grows (kernel_root kp) (m, s) (m', s') \<and>
    (r = Ok () \<longrightarrow> length bs \<le> 4096 \<and> mappable a \<and> (\<exists>f. user_page (m', s') a bs perms f \<and>
        maps_leaf (kernel_root kp) (page_of_address (va a)) (mk_pte f (leaf_flags perms User)) m m')) \<and>
    (r \<noteq> Ok () \<longrightarrow> same_leaves (kernel_root kp) m m')"
proof (cases "length bs \<le> 4096")
  case False
  then have "r = Err InvalidImage" "m' = m" "s' = s" using run by (auto simp: image_map_page_def FRAME_SIZE_def)
  then show ?thesis using inv by (simp add: kernel_inv_def grows_refl same_leaves_def)
next
  case bs: True
  let ?root = "kernel_root kp"
  have M: "mapper ?root (m, s)" using inv by (simp add: kernel_inv_def)
  obtain r1 m1 s1 where n1: "allocate_page_table (ViaKernel kp) allocate (m, s) = (r1, m1, s1)" by (metis surj_pair)
  note S1 = allocate_page_table_spec [OF M n1]
  then consider (Ok) fr where "r1 = Ok fr" | (Err) e where "r1 = Err e" by (auto elim: returnsE)
  then show ?thesis
  proof cases
    case (Err e)
    then have "r = Err (LoadPaging e)" "m' = m1" "s' = s1"
      using run n1 by (auto simp: image_map_page_eq [OF bs] bind_op_def map_err_op_def)
    then show ?thesis using S1 by simp
  next
    case (Ok fr)
    let ?f = "frame_no (af_frame fr)"
    define m2 where "m2 = upd_mem (filled bs ?f) m"
    note F = fill_fresh [OF M bs n1 [unfolded Ok], folded m2_def]
    have fr: "frame_ok (af_frame fr)" "representable ?f" "free s = ?f # free s1" using S1 Ok by auto
    have inv2: "kernel_inv (m2, s1)" by (rule kernel_inv_grows [OF inv F(2)])
    obtain r3 where r3: "map_user_page kp a fr perms allocate (m2, s1) = (r3, m', s')" "r = map_err LoadPaging r3"
      using run n1 Ok F(1) by (auto simp: image_map_page_eq [OF bs] bind_op_def map_err_op_def split: prod.splits)
    have I: "returns r3" "grows ?root (m2, s1) (m', s')" "r3 \<noteq> Ok () \<Longrightarrow> same_leaves ?root m2 m'"
        "r3 = Ok () \<Longrightarrow> mappable a \<and> maps_leaf ?root (page_of_address (va a)) (mk_pte ?f (leaf_flags perms User)) m2 m'"
      using map_user_page_installs [OF inv2 fr(1), of a perms] r3(1) by (auto simp: installs_def)
    have out: "?f \<notin> tables (mc_mem m2) ?root" "?f \<notin> set (free s1)"
    proof -
      have t: "?f \<notin> tables (mc_mem m) ?root" "distinct (free s)" using M fr(3) free_distinct [of s] by (simp_all add: mapper_def)
      have "mc_mem m2 x = mc_mem m x" if "x div 4096 \<in> tables (mc_mem m) ?root" for x
      proof -
        have "x div 4096 \<noteq> ?f" using that t(1) by metis
        then show ?thesis by (simp add: m2_def filled_other [OF bs])
      qed
      then have "tables (mc_mem m2) ?root = tables (mc_mem m) ?root" by (rule outside_tree(2))
      then show "?f \<notin> tables (mc_mem m2) ?root" "?f \<notin> set (free s1)" using t fr(3) by auto
    qed
    have "mc_mem m' (?f * 4096 + i) = (if i < length bs then bs ! i else 0)" if "i < 4096" for i
      using grows_data(1) [OF I(2) out, of "?f * 4096 + i"] that filled_contents [OF bs that] by (simp add: m2_def)
    moreover note grows_data(2,3) [OF I(2) out, of "?f * 4096"]
    ultimately have "user_page (m', s') a bs perms ?f" if "r3 = Ok ()"
      using I(4) [OF that] fr(2) maps_leaf_at(2) [of ?root "page_of_address (va a)" _ m2 m' "va a"] by (simp add: user_page_def)
    then have "r3 = Ok () \<longrightarrow> mappable a \<and> user_page (m', s') a bs perms ?f \<and>
        maps_leaf ?root (page_of_address (va a)) (mk_pte ?f (leaf_flags perms User)) m m'"
      using I(4) maps_leaf_after [OF F(3)] page_ok_address by blast
    moreover have "r3 \<noteq> Ok () \<longrightarrow> same_leaves ?root m m'" using I(3) same_leaves_trans [OF F(3)] by blast
    moreover have "r = Ok () \<longleftrightarrow> r3 = Ok ()" unfolding r3(2) by (cases r3) simp_all
    ultimately show ?thesis using I(1) grows_trans [OF F(2) I(2)] bs r3(2) by auto
  qed
qed

section \<open>Sequences of pages\<close>

lemma user_page_adds:
  assumes "user_page (m, s) a bs perms f" "grows (kernel_root kp) (m, s) (m', s')" "adds_leaves (kernel_root kp) P m m'"
  shows "user_page (m', s') a bs perms f"
proof (rule user_page_keep [OF assms(1,2)])
  have "leaf_entry (mc_mem m) (kernel_root kp) (page_of_address (va a)) \<noteq> 0"
    using assms(1) leaf_pte_nonzero by (simp add: user_page_def)
  then show "leaf_entry (mc_mem m') (kernel_root kp) (page_of_address (va a)) =
      leaf_entry (mc_mem m) (kernel_root kp) (page_of_address (va a))"
    by (rule adds_leaves_keep [OF assms(3)])
qed

lemma load_pages_spec:
  assumes "kernel_inv (m, s)" "load_pages kp allocate a css (m, s) = (r, m', s')"
  shows "returns r \<and> grows (kernel_root kp) (m, s) (m', s') \<and> adds_leaves (kernel_root kp) (page_run (va a) (length css)) m m' \<and>
    (r = Ok () \<longrightarrow> (\<forall>k<length css. \<exists>b f. va b = va a + 4096 * k \<and> user_page (m', s') b (css ! k) ReadExecute f))"
  using assms
proof (induction css arbitrary: a m s)
  case Nil
  then show ?case by (auto simp: kernel_inv_def grows_refl adds_leaves_def)
next
  case (Cons bs css)
  let ?root = "kernel_root kp" and ?P = "page_run (va a) (length (bs # css))"
  have P: "page_of_address (va a) \<in> ?P" by (simp add: page_run_Suc)
  obtain r1 m1 s1 where n1: "image_map_page kp allocate a bs ReadExecute (m, s) = (r1, m1, s1)" by (metis surj_pair)
  note S1 = image_map_page_spec [OF Cons.prems(1) n1]
  show ?case
  proof (cases "r1 = Ok ()")
    case False
    then obtain e where "r1 = Err e" using S1 by (metis returnsE old.unit.exhaust)
    then have "r = Err e" "m' = m1" "s' = s1" using Cons.prems(2) n1 by (auto simp: bind_op_def)
    then show ?thesis using S1 False adds_leaves_same by auto
  next
    case True
    then obtain f where f: "user_page (m1, s1) a bs ReadExecute f"
        "maps_leaf ?root (page_of_address (va a)) (mk_pte f (leaf_flags ReadExecute User)) m m1"
      using S1 by blast
    have G1: "grows ?root (m, s) (m1, s1)" using S1 by simp
    have A1: "adds_leaves (kernel_root kp) ?P m m1" by (rule adds_leaves_one [OF f(2) P])
    show ?thesis
    proof (cases "virt_checked_add a FRAME_SIZE")
      case None
      then have "m' = m1" "s' = s1" "r = Err (LoadPaging (VirtualAddressNotUser (va_as_usize a)))"
        using Cons.prems(2) n1 True by (auto simp: bind_op_def)
      then show ?thesis using G1 A1 by simp
    next
      case (Some a')
      then have a': "va a' = va a + 4096" by (simp add: virt_checked_add_Some)
      have "load_pages kp allocate a' css (m1, s1) = (r, m', s')" using Cons.prems(2) n1 True Some by (simp add: bind_op_def)
      note IH = Cons.IH [OF kernel_inv_grows [OF Cons.prems(1) G1] this, unfolded a']
      have A: "adds_leaves (kernel_root kp) ?P m m'"
        by (rule adds_leaves_trans [OF A1]) (use IH in \<open>auto simp: page_run_Suc\<close>)
      have G: "grows ?root (m, s) (m', s')" using grows_trans [OF G1] IH by blast
      have first: "user_page (m', s') a bs ReadExecute f" using user_page_adds [OF f(1)] IH by blast
      have "\<exists>b g. va b = va a + 4096 * k \<and> user_page (m', s') b ((bs # css) ! k) ReadExecute g"
        if k: "r = Ok ()" "k < length (bs # css)" for k
      proof (cases k)
        case 0
        then show ?thesis using first by (intro exI [of _ a] exI [of _ f]) simp
      next
        case (Suc j)
        then have "\<exists>b g. va b = va a + 4096 + 4096 * j \<and> user_page (m', s') b (css ! j) ReadExecute g"
          using IH k by simp
        then show ?thesis by (simp add: Suc add.assoc)
      qed
      then show ?thesis using A G IH by blast
    qed
  qed
qed

end

section \<open>Chunks\<close>

lemma chunks_Cons: "0 < n \<Longrightarrow> xs \<noteq> [] \<Longrightarrow> chunks n xs = take n xs # chunks n (drop n xs)"
  by (subst chunks.simps) simp

lemma chunks_length: "0 < n \<Longrightarrow> k < length (chunks n xs) \<longleftrightarrow> n * k < length xs"
proof (induction n xs arbitrary: k rule: chunks.induct)
  case (1 n xs)
  show ?case
  proof (cases "xs = []")
    case False
    show ?thesis
    proof (cases k)
      case 0
      then show ?thesis using False 1(2) by (simp add: chunks_Cons)
    next
      case (Suc j)
      have "k < length (chunks n xs) \<longleftrightarrow> n * j < length (drop n xs)"
        using 1 False Suc by (simp add: chunks_Cons)
      then show ?thesis using Suc by (auto simp: less_diff_conv)
    qed
  qed (simp add: chunks.simps)
qed

lemma chunks_nth: "0 < n \<Longrightarrow> k < length (chunks n xs) \<Longrightarrow> chunks n xs ! k = take n (drop (n * k) xs)"
proof (induction n xs arbitrary: k rule: chunks.induct)
  case (1 n xs)
  then have ne: "xs \<noteq> []" by (auto simp: chunks.simps)
  have c: "chunks n xs = take n xs # chunks n (drop n xs)" using ne 1(2) by (simp add: chunks_Cons)
  show ?case
  proof (cases k)
    case (Suc j)
    then have "chunks n (drop n xs) ! j = take n (drop (n * j) (drop n xs))"
      using 1 ne c by simp
    then show ?thesis using Suc c by (simp add: add.commute)
  qed (simp add: c)
qed

end
