(* ===== verification/Trap.thy ===== *)
theory Trap
  imports Hart
begin

text \<open>
  Traps and system calls: \<open>kernel/src/arch/riscv64/trap.rs\<close>, the counter probe of \<open>time.rs\<close>,
  \<open>kernel/src/process/syscall.rs\<close>, the ends of a process in \<open>kernel/src/process.rs\<close> and the numbers of
  \<open>user/abi/src/lib.rs\<close>.  Functions that never return end in an outcome of their own: the process
  has exited or faulted and the hart idles with interrupts enabled, or the hart is halted.  The
  assembly that saves and restores the integer registers is modelled on a register file; the
  memory that holds the saved frame is the frame itself and its address.
\<close>

unbundle bit_operations_syntax

section \<open>Model\<close>

subsection \<open>System calls\<close>

definition CONSOLE_WRITE_BYTE :: kusize where "CONSOLE_WRITE_BYTE = 1"
definition EXIT :: kusize where "EXIT = 2"
definition TIMER_TICKS :: kusize where "TIMER_TICKS = 3"
definition ERROR_IO :: kusize where "ERROR_IO = - 5"
definition ERROR_INVALID_ARGUMENT :: kusize where "ERROR_INVALID_ARGUMENT = - 22"
definition ERROR_NOT_SUPPORTED :: kusize where "ERROR_NOT_SUPPORTED = - 38"

definition user_timer_ticks :: "'w hart \<Rightarrow> u64" where
  "user_timer_ticks h = ht_user_ticks h"

datatype syscall_outcome = SyscallReturn kusize | SyscallExit kusize

text \<open>\<open>process::exit\<close> and \<open>process::fault\<close> end in \<open>arch::idle\<close>, which enables interrupts.\<close>

definition process_idle :: "'w hart \<Rightarrow> 'w hart" where
  "process_idle h = enable_interrupts h"

definition handle_syscall :: "'w platform \<Rightarrow> kusize \<Rightarrow> kusize \<Rightarrow> 'w hart \<Rightarrow> syscall_outcome \<times> 'w hart" where
  "handle_syscall pf number argument h =
     (if number = CONSOLE_WRITE_BYTE then
        if argument > 255 then (SyscallReturn ERROR_INVALID_ARGUMENT, h)
        else (case console_write_byte pf (ucast argument) (ht_world h) of (r, w) \<Rightarrow>
               (SyscallReturn (if r = Ok () then 0 else ERROR_IO), h\<lparr>ht_world := w\<rparr>))
      else if number = TIMER_TICKS then (SyscallReturn (user_timer_ticks h), h)
      else if number = EXIT then (SyscallExit argument, process_idle h)
      else (SyscallReturn ERROR_NOT_SUPPORTED, h))"

subsection \<open>Trap frames and the handler\<close>

definition SUPERVISOR_ORIGIN :: kusize where "SUPERVISOR_ORIGIN = 0x100"
definition EXTENSION_STATE_MASK :: kusize where "EXTENSION_STATE_MASK = 0x6600"
definition TIMER_INTERRUPT :: kusize where "TIMER_INTERRUPT = 0x8000000000000005"
definition ILLEGAL_INSTRUCTION :: kusize where "ILLEGAL_INSTRUCTION = 2"
definition USER_ECALL :: kusize where "USER_ECALL = 8"
definition INITIAL_USER_STATUS :: kusize where "INITIAL_USER_STATUS = 0x200000020"

record trap_frame =
  tf_registers :: "kusize list"
  tf_epc :: kusize
  tf_status :: kusize
  tf_cause :: kusize
  tf_value :: kusize

definition user_context_new :: "VirtAddr \<Rightarrow> VirtAddr \<Rightarrow> trap_frame" where
  "user_context_new entry stack =
     \<lparr>tf_registers = (replicate 32 0)[2 := va_as_usize stack], tf_epc = va_as_usize entry,
      tf_status = INITIAL_USER_STATUS, tf_cause = 0, tf_value = 0\<rparr>"

datatype trap_outcome =
    TrapReturn trap_frame
  | ProcessExit kusize
  | ProcessFault kusize kusize kusize   \<comment> \<open>cause, program counter, value\<close>
  | Halted

definition trap_fatal :: "'w hart \<Rightarrow> trap_outcome \<times> 'w hart" where
  "trap_fatal h = (Halted, snd (disable_interrupts (time_disable h)))"

definition process_fault :: "trap_frame \<Rightarrow> 'w hart \<Rightarrow> trap_outcome \<times> 'w hart" where
  "process_fault frame h = (ProcessFault (tf_cause frame) (tf_epc frame) (tf_value frame), process_idle h)"

definition trap_handler :: "'w platform \<Rightarrow> trap_frame \<Rightarrow> 'w hart \<Rightarrow> trap_outcome \<times> 'w hart" where
  "trap_handler pf frame h = (
     let supervisor = tf_status frame AND SUPERVISOR_ORIGIN \<noteq> 0 in
     if supervisor \<and> tf_cause frame = ILLEGAL_INSTRUCTION \<and> tf_epc frame = pf_probe_read pf
     then (TrapReturn (frame\<lparr>tf_epc := pf_probe_unavailable pf\<rparr>), h)
     else if tf_cause frame = TIMER_INTERRUPT then
       (case handle_interrupt pf h of (r, h') \<Rightarrow>
          if r = Ok () then
            (TrapReturn frame, if supervisor then h' else h'\<lparr>ht_user_ticks := ht_user_ticks h' + 1\<rparr>)
          else trap_fatal h')
     else if \<not> supervisor then
       if tf_cause frame = USER_ECALL then
         (case checked_add (tf_epc frame) 4 of
            None \<Rightarrow> process_fault frame h
          | Some nxt \<Rightarrow>
              (case handle_syscall pf (tf_registers frame ! 17) (tf_registers frame ! 10) h of
                 (SyscallReturn v, h') \<Rightarrow>
                   (TrapReturn (frame\<lparr>tf_epc := nxt, tf_registers := (tf_registers frame)[10 := v]\<rparr>), h')
               | (SyscallExit status, h') \<Rightarrow> (ProcessExit status, h')))
       else process_fault frame h
     else trap_fatal h)"

subsection \<open>Saving and restoring registers\<close>

text \<open>
  The processor at a trap: the integer registers by number, and the control registers the entry
  code reads.  The handler runs with the global pointer \<open>gp\<close>, which the linker fixes.
\<close>

record cpu =
  cp_x :: "kusize list"
  cp_sscratch :: kusize
  cp_sepc :: kusize
  cp_sstatus :: kusize
  cp_scause :: kusize
  cp_stval :: kusize
  cp_stvec :: kusize

text \<open>\<open>init\<close>, with the address the linker gives to the entry code; its alignment is asserted.\<close>

definition trap_init :: "kusize \<Rightarrow> ('w hart \<times> cpu, unit, 'e) op" where
  "trap_init entry_address hc =
     (case hc of (h, c) \<Rightarrow>
        if entry_address AND 3 \<noteq> 0 then (Panic, hc)
        else (Ok (), (h\<lparr>ht_sie := 0\<rparr>, c\<lparr>cp_sscratch := 0, cp_stvec := entry_address\<rparr>)))"

definition FRAME_BYTES :: kusize where "FRAME_BYTES = 288"

definition trap_entry :: "kusize \<Rightarrow> cpu \<Rightarrow> trap_frame \<times> kusize \<times> cpu" where
  "trap_entry gp c = (
     let sp = cp_x c ! 2;
         frame_at = (if cp_sscratch c \<noteq> 0 then cp_sscratch c - FRAME_BYTES else sp - FRAME_BYTES);
         interrupted_sp = (if cp_sscratch c \<noteq> 0 then sp else frame_at + FRAME_BYTES);
         frame = \<lparr>tf_registers = (cp_x c)[2 := interrupted_sp, 0 := 0], tf_epc = cp_sepc c, tf_status = cp_sstatus c,
                  tf_cause = cp_scause c, tf_value = cp_stval c\<rparr> in
     (frame, frame_at,
      c\<lparr>cp_x := (cp_x c)[2 := frame_at, 3 := gp, 4 := 0, 5 := EXTENSION_STATE_MASK, 10 := frame_at],
        cp_sscratch := 0,
        cp_sstatus := cp_sstatus c AND NOT EXTENSION_STATE_MASK\<rparr>))"

text \<open>Up to the final \<open>sret\<close>, which continues at \<open>sepc\<close>.\<close>

definition trap_restore :: "trap_frame \<Rightarrow> kusize \<Rightarrow> cpu \<Rightarrow> cpu" where
  "trap_restore frame frame_at c = (
     let status = tf_status frame AND NOT 2 in
     c\<lparr>cp_x := (tf_registers frame)[0 := 0],
       cp_sepc := tf_epc frame,
       cp_sstatus := status,
       cp_sscratch := (if status AND SUPERVISOR_ORIGIN \<noteq> 0 then 0 else frame_at + FRAME_BYTES)\<rparr>)"

definition enter_user :: "trap_frame \<Rightarrow> VirtAddr \<Rightarrow> cpu \<Rightarrow> cpu" where
  "enter_user context kernel_stack_top c = (
     let frame_at = va_as_usize kernel_stack_top - FRAME_BYTES in
     trap_restore context frame_at (c\<lparr>cp_sstatus := cp_sstatus c AND NOT 2\<rparr>))"

subsection \<open>The counter probe\<close>

text \<open>
  \<open>__probe_time\<close> clears the interrupt enable bit, reads the counter and restores the register.
  Where the read is denied it traps as an illegal instruction from supervisor mode; the handler
  must continue it at the recovery label, which returns zero.
\<close>

definition probe_frame :: "'w platform \<Rightarrow> 'w hart \<Rightarrow> trap_frame" where
  "probe_frame pf h =
     \<lparr>tf_registers = replicate 32 0, tf_epc = pf_probe_read pf, tf_status = ht_sstatus h OR SUPERVISOR_ORIGIN,
      tf_cause = ILLEGAL_INSTRUCTION, tf_value = 0\<rparr>"

definition probe_time :: "'w platform \<Rightarrow> ('w hart, kusize, infallible) op" where
  "probe_time pf h = (
     let saved = ht_sstatus h; h1 = h\<lparr>ht_sstatus := saved AND NOT 2\<rparr> in
     if pf_time_readable pf (ht_world h) then (Ok 1, h1\<lparr>ht_sstatus := saved\<rparr>)
     else case trap_handler pf (probe_frame pf h1) h1 of
         (TrapReturn frame, h2) \<Rightarrow>
           if tf_epc frame = pf_probe_unavailable pf then (Ok 0, h2\<lparr>ht_sstatus := saved\<rparr>) else (Diverge, h2)
       | (_, h2) \<Rightarrow> (Diverge, h2))"

definition time_init :: "'w platform \<Rightarrow> ('w hart, unit, infallible) op" where
  "time_init pf h =
     (if ht_time_state h \<noteq> UNINITIALIZED then (Ok (), h)
      else bind_op (probe_time pf) (\<lambda>available.
        modify_op (\<lambda>h. if available \<noteq> 0 then h\<lparr>ht_time_state := AVAILABLE\<rparr> else h))
        (h\<lparr>ht_time_state := UNAVAILABLE\<rparr>))"

section \<open>System calls\<close>

lemma handle_syscall_keeps:
  "snd (handle_syscall pf n a h) =
     (if n = EXIT then process_idle h else h\<lparr>ht_world := ht_world (snd (handle_syscall pf n a h))\<rparr>)"
  by (auto simp: handle_syscall_def CONSOLE_WRITE_BYTE_def EXIT_def TIMER_TICKS_def split: prod.splits)

lemma handle_syscall_exit: "(\<exists>v. fst (handle_syscall pf n a h) = SyscallExit v) \<longleftrightarrow> n = EXIT"
  by (auto simp: handle_syscall_def CONSOLE_WRITE_BYTE_def EXIT_def TIMER_TICKS_def split: prod.splits)

lemma handle_syscall_write:
  assumes "unat a < 256"
  shows "fst (handle_syscall pf CONSOLE_WRITE_BYTE a h) =
    SyscallReturn (if fst (pf_ecall pf DBCN_EID DBCN_WRITE_BYTE_FID a (ht_world h)) = 0 then 0 else ERROR_IO)"
proof -
  have "\<not> a > 255" using assms by (simp add: word_less_nat_alt)
  moreover have "take_bit 8 a = a"
    using assms unfolding word_unat_eq_iff unsigned_take_bit_eq by (simp add: take_bit_nat_eq_self_iff)
  then have "ucast (ucast a :: u8) = a" by (simp add: word_unat_eq_iff unsigned_ucast_eq)
  moreover note console_write_byte_Ok [of pf "ucast a" "ht_world h"]
  ultimately show ?thesis by (auto simp: handle_syscall_def split: prod.split)
qed

section \<open>The handler\<close>

definition from_user :: "trap_frame \<Rightarrow> bool" where
  "from_user frame \<longleftrightarrow> tf_status frame AND SUPERVISOR_ORIGIN = 0"

lemma trap_ecall:
  assumes "from_user frame" "tf_cause frame = USER_ECALL" "unat (tf_epc frame) + 4 < 2 ^ 64"
  shows "trap_handler pf frame h =
    (case handle_syscall pf (tf_registers frame ! 17) (tf_registers frame ! 10) h of
       (SyscallReturn v, h') \<Rightarrow>
         (TrapReturn (frame\<lparr>tf_epc := tf_epc frame + 4, tf_registers := (tf_registers frame)[10 := v]\<rparr>), h')
     | (SyscallExit status, h') \<Rightarrow> (ProcessExit status, h'))"
  using assms
  by (simp add: trap_handler_def from_user_def USER_ECALL_def TIMER_INTERRUPT_def checked_add_def Let_def)

lemma trap_timer:
  assumes "tf_cause frame = TIMER_INTERRUPT" "handle_interrupt pf h = (Ok (), h')"
  shows "trap_handler pf frame h =
    (TrapReturn frame, if from_user frame then h'\<lparr>ht_user_ticks := ht_user_ticks h' + 1\<rparr> else h')"
  using assms by (simp add: trap_handler_def from_user_def TIMER_INTERRUPT_def ILLEGAL_INSTRUCTION_def Let_def)

text \<open>A trap from user mode halts the hart only when the timer cannot be rearmed.\<close>

lemma user_trap_not_fatal:
  assumes "from_user frame" "fst (trap_handler pf frame h) = Halted"
  shows "tf_cause frame = TIMER_INTERRUPT \<and> fst (handle_interrupt pf h) \<noteq> Ok ()"
  using assms
  by (auto simp: trap_handler_def from_user_def process_fault_def Let_def
      split: if_splits prod.splits option.splits syscall_outcome.splits)

lemma trap_probe: "trap_handler pf (probe_frame pf h) h =
    (TrapReturn ((probe_frame pf h)\<lparr>tf_epc := pf_probe_unavailable pf\<rparr>), h)"
proof -
  have "(w OR SUPERVISOR_ORIGIN) AND SUPERVISOR_ORIGIN = SUPERVISOR_ORIGIN" for w
    by (rule bit_word_eqI) (auto simp: bit_simps)
  then show ?thesis by (simp add: trap_handler_def probe_frame_def SUPERVISOR_ORIGIN_def Let_def)
qed

lemma probe_time_eq:
  "probe_time pf h = (Ok (if pf_time_readable pf (ht_world h) then 1 else 0), h)"
  by (simp add: probe_time_def trap_probe Let_def)

lemma time_init_eq:
  "time_init pf h =
     (Ok (), if ht_time_state h \<noteq> UNINITIALIZED then h
             else h\<lparr>ht_time_state := if pf_time_readable pf (ht_world h) then AVAILABLE else UNAVAILABLE\<rparr>)"
  by (simp add: time_init_def probe_time_eq bind_op_def)

section \<open>Registers across a trap\<close>

definition cpu_ok :: "cpu \<Rightarrow> bool" where
  "cpu_ok c \<longleftrightarrow> length (cp_x c) = 32 \<and> cp_x c ! 0 = 0 \<and>
     (cp_sscratch c \<noteq> 0 \<longleftrightarrow> cp_sstatus c AND SUPERVISOR_ORIGIN = 0)"

lemma origin_mask: "(w AND NOT 2) AND SUPERVISOR_ORIGIN = w AND SUPERVISOR_ORIGIN"
proof -
  have "(NOT 2 :: kusize) AND SUPERVISOR_ORIGIN = SUPERVISOR_ORIGIN" by (simp add: SUPERVISOR_ORIGIN_def)
  then show ?thesis by (simp add: and.assoc)
qed

lemma trap_round_trip_eq:
  assumes "cpu_ok c" "trap_entry gp c = (frame, frame_at, c1)"
    and "cp_scause c2 = cp_scause c" "cp_stval c2 = cp_stval c" "cp_stvec c2 = cp_stvec c"
  shows "trap_restore frame frame_at c2 = c\<lparr>cp_sstatus := cp_sstatus c AND NOT 2\<rparr>"
proof -
  have regs: "(cp_x c)[2 := cp_x c ! 2, 0 := 0] = cp_x c"
    using assms(1) by (metis cpu_ok_def list_update_id)
  show ?thesis
    using assms regs unfolding trap_entry_def trap_restore_def Let_def
    by (auto simp: cpu_ok_def origin_mask [simplified])
qed

end
