(* ===== verification/Process.thy ===== *)
theory Process
  imports Image_Load Trap
begin

text \<open>
  The embedded process, \<open>kernel/src/process.rs\<close>: parsing its image, claiming the single slot,
  allocating and clearing the kernel stack, mapping the image and the user stack, and entering user
  mode.  The bytes of the image are embedded by the build and are an argument.
\<close>

section \<open>Model\<close>

definition USER_STACK_TOP :: kusize where "USER_STACK_TOP = 0x40000000"
definition STACK_SIZE :: kusize where "STACK_SIZE = 16 * 1024"
definition KERNEL_STACK_ELEMENTS :: kusize where "KERNEL_STACK_ELEMENTS = STACK_SIZE div 16"
definition USER_STACK_BOTTOM :: kusize where "USER_STACK_BOTTOM = USER_STACK_TOP - STACK_SIZE"
definition IMAGE_LIMIT :: kusize where "IMAGE_LIMIT = USER_STACK_BOTTOM - FRAME_SIZE"

text \<open>The vector of the kernel stack is the address of its storage.\<close>

record process =
  pr_context :: trap_frame
  pr_kernel_stack :: kusize

text \<open>\<open>Vec<u128>::try_reserve_exact\<close> on an empty vector: one request for an array of 16-byte elements.\<close>

definition array_layout :: "kusize \<Rightarrow> layout" where
  "array_layout n = \<lparr>ly_size = n * 16, ly_align = 16\<rparr>"

definition reserve_stack :: "('w kernel, kusize, LoadError) op" where
  "reserve_stack k =
     (case global_alloc (array_layout KERNEL_STACK_ELEMENTS) k of (r, k') \<Rightarrow>
        (case r of Ok p \<Rightarrow> if p = 0 then Err KernelStackAllocation else Ok p | Panic \<Rightarrow> Panic | _ \<Rightarrow> Diverge, k'))"

definition in_kernel :: "(machine, 'a, 'e) op \<Rightarrow> ('w kernel, 'a, 'e) op" where
  "in_kernel f k = (case f (kn_machine k) of (r, m) \<Rightarrow> (r, k\<lparr>kn_machine := m\<rparr>))"

text \<open>\<open>(start..end).step_by(step)\<close>.\<close>

definition step_by :: "nat \<Rightarrow> nat \<Rightarrow> nat \<Rightarrow> kusize list" where
  "step_by start stop step = map (\<lambda>i. word_of_nat (start + i * step)) [0..<(stop - start + step - 1) div step]"

definition map_stack :: "kernel_paging \<Rightarrow> 's frames \<Rightarrow> (machine \<times> 's, unit, LoadError) op" where
  "map_stack kp alloc =
     for_op (\<lambda>address. image_map_page kp alloc (VirtAddr address) [] ReadWrite)
       (step_by (unat USER_STACK_BOTTOM) (unat USER_STACK_TOP) (unat FRAME_SIZE))"

definition map_process :: "image \<Rightarrow> kernel_paging \<Rightarrow> 's frames \<Rightarrow> (machine \<times> 's, unit, LoadError) op" where
  "map_process img kp alloc = bind_op (image_load img kp alloc) (\<lambda>_. map_stack kp alloc)"

definition load_closure ::
    "image \<Rightarrow> (kernel_paging \<times> machine \<times> boot_frame_allocator, (unit, LoadError) res, LoadError) op" where
  "load_closure img s = (case s of (kp, ms) \<Rightarrow>
     (case result_of (map_process img kp allocate) ms of (r, ms') \<Rightarrow> (r, kp, ms')))"

definition load_init :: "bytes \<Rightarrow> ('w kernel, process, LoadError) op" where
  "load_init init_image =
     bind_op (lift_op (image_parse init_image IMAGE_LIMIT)) (\<lambda>img.
     bind_op (\<lambda>k. (Ok (kn_claimed k), k\<lparr>kn_claimed := True\<rparr>)) (\<lambda>claimed.
     if claimed then err_op ImageAlreadyClaimed else
     bind_op reserve_stack (\<lambda>kernel_stack.
     bind_op (in_kernel (vwrite_bytes (unat kernel_stack) 0 (unat KERNEL_STACK_ELEMENTS * 16))) (\<lambda>_.
     bind_op (with_paging (load_closure img)) (\<lambda>r.
     bind_op (lift_op (map_err LoadMemory r)) (\<lambda>r.
     bind_op (lift_op r) (\<lambda>_.
     ret_op \<lparr>pr_context = user_context_new (im_entry img) (VirtAddr USER_STACK_TOP),
             pr_kernel_stack = kernel_stack\<rparr>)))))))"

text \<open>\<open>run\<close> up to the first instruction in user mode.\<close>

definition process_run :: "process \<Rightarrow> cpu \<Rightarrow> cpu" where
  "process_run p c = enter_user (pr_context p) (VirtAddr (pr_kernel_stack p + STACK_SIZE)) c"

section \<open>Mapping the process\<close>

context kernel_space
begin

lemma map_pages_spec:
  assumes "kernel_inv (m, s)" "for_op (\<lambda>a. image_map_page kp allocate (VirtAddr a) [] ReadWrite) xs (m, s) = (r, m', s')"
  shows "returns r \<and> grows (kernel_root kp) (m, s) (m', s') \<and> adds_leaves (kernel_root kp) ((\<lambda>a. page_of_address (unat a)) ` set xs) m m' \<and>
    (r = Ok () \<longrightarrow> (\<forall>a\<in>set xs. \<exists>f. user_page (m', s') (VirtAddr a) [] ReadWrite f))"
  using assms
proof (induction xs arbitrary: m s)
  case Nil
  then show ?case by (auto simp: kernel_inv_def grows_refl adds_leaves_def)
next
  case (Cons a xs)
  let ?root = "kernel_root kp" and ?P = "\<lambda>xs. (\<lambda>a. page_of_address (unat a)) ` set xs"
  obtain r1 m1 s1 where n1: "image_map_page kp allocate (VirtAddr a) [] ReadWrite (m, s) = (r1, m1, s1)" by (metis surj_pair)
  note S1 = image_map_page_spec [OF Cons.prems(1) n1]
  show ?case
  proof (cases "r1 = Ok ()")
    case False
    then obtain e where "r1 = Err e" using S1 by (metis returnsE old.unit.exhaust)
    then have "r = Err e" "m' = m1" "s' = s1" using Cons.prems(2) n1 by auto
    then show ?thesis using S1 False adds_leaves_same by auto
  next
    case True
    then obtain f where f: "user_page (m1, s1) (VirtAddr a) [] ReadWrite f"
        "maps_leaf ?root (page_of_address (unat a)) (mk_pte f (leaf_flags ReadWrite User)) m m1"
      using S1 by auto
    have G1: "grows ?root (m, s) (m1, s1)" using S1 by simp
    have A1: "adds_leaves (kernel_root kp) (?P (a # xs)) m m1" by (rule adds_leaves_one [OF f(2)]) simp
    have "for_op (\<lambda>a. image_map_page kp allocate (VirtAddr a) [] ReadWrite) xs (m1, s1) = (r, m', s')"
      using Cons.prems(2) n1 True by simp
    note IH = Cons.IH [OF kernel_inv_grows [OF Cons.prems(1) G1] this]
    have "adds_leaves (kernel_root kp) (?P (a # xs)) m m'" by (rule adds_leaves_trans [OF A1]) (use IH in auto)
    moreover have "grows ?root (m, s) (m', s')" using grows_trans [OF G1] IH by blast
    moreover have "user_page (m', s') (VirtAddr a) [] ReadWrite f" using user_page_adds [OF f(1)] IH by blast
    ultimately show ?thesis using IH by auto
  qed
qed

lemma map_process_spec:
  assumes "kernel_inv (m, s)" "map_process img kp allocate (m, s) = (r, m', s')"
  defines "css \<equiv> chunks (unat FRAME_SIZE) (im_bytes img)" and "stack \<equiv> step_by (unat USER_STACK_BOTTOM) (unat USER_STACK_TOP) (unat FRAME_SIZE)"
  shows "returns r \<and> grows (kernel_root kp) (m, s) (m', s') \<and>
    adds_leaves (kernel_root kp) (page_run (va (im_base img)) (length css) \<union> (\<lambda>a. page_of_address (unat a)) ` set stack) m m' \<and>
    (r = Ok () \<longrightarrow>
      (\<forall>k<length css. \<exists>b f. va b = va (im_base img) + 4096 * k \<and> user_page (m', s') b (css ! k) ReadExecute f) \<and>
      (\<forall>a\<in>set stack. \<exists>f. user_page (m', s') (VirtAddr a) [] ReadWrite f))"
proof -
  let ?root = "kernel_root kp" and ?P = "page_run (va (im_base img)) (length css)" and ?Q = "(\<lambda>a. page_of_address (unat a)) ` set stack"
  obtain r1 m1 s1 where n1: "image_load img kp allocate (m, s) = (r1, m1, s1)" by (metis surj_pair)
  note S1 = load_pages_spec [OF assms(1) n1 [unfolded image_load_def], folded css_def]
  have G1: "grows ?root (m, s) (m1, s1)" and A1: "adds_leaves (kernel_root kp) ?P m m1" using S1 by auto
  show ?thesis
  proof (cases "r1 = Ok ()")
    case False
    then obtain e where "r1 = Err e" using S1 by (metis returnsE old.unit.exhaust)
    then have "r = Err e" "m' = m1" "s' = s1" using assms(2) n1 by (auto simp: map_process_def bind_op_def)
    moreover have "adds_leaves (kernel_root kp) (?P \<union> ?Q) m m1" using A1 by (auto simp: adds_leaves_def)
    ultimately show ?thesis using G1 by simp
  next
    case True
    then have n2: "map_stack kp allocate (m1, s1) = (r, m', s')" using assms(2) n1 by (simp add: map_process_def bind_op_def)
    note S2 = map_pages_spec [OF kernel_inv_grows [OF assms(1) G1] n2 [unfolded map_stack_def], folded stack_def]
    have "adds_leaves (kernel_root kp) (?P \<union> ?Q) m m'" by (rule adds_leaves_trans [OF A1]) (use S2 in auto)
    moreover have "\<exists>b f. va b = va (im_base img) + 4096 * k \<and> user_page (m', s') b (css ! k) ReadExecute f"
      if "k < length css" for k
      using S1 True that user_page_adds [of m1 s1 _ _ _ _ m' s'] S2 by meson
    ultimately show ?thesis using grows_trans [OF G1] S2 by blast
  qed
qed

end

section \<open>The kernel stack\<close>

lemma process_constants:
  "unat USER_STACK_TOP = 0x40000000" "unat STACK_SIZE = 16384" "unat KERNEL_STACK_ELEMENTS = 1024"
  "unat USER_STACK_BOTTOM = 0x3FFFC000" "unat IMAGE_LIMIT = 0x3FFFB000"
  "array_layout KERNEL_STACK_ELEMENTS = \<lparr>ly_size = 16384, ly_align = 16\<rparr>"
  by (simp_all add: USER_STACK_TOP_def STACK_SIZE_def KERNEL_STACK_ELEMENTS_def USER_STACK_BOTTOM_def IMAGE_LIMIT_def
      FRAME_SIZE_def array_layout_def)

lemma stack_layout_ok: "alloc_layout_ok (array_layout KERNEL_STACK_ELEMENTS)"
  by (simp add: process_constants alloc_layout_ok_def is_power_of_two_def exI [of _ "4 :: nat"])

text \<open>Every byte of a stack is mapped to memory of its own and is zero.\<close>

definition zero_stack :: "kernel_paging \<Rightarrow> machine \<times> boot_frame_allocator \<Rightarrow> nat \<Rightarrow> bool" where
  "zero_stack kp ms p \<longleftrightarrow> (\<forall>i<16384. \<exists>f. heap_byte kp ms (p + i) f \<and> mc_mem (fst ms) (f * 4096 + (p + i) mod 4096) = 0)"

lemma kernel_stack_spec:
  assumes st: "heap_state kp h (m, ba)"
    and run: "heap_allocate (array_layout KERNEL_STACK_ELEMENTS) (backing_map_page kp allocate) (h, m, ba) = (Ok p, h', m1, ba1)"
  shows "\<exists>mm. (vwrite_bytes (unat p) 0 (unat KERNEL_STACK_ELEMENTS * 16) :: (machine, unit, 'e) op) m1 = (Ok (), m1\<lparr>mc_mem := mm\<rparr>) \<and>
    heap_state kp h' (m1\<lparr>mc_mem := mm\<rparr>, ba1) \<and> zero_stack kp (m1\<lparr>mc_mem := mm\<rparr>, ba1) (unat p) \<and> p \<noteq> 0 \<and>
    unat p mod 16 = 0 \<and> va (hp_mapped_start h') \<le> unat p \<and> unat p + 16384 \<le> va (hp_cursor h) \<and> hp_cursor h' = VirtAddr p"
proof -
  let ?l = "array_layout KERNEL_STACK_ELEMENTS"
  note A = heap_allocate_state [OF st stack_layout_ok run]
  then have p: "unat p = block_at h ?l" "fits h ?l" "hp_cursor h' = VirtAddr p" "heap_state kp h' (m1, ba1)" by auto
  note bounds = block_at_bounds [OF stack_layout_ok p(2), folded p(1)]
  have b: "unat p + 16384 \<le> va (hp_cursor h)" "unat p mod 16 = 0" using bounds(1,2) by (simp_all add: process_constants)
  have hi: "va (hp_cursor h) \<le> unat HEAP_END" using st heap_limits by (auto simp: heap_state_def heap_ok_def)
  have lo: "va (hp_mapped_start h') \<le> unat p" using p(3,4) by (auto simp: heap_state_def heap_ok_def)
  obtain mm where mm: "(vwrite_bytes (unat p) 0 16384 :: (machine, unit, 'e) op) m1 = (Ok (), m1\<lparr>mc_mem := mm\<rparr>)"
      "\<And>x. x div 4096 \<in> tables (mc_mem m1) (kernel_root kp) \<or> x div 4096 \<in> set (free_frames ba1) \<Longrightarrow> mm x = mc_mem m1 x"
      "\<And>i f. i < 16384 \<Longrightarrow> heap_byte kp (m1, ba1) (unat p + i) f \<Longrightarrow> mm (f * 4096 + (unat p + i) mod 4096) = 0"
    using heap_fill [OF p(4) lo, of 16384 0] b(1) hi by auto
  note W = heap_state_write [OF p(4) mm(2)]
  have "\<exists>f. heap_byte kp (m1\<lparr>mc_mem := mm\<rparr>, ba1) (unat p + i) f \<and> mm (f * 4096 + (unat p + i) mod 4096) = 0"
    if i: "i < 16384" for i
  proof -
    have x: "va (hp_mapped_start h') \<le> unat p + i" "unat p + i < unat HEAP_END" using lo b(1) hi i by linarith+
    obtain f where f: "heap_byte kp (m1, ba1) (unat p + i) f" using heap_byte_at [OF p(4) x] by blast
    moreover have "heap_byte kp (m1\<lparr>mc_mem := mm\<rparr>, ba1) (unat p + i) f" using W x f by auto
    ultimately show ?thesis using mm(3) [OF i] by blast
  qed
  then have "zero_stack kp (m1\<lparr>mc_mem := mm\<rparr>, ba1) (unat p)" by (simp add: zero_stack_def)
  then show ?thesis using mm(1) W b lo p(3) block_not_null [OF st stack_layout_ok run] by (auto simp: process_constants)
qed

section \<open>Loading keeps the heap\<close>

lemma low_page:
  assumes "x < 2 ^ 38" "a \<in> heap_pages" shows "page_of_address x \<noteq> page_of_address a"
proof -
  have "x div 2 ^ 30 < 256" using assms(1) by (simp add: less_mult_imp_div_less)
  then have "vpn 2 x < 256" by (simp add: vpn_def)
  then show ?thesis using heap_vpn [OF assms(2)] by (auto simp: page_of_address_def)
qed

definition low_image :: "image \<Rightarrow> bool" where
  "low_image img \<longleftrightarrow> va (im_base img) + length (im_bytes img) \<le> unat IMAGE_LIMIT"

lemma stack_addresses:
  "step_by (unat USER_STACK_BOTTOM) (unat USER_STACK_TOP) (unat FRAME_SIZE) = [0x3FFFC000, 0x3FFFD000, 0x3FFFE000, 0x3FFFF000]"
  by (simp add: step_by_def process_constants upt_conv_Cons)

lemma process_pages_low:
  assumes "low_image img" "a \<in> heap_pages"
    and "v \<in> page_run (va (im_base img)) (length (chunks (unat FRAME_SIZE) (im_bytes img))) \<union>
      (\<lambda>a. page_of_address (unat a)) ` set (step_by (unat USER_STACK_BOTTOM) (unat USER_STACK_TOP) (unat FRAME_SIZE))"
  shows "v \<noteq> page_of_address a"
proof -
  from assms(3) consider
      (Image) k where "k < length (chunks (unat FRAME_SIZE) (im_bytes img))" "v = page_of_address (va (im_base img) + 4096 * k)"
    | (Stack) w where "w \<in> set (step_by (unat USER_STACK_BOTTOM) (unat USER_STACK_TOP) (unat FRAME_SIZE))" "v = page_of_address (unat w)"
    unfolding page_run_def by blast
  then show ?thesis
  proof cases
    case (Image k)
    then have "4096 * k < length (im_bytes img)" by (simp add: chunks_length)
    with assms(1) have "va (im_base img) + 4096 * k < 2 ^ 38" by (simp add: low_image_def process_constants)
    from low_page [OF this assms(2)] show ?thesis by (simp add: Image(2))
  next
    case (Stack w)
    then have "unat w < 2 ^ 38" unfolding stack_addresses by auto
    from low_page [OF this assms(2)] show ?thesis by (simp add: Stack(2))
  qed
qed

lemma map_process_heap:
  assumes st: "heap_state kp h (m, ba)" and img: "low_image img" and run: "map_process img kp allocate (m, ba) = (r, m', ba')"
  shows "heap_state kp h (m', ba')"
    "va (hp_mapped_start h) \<le> p \<Longrightarrow> p + 16384 \<le> unat HEAP_END \<Longrightarrow> zero_stack kp (m, ba) p \<Longrightarrow> zero_stack kp (m', ba') p"
proof -
  let ?root = "kernel_root kp"
  have inv: "space.kernel_inv kp (m, ba)" using st by (simp add: heap_state_def address_space_inv)
  note S = space.map_process_spec [OF inv run]
  have G: "tables.grows (ViaKernel kp) ?root (m, ba) (m', ba')" using S by blast
  have leaf: "leaf_entry (mc_mem m') ?root (page_of_address a) = leaf_entry (mc_mem m) ?root (page_of_address a)"
    if "a \<in> heap_pages" for a
    using S process_pages_low [OF img that] page_ok_address [of a] unfolding adds_leaves_def by blast
  have hf: "heap_frames (mc_mem m) ?root (set (free_frames ba))" using st by (simp add: heap_state_def)
  have keep: "heap_frames (mc_mem m') ?root (set (free_frames ba')) \<and> heap_mapped (mc_mem m') ?root = heap_mapped (mc_mem m) ?root"
    by (rule space.heap_frames_keep [OF hf G leaf])
  show st': "heap_state kp h (m', ba')"
    using st keep space.kernel_inv_grows [OF inv G] by (simp add: heap_state_def address_space_inv)
  assume p: "va (hp_mapped_start h) \<le> p" "p + 16384 \<le> unat HEAP_END" "zero_stack kp (m, ba) p"
  show "zero_stack kp (m', ba') p"
    unfolding zero_stack_def
  proof (intro allI impI)
    fix i :: nat assume i: "i < 16384"
    let ?x = "p + i"
    have x: "va (hp_mapped_start h) \<le> ?x" "?x < unat HEAP_END" using p i by linarith+
    obtain f where f: "heap_byte kp (m, ba) ?x f" "mc_mem m (f * 4096 + ?x mod 4096) = 0"
      using p(3) i by (auto simp: zero_stack_def)
    obtain g where g: "heap_byte kp (m', ba') ?x g" using heap_byte_at [OF st' x] by blast
    have "round_down ?x \<in> heap_pages" using heap_byte_at [OF st x] by (simp add: heap_mapped_def)
    from leaf [OF this] have "mk_pte f (leaf_flags ReadWrite Supervisor) = mk_pte g (leaf_flags ReadWrite Supervisor)"
      "representable f" "representable g" using f(1) g by (simp_all add: heap_byte_def)
    then have "g = f" using leaf_permits_flags(2) by metis
    moreover have "mc_mem m' (f * 4096 + ?x mod 4096) = mc_mem m (f * 4096 + ?x mod 4096)"
      by (rule tables.grows_data(1) [OF G, of f]) (use f(1) in \<open>simp_all add: heap_byte_def\<close>)
    ultimately show "\<exists>f. heap_byte kp (m', ba') ?x f \<and> mc_mem (fst (m', ba')) (f * 4096 + ?x mod 4096) = 0"
      using g f(2) by auto
  qed
qed

section \<open>Loading the process\<close>

lemma with_paging_load:
  assumes "\<not> kn_busy k" "kn_memory k = Some st" "map_process img (ms_paging st) allocate (kn_machine k, ms_frames st) = (q, m', ba')" "returns q"
  shows "with_paging (load_closure img) k =
    (Ok (Ok q), k\<lparr>kn_machine := m', kn_memory := Some (st\<lparr>ms_frames := ba'\<rparr>)\<rparr>)"
proof -
  have "result_of (map_process img (ms_paging st) allocate) (kn_machine k, ms_frames st) =
      (Ok q :: ((unit, LoadError) res, LoadError) res, m', ba')"
    using assms(3,4) by (cases q) (simp_all add: result_of_def)
  then have run: "load_closure img (ms_paging st, kn_machine k, ms_frames st) = (Ok q, ms_paging st, m', ba')"
    by (simp add: load_closure_def)
  show ?thesis unfolding with_paging_def
    by (subst bind_op_apply(1), rule with_state_free [OF assms(1), where x = "Ok q"])
      (simp_all add: assms(2) run unwrap_or_def)
qed

text \<open>A page mapped for user mode whose frame is not a table, not available, and holds the given bytes and zeros.\<close>

definition holds_page :: "kernel_paging \<Rightarrow> machine \<times> boot_frame_allocator \<Rightarrow> nat \<Rightarrow> bytes \<Rightarrow> PagePermissions \<Rightarrow> bool" where
  "holds_page kp ms a bs perms \<longleftrightarrow> (case ms of (m, ba) \<Rightarrow> \<exists>f.
     leaf_entry (mc_mem m) (kernel_root kp) (page_of_address a) = mk_pte f (leaf_flags perms User) \<and>
     representable f \<and> f \<notin> tables (mc_mem m) (kernel_root kp) \<and> f \<notin> set (free_frames ba) \<and>
     (\<forall>i<4096. mc_mem m (f * 4096 + i) = (if i < length bs then bs ! i else 0)))"

lemma user_page_holds: "space.user_page kp ms a bs perms f \<Longrightarrow> holds_page kp ms (va a) bs perms"
  by (cases ms) (auto simp: space.user_page_def holds_page_def)

text \<open>Image and stack of a process in memory.\<close>

definition process_mapped :: "kernel_paging \<Rightarrow> machine \<times> boot_frame_allocator \<Rightarrow> nat \<Rightarrow> bytes \<Rightarrow> bool" where
  "process_mapped kp ms base payload \<longleftrightarrow>
     (\<forall>j. 4096 * j < length payload \<longrightarrow> holds_page kp ms (base + 4096 * j) (take 4096 (drop (4096 * j) payload)) ReadExecute) \<and>
     (\<forall>j<4. holds_page kp ms (unat USER_STACK_BOTTOM + 4096 * j) [] ReadWrite)"

lemma map_process_mapped:
  assumes "address_space kp (m, ba)" "map_process img kp allocate (m, ba) = (Ok (), m', ba')"
  shows "process_mapped kp (m', ba') (va (im_base img)) (im_bytes img)"
proof -
  have inv: "space.kernel_inv kp (m, ba)" using assms(1) by (simp add: address_space_inv)
  note S = space.map_process_spec [OF inv assms(2)]
  have "holds_page kp (m', ba') (va (im_base img) + 4096 * j) (take 4096 (drop (4096 * j) (im_bytes img))) ReadExecute"
    if j: "4096 * j < length (im_bytes img)" for j
  proof -
    have k: "j < length (chunks 4096 (im_bytes img))" using j by (simp add: chunks_length)
    then obtain b f where "va b = va (im_base img) + 4096 * j" "space.user_page kp (m', ba') b (chunks 4096 (im_bytes img) ! j) ReadExecute f"
      using S by auto
    then show ?thesis using user_page_holds [of kp "(m', ba')" b] k by (simp add: chunks_nth)
  qed
  moreover have "holds_page kp (m', ba') (unat USER_STACK_BOTTOM + 4096 * j) [] ReadWrite" if j: "j < 4" for j
  proof -
    have "word_of_nat (unat USER_STACK_BOTTOM + j * 4096) \<in> set (step_by (unat USER_STACK_BOTTOM) (unat USER_STACK_TOP) (unat FRAME_SIZE))"
      using j by (simp add: step_by_def process_constants image_iff) (metis atLeastLessThan_iff le0)
    then obtain f where "space.user_page kp (m', ba') (VirtAddr (word_of_nat (unat USER_STACK_BOTTOM + j * 4096))) [] ReadWrite f"
      using S by blast
    from user_page_holds [OF this] have "holds_page kp (m', ba') (unat (word_of_nat (unat USER_STACK_BOTTOM + j * 4096) :: kusize)) [] ReadWrite"
      by simp
    moreover have "unat (word_of_nat (unat USER_STACK_BOTTOM + j * 4096) :: kusize) = unat USER_STACK_BOTTOM + 4096 * j"
      using j by (subst unat_of_nat) (simp add: process_constants)
    ultimately show ?thesis by (simp only:)
  qed
  ultimately show ?thesis by (simp add: process_mapped_def)
qed

lemma image_low:
  assumes "image_ok bs (unat IMAGE_LIMIT) (unat base) e"
  shows "low_image \<lparr>im_base = VirtAddr base, im_entry = x, im_bytes = drop 32 bs\<rparr>"
proof -
  have "round_up (unat base + (length bs - 32)) \<le> unat IMAGE_LIMIT" using assms by (simp only: image_ok_def)
  with round_up_ge [of "unat base + (length bs - 32)"] have "unat base + (length bs - 32) \<le> unat IMAGE_LIMIT" by (rule order_trans)
  then show ?thesis by (simp only: low_image_def image.simps VirtAddr.sel length_drop)
qed

definition current_space :: "'w kernel \<Rightarrow> machine \<times> boot_frame_allocator" where
  "current_space k = (kn_machine k, ms_frames (the (kn_memory k)))"

text \<open>The part of \<open>load_init\<close> after the slot has been claimed.\<close>

definition load_claimed :: "image \<Rightarrow> ('w kernel, process, LoadError) op" where
  "load_claimed img =
     bind_op reserve_stack (\<lambda>kernel_stack.
     bind_op (in_kernel (vwrite_bytes (unat kernel_stack) 0 (unat KERNEL_STACK_ELEMENTS * 16))) (\<lambda>_.
     bind_op (with_paging (load_closure img)) (\<lambda>r.
     bind_op (lift_op (map_err LoadMemory r)) (\<lambda>r.
     bind_op (lift_op r) (\<lambda>_.
     ret_op \<lparr>pr_context = user_context_new (im_entry img) (VirtAddr USER_STACK_TOP),
             pr_kernel_stack = kernel_stack\<rparr>)))))"

lemma load_init_cases:
  "load_init bs k =
     (case image_parse bs IMAGE_LIMIT of
        Ok img \<Rightarrow> if kn_claimed k then (Err ImageAlreadyClaimed, k) else load_claimed img (k\<lparr>kn_claimed := True\<rparr>)
      | Err e \<Rightarrow> (Err e, k) | Panic \<Rightarrow> (Panic, k) | Diverge \<Rightarrow> (Diverge, k))"
  by (cases k) (auto simp: load_init_def load_claimed_def bind_op_def split: res.split)

lemma load_claimed_spec:
  assumes ok: "allocator_ok k" and mem: "kn_memory k = Some st" and img: "low_image img" and run: "load_claimed img k = (r, k')"
  shows "returns r \<and> allocator_ok k' \<and> kn_hart k' = kn_hart k \<and> kn_claimed k' = kn_claimed k \<and>
    (\<exists>st'. kn_memory k' = Some st' \<and> ms_paging st' = ms_paging st \<and>
     (\<forall>pr. r = Ok pr \<longrightarrow> pr_context pr = user_context_new (im_entry img) (VirtAddr USER_STACK_TOP) \<and>
        process_mapped (ms_paging st) (current_space k') (va (im_base img)) (im_bytes img) \<and>
        zero_stack (ms_paging st) (current_space k') (unat (pr_kernel_stack pr)) \<and> unat (pr_kernel_stack pr) mod 16 = 0 \<and>
        unat (pr_kernel_stack pr) + 16384 \<le> va (hp_cursor (ms_heap st)) \<and> hp_cursor (ms_heap st') = VirtAddr (pr_kernel_stack pr)))"
  using ok stack_layout_ok
proof (cases rule: global_alloc_cases)
  case Uninstalled
  then show ?thesis using mem by simp
next
  case (Refused st0 e h' m1 ba1)
  then have "r = Err KernelStackAllocation" "k' = k\<lparr>kn_machine := m1, kn_memory := Some (st\<lparr>ms_heap := h', ms_frames := ba1\<rparr>)\<rparr>"
    using run mem by (auto simp: load_claimed_def reserve_stack_def bind_op_def)
  moreover have "allocator_ok k'" using global_alloc_total [OF ok stack_layout_ok] Refused mem calculation by auto
  ultimately show ?thesis by simp
next
  case (Given st0 p h' m1 ba1)
  let ?kp = "ms_paging st" and ?st1 = "st\<lparr>ms_heap := h', ms_frames := ba1\<rparr>"
  have st0: "st0 = st" using Given(1) mem by simp
  have hs: "heap_state ?kp (ms_heap st) (kn_machine k, ms_frames st)" "\<not> kn_busy k" using ok mem by (simp_all add: allocator_ok_def)
  obtain mm where mm: "(vwrite_bytes (unat p) 0 (unat KERNEL_STACK_ELEMENTS * 16) :: (machine, unit, LoadError) op) m1 = (Ok (), m1\<lparr>mc_mem := mm\<rparr>)"
      "heap_state ?kp h' (m1\<lparr>mc_mem := mm\<rparr>, ba1)" "zero_stack ?kp (m1\<lparr>mc_mem := mm\<rparr>, ba1) (unat p)" "p \<noteq> 0"
      "unat p mod 16 = 0" "va (hp_mapped_start h') \<le> unat p" "unat p + 16384 \<le> va (hp_cursor (ms_heap st))" "hp_cursor h' = VirtAddr p"
    using kernel_stack_spec [where 'e = LoadError, OF hs(1) Given(2) [unfolded st0]] by (elim exE conjE) (rule that)
  let ?m2 = "m1\<lparr>mc_mem := mm\<rparr>" and ?k2 = "k\<lparr>kn_machine := m1\<lparr>mc_mem := mm\<rparr>, kn_memory := Some (st\<lparr>ms_heap := h', ms_frames := ba1\<rparr>)\<rparr>"
  obtain q m3 ba3 where q: "map_process img ?kp allocate (?m2, ba1) = (q, m3, ba3)" by (metis surj_pair)
  let ?k3 = "k\<lparr>kn_machine := m3, kn_memory := Some (st\<lparr>ms_heap := h', ms_frames := ba3\<rparr>)\<rparr>"
  have "space.kernel_inv ?kp (?m2, ba1)" using mm(2) by (simp add: heap_state_def address_space_inv)
  then have ret: "returns q" using space.map_process_spec [OF _ q] by blast
  have wp: "with_paging (load_closure img) ?k2 = (Ok (Ok q), ?k3)"
    using with_paging_load [of ?k2 ?st1 img q m3 ba3] hs(2) q ret by simp
  have rs: "reserve_stack k = (Ok p, k\<lparr>kn_machine := m1, kn_memory := Some ?st1\<rparr>)"
    using Given(3) mm(4) by (simp add: reserve_stack_def st0)
  have fill: "in_kernel (vwrite_bytes (unat p) 0 (unat KERNEL_STACK_ELEMENTS * 16) :: (machine, unit, LoadError) op)
      (k\<lparr>kn_machine := m1, kn_memory := Some ?st1\<rparr>) = (Ok (), ?k2)"
    using mm(1) by (simp add: in_kernel_def)
  have run': "load_claimed img k = (bind_res q (\<lambda>_. Ok \<lparr>pr_context = user_context_new (im_entry img) (VirtAddr USER_STACK_TOP), pr_kernel_stack = p\<rparr>), ?k3)"
    unfolding load_claimed_def bind_op_apply(1) [where s = k and m = reserve_stack, OF rs]
    by (subst bind_op_apply(1), rule fill, subst bind_op_apply(1), rule wp)
      (use ret in \<open>cases q; simp add: bind_op_def\<close>)
  have out: "r = bind_res q (\<lambda>_. Ok \<lparr>pr_context = user_context_new (im_entry img) (VirtAddr USER_STACK_TOP), pr_kernel_stack = p\<rparr>)" "k' = ?k3"
    using run run' by simp_all
  have hi: "va (hp_cursor (ms_heap st)) \<le> unat HEAP_END" using hs(1) heap_limits by (auto simp: heap_state_def heap_ok_def)
  note H = map_process_heap(1) [OF mm(2) img q]
  have "zero_stack ?kp (m3, ba3) (unat p)"
    by (rule map_process_heap(2) [OF mm(2) img q mm(6) _ mm(3)]) (use mm(7) hi in linarith)
  moreover have "process_mapped ?kp (m3, ba3) (va (im_base img)) (im_bytes img)" if "q = Ok ()"
    using map_process_mapped [of ?kp ?m2 ba1 img m3 ba3] mm(2) q that by (simp add: heap_state_def)
  ultimately show ?thesis
    using H hs(2) ret mm(5,7,8) unfolding out by (cases q) (auto simp: allocator_ok_def current_space_def)
qed

end
