(* ===== verification/Fdt_Window.thy ===== *)
theory Fdt_Window
  imports Kernel_Paging
begin

text \<open>
  \<open>BootstrapPaging::map_fdt\<close>: five read-only gigapage leaves of the bootstrap root make the blob
  visible at the start of the upper half, and the bootstrap window stays usable.
\<close>

section \<open>Entries of the bootstrap root\<close>

lemma boot_entry_access:
  assumes "boot_ok bp m" "guarded (ViaBootstrap bp) m m'" "unat i < 512"
  shows "read_mapped_page_table_entry (bp_root_virtual bp) i m' = (Ok (pte_at (mc_mem m') (boot_root bp) (unat i)), m')"
    "write_mapped_page_table_entry (bp_root_virtual bp) i w m' = (Ok (), upd_mem (\<lambda>mm. set_entry mm (boot_root bp) (unat i) w) m')"
proof -
  have "i < PAGE_TABLE_ENTRIES" using assms(3) by (simp add: index_lt)
  then show "read_mapped_page_table_entry (bp_root_virtual bp) i m' = (Ok (pte_at (mc_mem m') (boot_root bp) (unat i)), m')"
    "write_mapped_page_table_entry (bp_root_virtual bp) i w m' = (Ok (), upd_mem (\<lambda>mm. set_entry mm (boot_root bp) (unat i) w) m')"
    using boot_translate_root [OF assms(1,2), of "8 * unat i"] assms(3)
    by (simp_all add: read_mapped_page_table_entry_def write_mapped_page_table_entry_def vload64_def vstore64_def cell_def
        set_entry_def not_le)
qed

text \<open>The physical gigapages of the window, and their entries.\<close>

definition fdt_base :: "PhysAddr \<Rightarrow> nat" where "fdt_base dtb = pa dtb div 2 ^ 30 * 2 ^ 18"

definition fdt_leaf :: "PhysAddr \<Rightarrow> nat \<Rightarrow> kusize" where
  "fdt_leaf dtb i = mk_pte (fdt_base dtb + i * 2 ^ 18) BOOT_FDT_PTE_FLAGS"

lemma fdt_words:
  assumes "pa dtb < 2 ^ 56" "i < 5"
  defines "w \<equiv> (pa_as_usize dtb AND NOT GIGAPAGE_MASK) + word_of_nat i * GIGAPAGE_SIZE"
  shows "unat w = (fdt_base dtb + i * 2 ^ 18) * 4096" "unat (BOOT_FDT_WINDOW_VPN2 + word_of_nat i) = 256 + i"
    "w \<le> MAX_PHYSICAL_ADDRESS \<longleftrightarrow> representable (fdt_base dtb + i * 2 ^ 18)"
    "representable (fdt_base dtb + i * 2 ^ 18) \<Longrightarrow> page_table_entry (PhysAddr w) BOOT_FDT_PTE_FLAGS = Ok (fdt_leaf dtb i)"
proof -
  have mask: "GIGAPAGE_MASK = mask 30" by (simp add: GIGAPAGE_MASK_def mask_eq_decr_exp)
  have b: "unat (pa_as_usize dtb AND NOT GIGAPAGE_MASK) = fdt_base dtb * 4096"
    unfolding mask unat_clear_mask by (simp add: fdt_base_def)
  have le: "fdt_base dtb * 4096 < 2 ^ 56" using assms(1) div_times_less_eq_dividend [of "pa dtb" "2 ^ 30"] unfolding fdt_base_def by simp
  have o: "unat (word_of_nat i * GIGAPAGE_SIZE :: kusize) = i * 2 ^ 30"
    using assms(2) by (subst unat_word_ariths(2)) (simp add: GIGAPAGE_SIZE_def unat_of_nat)
  show w: "unat w = (fdt_base dtb + i * 2 ^ 18) * 4096"
    unfolding w_def using assms(2) le b o by (subst unat_word_ariths(1)) simp
  show "unat (BOOT_FDT_WINDOW_VPN2 + word_of_nat i) = 256 + i"
    using assms(2) by (subst unat_word_ariths(1)) (simp add: BOOT_FDT_WINDOW_VPN2_def SV39_HIGH_HALF_VPN2_def unat_of_nat)
  show "w \<le> MAX_PHYSICAL_ADDRESS \<longleftrightarrow> representable (fdt_base dtb + i * 2 ^ 18)"
    unfolding word_le_nat_alt w by (simp add: MAX_PHYSICAL_ADDRESS_def representable_def) linarith
  assume rep: "representable (fdt_base dtb + i * 2 ^ 18)"
  have no: "frame_no (PhysFrame (PhysAddr w)) = fdt_base dtb + i * 2 ^ 18" by (simp add: frame_no_def w)
  have "frame_ok (PhysFrame (PhysAddr w))"
    using le assms(2) by (simp add: frame_ok_def frame_aligned_def w)
  from page_table_entry_frame [OF this] rep show "page_table_entry (PhysAddr w) BOOT_FDT_PTE_FLAGS = Ok (fdt_leaf dtb i)"
    by (simp add: no fdt_leaf_def)
qed

section \<open>The loops\<close>

text \<open>The window with its first \<open>k\<close> leaves installed.\<close>

definition fdt_installed :: "bootstrap_paging \<Rightarrow> PhysAddr \<Rightarrow> nat \<Rightarrow> machine \<Rightarrow> machine \<Rightarrow> bool" where
  "fdt_installed bp dtb k m m' \<longleftrightarrow> mc_satp m' = mc_satp m \<and>
     (\<forall>x. x div 4096 \<noteq> boot_root bp \<longrightarrow> mc_mem m' x = mc_mem m x) \<and>
     (\<forall>j<512. pte_at (mc_mem m') (boot_root bp) j =
        (if 256 \<le> j \<and> j < 256 + k then fdt_leaf dtb (j - 256) else pte_at (mc_mem m) (boot_root bp) j))"

lemma fdt_installed_ok:
  assumes "boot_ok bp m" "fdt_installed bp dtb k m m'" "k \<le> 5"
  shows "guarded (ViaBootstrap bp) m m'" "boot_ok bp m'"
proof -
  have i: "vpn 2 (va (bp_root_virtual bp)) < 256" by (rule boot_index [OF assms(1)])
  then have same: "pte_at (mc_mem m') (boot_root bp) (vpn 2 (va (bp_root_virtual bp))) = pte_at (mc_mem m) (boot_root bp) (vpn 2 (va (bp_root_virtual bp)))"
      "pte_at (mc_mem m') (boot_root bp) 511 = pte_at (mc_mem m) (boot_root bp) 511" "mc_satp m' = mc_satp m"
    using assms(2,3) by (auto simp: fdt_installed_def)
  then show "guarded (ViaBootstrap bp) m m'" by (simp add: guarded_def guard_def)
  show "boot_ok bp m'" using assms(1) same by (simp add: boot_ok_def Let_def)
qed

lemma fdt_check_loop:
  assumes ok: "boot_ok bp m" "pa dtb < 2 ^ 56" and k: "k \<le> 5"
  shows "(\<exists>e. for_op (fdt_window_check bp (pa_as_usize dtb AND NOT GIGAPAGE_MASK)) [0..<k] m = (Err e, m)) \<or>
    for_op (fdt_window_check bp (pa_as_usize dtb AND NOT GIGAPAGE_MASK)) [0..<k] m = (Ok (), m) \<and>
    (\<forall>i<k. pte_at (mc_mem m) (boot_root bp) (256 + i) = 0 \<and> representable (fdt_base dtb + i * 2 ^ 18))"
  using k
proof (induction k)
  case (Suc k)
  let ?f = "fdt_window_check bp (pa_as_usize dtb AND NOT GIGAPAGE_MASK)"
  note W = fdt_words [OF ok(2), of k]
  have "?f k m = (if pte_at (mc_mem m) (boot_root bp) (256 + k) \<noteq> 0
      then (Err (RootEntryInUse (BOOT_FDT_WINDOW_VPN2 + word_of_nat k) (pte_at (mc_mem m) (boot_root bp) (256 + k))), m)
      else if representable (fdt_base dtb + k * 2 ^ 18) then (Ok (), m)
      else (Err (PhysicalAddressNotRepresentable (PhysAddr ((pa_as_usize dtb AND NOT GIGAPAGE_MASK) + word_of_nat k * GIGAPAGE_SIZE))), m))"
    using boot_entry_access(1) [OF ok(1) guarded_refl, of "BOOT_FDT_WINDOW_VPN2 + word_of_nat k"] W Suc.prems
    by (auto simp: fdt_window_check_def bind_op_def Let_def not_less)
  then have step: "(\<exists>e. ?f k m = (Err e, m)) \<or> ?f k m = (Ok (), m) \<and> pte_at (mc_mem m) (boot_root bp) (256 + k) = 0 \<and>
      representable (fdt_base dtb + k * 2 ^ 18)" by auto
  have split: "for_op ?f [0..<Suc k] m = bind_op (for_op ?f [0..<k]) (\<lambda>_. for_op ?f [k]) m" by (simp add: for_op_append)
  from Suc.IH Suc.prems consider (Err) e where "for_op ?f [0..<k] m = (Err e, m)"
    | (Ok) "for_op ?f [0..<k] m = (Ok (), m)"
      "\<And>i. i < k \<Longrightarrow> pte_at (mc_mem m) (boot_root bp) (256 + i) = 0 \<and> representable (fdt_base dtb + i * 2 ^ 18)" by auto
  then show ?case
  proof cases
    case Err
    then show ?thesis unfolding split by (simp add: bind_op_def)
  next
    case Ok
    from step show ?thesis
    proof (elim disjE exE conjE)
      fix e assume "?f k m = (Err e, m)"
      then show ?thesis using Ok(1) unfolding split by (simp add: bind_op_def)
    next
      assume "?f k m = (Ok (), m)" "pte_at (mc_mem m) (boot_root bp) (256 + k) = 0" "representable (fdt_base dtb + k * 2 ^ 18)"
      then show ?thesis using Ok unfolding split by (auto simp: bind_op_def less_Suc_eq)
    qed
  qed
qed simp

lemma fdt_install_loop:
  assumes ok: "boot_ok bp m" "pa dtb < 2 ^ 56" and rep: "\<And>i. i < k \<Longrightarrow> representable (fdt_base dtb + i * 2 ^ 18)" and k: "k \<le> 5"
  shows "\<exists>m'. for_op (fdt_window_install bp (pa_as_usize dtb AND NOT GIGAPAGE_MASK)) [0..<k] m = (Ok (), m') \<and> fdt_installed bp dtb k m m'"
  using rep k
proof (induction k)
  case 0
  show ?case by (auto simp: fdt_installed_def)
next
  case (Suc k)
  let ?f = "fdt_window_install bp (pa_as_usize dtb AND NOT GIGAPAGE_MASK)" and ?r = "boot_root bp"
  obtain m1 where m1: "for_op ?f [0..<k] m = (Ok (), m1)" "fdt_installed bp dtb k m m1" using Suc.IH Suc.prems by auto
  note W = fdt_words [OF ok(2), of k]
  let ?m2 = "upd_mem (\<lambda>mm. set_entry mm ?r (256 + k) (fdt_leaf dtb k)) m1"
  have k5: "k < 5" "256 + k < 512" using Suc.prems(2) by auto
  have "?f k m1 = (Ok (), ?m2)"
    using boot_entry_access(2) [OF ok(1) fdt_installed_ok(1) [OF ok(1) m1(2)], of "BOOT_FDT_WINDOW_VPN2 + word_of_nat k"]
      W(1,2,4) [OF k5(1)] Suc.prems(1) [of k] k5
    by (simp add: fdt_window_install_def bind_op_def Let_def)
  then have "for_op ?f [0..<Suc k] m = (Ok (), ?m2)" using m1(1) by (simp add: for_op_append bind_op_def)
  moreover have "fdt_installed bp dtb (Suc k) m ?m2"
    using m1(2) k5 set_entry_other [OF k5(2)] unfolding fdt_installed_def by (auto simp: entry_set_entry less_Suc_eq)
  ultimately show ?case by blast
qed

section \<open>Reading the blob through the window\<close>

lemma fdt_flags: "BOOT_FDT_PTE_FLAGS = 67"
  by (simp add: BOOT_FDT_PTE_FLAGS_def PTE_VALID_def PTE_READ_def PTE_ACCESSED_def)

lemma fdt_leaf_permits:
  assumes "representable (fdt_base dtb + i * 2 ^ 18)"
  shows "leaf_permits Load (fdt_leaf dtb i)" "pte_ppn (fdt_leaf dtb i) = fdt_base dtb + i * 2 ^ 18"
proof -
  have f: "unat BOOT_FDT_PTE_FLAGS < 1024" by (simp add: fdt_flags)
  show "pte_ppn (fdt_leaf dtb i) = fdt_base dtb + i * 2 ^ 18" unfolding fdt_leaf_def by (rule pte_ppn_mk_pte(1) [OF assms f])
  have "bit BOOT_FDT_PTE_FLAGS 0" "bit BOOT_FDT_PTE_FLAGS 1" "\<not> bit BOOT_FDT_PTE_FLAGS 4" "bit BOOT_FDT_PTE_FLAGS 6"
    unfolding fdt_flags by (simp_all add: bit_numeral_rec)
  then show "leaf_permits Load (fdt_leaf dtb i)"
    using pte_ppn_mk_pte(2) [OF assms f] unfolding leaf_permits_def fdt_leaf_def by (simp add: bit_mk_pte)
qed

lemma fdt_translate:
  assumes ok: "boot_ok bp m" and inst: "fdt_installed bp dtb 5 m m'" and rep: "\<And>i. i < 5 \<Longrightarrow> representable (fdt_base dtb + i * 2 ^ 18)"
    and x: "pa dtb mod 2 ^ 30 + x < 5 * 2 ^ 30"
  shows "translate (mc_mem m') (mc_satp m') Load (0xFFFFFFC000000000 + pa dtb mod 2 ^ 30 + x) = Some (pa dtb + x)"
proof -
  define y where "y = pa dtb mod 2 ^ 30 + x"
  define i where "i = y div 2 ^ 30"
  let ?a = "0xFFFFFFC000000000 + y"
  have i: "i < 5" using x unfolding i_def y_def by (simp add: less_mult_imp_div_less)
  have d: "?a div 2 ^ 30 = 17179868928 + i"
    using div_mult_self1 [of "2 ^ 30 :: nat" y 17179868928] by (simp add: i_def add.commute)
  have "17179868928 + i = 256 + i + 33554431 * 512" by simp
  also have "(256 + i + 33554431 * 512) mod 512 = 256 + i" unfolding mod_mult_self1 using i by simp
  finally have v: "vpn 2 ?a = 256 + i" unfolding vpn_def using d by simp
  have satp: "satp_root (mc_satp m') = Some (boot_root bp)" using ok inst by (simp add: boot_ok_def fdt_installed_def Let_def)
  have e: "pte_at (mc_mem m') (boot_root bp) (vpn 2 ?a) = fdt_leaf dtb i" using inst i v by (simp add: fdt_installed_def)
  note L = fdt_leaf_permits [OF rep [OF i]]
  have "(pa dtb div 2 ^ 30 + i) * 512 ^ 2 mod 512 ^ 2 = (0 :: nat)" by (rule mod_mult_self2_is_0)
  then have aligned: "pte_ppn (fdt_leaf dtb i) mod 512 ^ 2 = 0" unfolding L(2) fdt_base_def by (simp add: distrib_right)
  have "walk (mc_mem m') Load ?a 2 (boot_root bp) = Some (pte_ppn (fdt_leaf dtb i) * 4096 + ?a mod (4096 * 512 ^ 2))"
    using walk_leaf [of Load "mc_mem m'" "boot_root bp" 2 ?a] L(1) aligned unfolding e by blast
  also have "?a mod (4096 * 512 ^ 2) = y mod 2 ^ 30"
    using mod_mult_self1 [of y 17179868928 "2 ^ 30 :: nat"] by (simp add: add.commute)
  also have "pte_ppn (fdt_leaf dtb i) * 4096 + y mod 2 ^ 30 = pa dtb div 2 ^ 30 * 2 ^ 30 + (i * 2 ^ 30 + y mod 2 ^ 30)"
    unfolding L(2) fdt_base_def by (simp add: algebra_simps)
  also have "i * 2 ^ 30 + y mod 2 ^ 30 = y" unfolding i_def by (rule div_mult_mod_eq)
  also have "pa dtb div 2 ^ 30 * 2 ^ 30 + y = pa dtb + x"
    unfolding y_def using div_mult_mod_eq [of "pa dtb" "2 ^ 30"] by linarith
  finally show ?thesis using satp by (simp add: translate_def canonical_def y_def add.assoc)
qed

lemma map_fdt_spec:
  assumes ok: "boot_ok bp m" and run: "map_fdt bp dtb m = (r, m')"
  shows "returns r \<and> boot_ok bp m' \<and> mc_satp m' = mc_satp m \<and>
    (\<forall>x. x div 4096 \<noteq> boot_root bp \<longrightarrow> mc_mem m' x = mc_mem m x) \<and> (\<forall>e. r = Err e \<longrightarrow> m' = m) \<and>
    (\<forall>v. r = Ok v \<longrightarrow> va v = 0xFFFFFFC000000000 + pa dtb mod 2 ^ 30 \<and>
       (\<forall>x. pa dtb mod 2 ^ 30 + x < 5 * 2 ^ 30 \<longrightarrow> translate (mc_mem m') (mc_satp m') Load (va v + x) = Some (pa dtb + x)))"
proof (cases "pa dtb < 2 ^ 56")
  case False
  then have "MAX_PHYSICAL_ADDRESS < pa_as_usize dtb" by (simp add: word_less_nat_alt MAX_PHYSICAL_ADDRESS_def)
  then have "r = Err (PhysicalAddressNotRepresentable dtb)" "m' = m" using run by (auto simp: map_fdt_def)
  then show ?thesis using ok by simp
next
  case True
  then have le: "\<not> MAX_PHYSICAL_ADDRESS < pa_as_usize dtb" by (simp add: word_less_nat_alt MAX_PHYSICAL_ADDRESS_def)
  let ?chk = "for_op (fdt_window_check bp (pa_as_usize dtb AND NOT GIGAPAGE_MASK)) [0..<5]"
  let ?ins = "for_op (fdt_window_install bp (pa_as_usize dtb AND NOT GIGAPAGE_MASK)) [0..<5]"
  let ?v = "VirtAddr (BOOT_FDT_WINDOW_BASE + (pa_as_usize dtb AND GIGAPAGE_MASK))"
  have run': "bind_op ?chk (\<lambda>_. bind_op ?ins (\<lambda>_. bind_op flush_all (\<lambda>_. ret_op ?v))) m = (r, m')"
    using run le unfolding map_fdt_def BOOT_FDT_WINDOW_GIGAPAGES_def Let_def by simp
  from fdt_check_loop [OF ok True, of 5] consider (Refused) e where "?chk m = (Err e, m)"
    | (Clear) "?chk m = (Ok (), m)" "\<And>i. i < 5 \<Longrightarrow> representable (fdt_base dtb + i * 2 ^ 18)" by blast
  then show ?thesis
  proof cases
    case Refused
    then have "r = Err e" "m' = m" using run' by (auto simp: bind_op_def)
    then show ?thesis using ok by simp
  next
    case Clear
    obtain m1 where m1: "?ins m = (Ok (), m1)" "fdt_installed bp dtb 5 m m1" using fdt_install_loop [OF ok True Clear(2), of 5] by auto
    have out: "r = Ok ?v" "m' = m1" using run' Clear(1) m1(1) by (auto simp: bind_op_def flush_all_def)
    have "GIGAPAGE_MASK = mask 30" by (simp add: GIGAPAGE_MASK_def mask_eq_decr_exp)
    then have o: "unat (pa_as_usize dtb AND GIGAPAGE_MASK) = pa dtb mod 2 ^ 30" using unat_and_mask [of "pa_as_usize dtb" 30] by simp
    have "pa dtb mod 2 ^ 30 < 2 ^ 30" by simp
    then have v: "va ?v = 0xFFFFFFC000000000 + pa dtb mod 2 ^ 30"
      using o by (simp add: unat_word_ariths BOOT_FDT_WINDOW_BASE_def SV39_HIGH_HALF_BASE_def)
    show ?thesis using out v m1(2) fdt_installed_ok(2) [OF ok m1(2)] fdt_translate [OF ok m1(2) Clear(2)]
      by (auto simp: fdt_installed_def)
  qed
qed

end
