(* ===== verification/Startup.thy ===== *)
theory Startup
  imports Process Kernel_Switch Fdt_Window
begin

text \<open>
  The start of the kernel: \<open>kernel/src/main.rs\<close> and the linker ranges of
  \<open>kernel/src/memory.rs\<close>.  Each stage of \<open>main\<close> is a definition; \<open>kernel_main\<close> composes
  them.  The addresses the linker chooses, the embedded image and the traps delivered while
  \<open>run_kernel\<close> waits for the timer are arguments.  A failure halts the hart with interrupts
  disabled and is reported by its reason; log records are left out.
\<close>

section \<open>Model\<close>

subsection \<open>Linker symbols\<close>

record linker =
  lk_physical_start :: kusize
  lk_virtual_start :: kusize
  lk_virtual_end :: kusize
  lk_text_start :: kusize
  lk_text_end :: kusize
  lk_rodata_start :: kusize
  lk_rodata_end :: kusize
  lk_data_start :: kusize
  lk_data_end :: kusize
  lk_bss_start :: kusize
  lk_bss_end :: kusize
  lk_stack_start :: kusize
  lk_stack_end :: kusize
  lk_trap_entry :: kusize

definition linker_sections :: "linker \<Rightarrow> kernel_sections" where
  "linker_sections lk = (
     let rng = (\<lambda>start stop. virt_range_new (VirtAddr start) (VirtAddr stop)) in
     \<lparr>ks_virtual_start = VirtAddr (lk_virtual_start lk),
      ks_text = rng (lk_text_start lk) (lk_text_end lk),
      ks_rodata = rng (lk_rodata_start lk) (lk_rodata_end lk),
      ks_data = rng (lk_data_start lk) (lk_data_end lk),
      ks_bss = rng (lk_bss_start lk) (lk_bss_end lk),
      ks_stack = rng (lk_stack_start lk) (lk_stack_end lk)\<rparr>)"

definition kernel_size :: "linker \<Rightarrow> (kusize, 'e) res" where
  "kernel_size lk = expect_some (checked_sub (lk_virtual_end lk) (lk_virtual_start lk))"

definition kernel_physical_start :: "linker \<Rightarrow> PhysAddr" where
  "kernel_physical_start lk = PhysAddr (lk_physical_start lk)"

definition kernel_range :: "linker \<Rightarrow> PhysAddr \<Rightarrow> (phys_range option, 'e) res" where
  "kernel_range lk physical_start =
     bind_res (kernel_size lk) (\<lambda>sz. Ok (phys_range_from_start_size physical_start sz))"

subsection \<open>State\<close>

text \<open>The kernel, the processor, and the claim flags of the bootstrap tables and of the frame allocator.\<close>

record 'w system =
  sy_kernel :: "'w kernel"
  sy_cpu :: cpu
  sy_bootstrap_claimed :: bool
  sy_frames_claimed :: bool

datatype Halt =
    BootstrapClaimFailed PagingError
  | DtbMappingFailed PagingError
  | FdtFailed Error
  | TimebaseInvalid
  | KernelRangeInvalid
  | DtbRangeInvalid
  | FrameAllocatorFailed BootFrameAllocatorError
  | KernelPagingFailed PagingError
  | HeapFailed "PagingError HeapError"
  | AllocatorFailed AllocatorInitError
  | ProcessFailed LoadError
  | TimerFailed TimerError

abbreviation sy_hart :: "'w system \<Rightarrow> 'w hart" where "sy_hart s \<equiv> kn_hart (sy_kernel s)"

definition upd_kernel :: "('w kernel \<Rightarrow> 'w kernel) \<Rightarrow> 'w system \<Rightarrow> 'w system" where
  "upd_kernel f s = s\<lparr>sy_kernel := f (sy_kernel s)\<rparr>"

definition upd_hart :: "('w hart \<Rightarrow> 'w hart) \<Rightarrow> 'w system \<Rightarrow> 'w system" where
  "upd_hart f = upd_kernel (\<lambda>k. k\<lparr>kn_hart := f (kn_hart k)\<rparr>)"

text \<open>Operations on a part of the state.\<close>

definition on_kernel :: "('w kernel, 'a, 'e) op \<Rightarrow> ('w system, 'a, 'e) op" where
  "on_kernel f s = (case f (sy_kernel s) of (r, k) \<Rightarrow> (r, s\<lparr>sy_kernel := k\<rparr>))"

definition on_hart :: "('w hart, 'a, 'e) op \<Rightarrow> ('w system, 'a, 'e) op" where
  "on_hart f = on_kernel (\<lambda>k. case f (kn_hart k) of (r, h) \<Rightarrow> (r, k\<lparr>kn_hart := h\<rparr>))"

text \<open>Operations that also change the frame allocator, which \<open>main\<close> owns.\<close>

definition with_frames ::
    "(machine \<times> boot_frame_allocator, 'a, 'e) op \<Rightarrow> boot_frame_allocator \<Rightarrow> ('w system, 'a \<times> boot_frame_allocator, 'e) op" where
  "with_frames f frames s =
     (case f (kn_machine (sy_kernel s), frames) of (r, m, frames') \<Rightarrow>
        (bind_res r (\<lambda>a. Ok (a, frames')), upd_kernel (\<lambda>k. k\<lparr>kn_machine := m\<rparr>) s))"

subsection \<open>Halting\<close>

definition halt :: "Halt \<Rightarrow> ('w system, 'a, Halt) op" where
  "halt reason s = (Err reason, upd_hart (\<lambda>h. snd (disable_interrupts h)) s)"

definition or_halt :: "('e \<Rightarrow> Halt) \<Rightarrow> ('w system, 'a, 'e) op \<Rightarrow> ('w system, 'a, Halt) op" where
  "or_halt reason f s =
     (case f s of (r, s') \<Rightarrow>
        (case r of Ok a \<Rightarrow> (Ok a, s') | Err e \<Rightarrow> halt (reason e) s' | Panic \<Rightarrow> (Panic, s') | Diverge \<Rightarrow> (Diverge, s')))"

definition some_or_halt :: "Halt \<Rightarrow> ('a option, infallible) res \<Rightarrow> ('w system, 'a, Halt) op" where
  "some_or_halt reason r s =
     (case r of Ok (Some a) \<Rightarrow> (Ok a, s) | Ok None \<Rightarrow> halt reason s | Panic \<Rightarrow> (Panic, s) | _ \<Rightarrow> (Diverge, s))"

subsection \<open>The device tree\<close>

text \<open>
  Loads through the active tables, for reading the blob in place.  An address that is not mapped
  reads as zero here; \<open>dtb_mapped\<close> below shows that no such address is read.
\<close>

definition virtual_view :: "machine \<Rightarrow> nat \<Rightarrow> u8" where
  "virtual_view m a = (case translate (mc_mem m) (mc_satp m) Load a of Some p \<Rightarrow> mc_mem m p | None \<Rightarrow> 0)"

definition timer_frequency :: "fdt \<Rightarrow> (u32 option, 'e) res" where
  "timer_frequency f =
     bind_res (fdt_root f) (\<lambda>root.
     bind_res (node_child root (ascii ''cpus'')) (\<lambda>cpus.
     case cpus of None \<Rightarrow> Ok None | Some cpus \<Rightarrow>
     bind_res (node_property cpus (ascii ''timebase-frequency'')) (\<lambda>p.
     case p of None \<Rightarrow> Ok None | Some p \<Rightarrow>
     (case decode_u32 (prop_value p) of None \<Rightarrow> Ok None | Some hz \<Rightarrow> Ok (if hz = 0 then None else Some hz)))))"

subsection \<open>The stages of main\<close>

text \<open>Interrupts off, trap entry installed, counter probed.\<close>

definition main_entry :: "'w platform \<Rightarrow> linker \<Rightarrow> ('w system, bool, Halt) op" where
  "main_entry pf lk s =
     (case disable_interrupts (sy_hart s) of (boot_interrupts, h) \<Rightarrow>
        (case (trap_init (lk_trap_entry lk) :: ('w hart \<times> cpu, unit, infallible) op) (h, sy_cpu s) of (r, h1, c) \<Rightarrow>
           (case r of
              Ok _ \<Rightarrow>
                (case time_init pf h1 of (_, h2) \<Rightarrow> (Ok boot_interrupts, upd_hart (\<lambda>_. h2) (s\<lparr>sy_cpu := c\<rparr>)))
            | _ \<Rightarrow> (Panic, upd_hart (\<lambda>_. h1) (s\<lparr>sy_cpu := c\<rparr>)))))"

definition main_bootstrap :: "('w system, bootstrap_paging, PagingError) op" where
  "main_bootstrap s =
     (case bootstrap_claim (sy_bootstrap_claimed s) (kn_machine (sy_kernel s)) of
        (r, c) \<Rightarrow> (r, s\<lparr>sy_bootstrap_claimed := c\<rparr>))"

definition main_fdt :: "VirtAddr \<Rightarrow> ('w system, fdt, Error) op" where
  "main_fdt dtb_virtual s = (fdt_from_ptr (virtual_view (kn_machine (sy_kernel s))) (va dtb_virtual), s)"

definition main_dtb :: "PhysAddr \<Rightarrow> ('w system, bootstrap_paging \<times> VirtAddr \<times> fdt, Halt) op" where
  "main_dtb dtb_phys =
     bind_op (or_halt BootstrapClaimFailed main_bootstrap) (\<lambda>bootstrap_paging.
     bind_op (or_halt DtbMappingFailed (on_kernel (in_kernel (map_fdt bootstrap_paging dtb_phys)))) (\<lambda>dtb_virtual.
     bind_op (or_halt FdtFailed (main_fdt dtb_virtual)) (\<lambda>f.
     ret_op (bootstrap_paging, dtb_virtual, f))))"

definition main_claim_frames :: "fdt \<Rightarrow> phys_range \<Rightarrow> phys_range \<Rightarrow> ('w system, boot_frame_allocator, BootFrameAllocatorError) op" where
  "main_claim_frames f kernel_rng dtb_range s =
     (case boot_claim (sy_frames_claimed s) f kernel_rng dtb_range of (r, c) \<Rightarrow> (r, s\<lparr>sy_frames_claimed := c\<rparr>))"

definition main_frames ::
    "linker \<Rightarrow> PhysAddr \<Rightarrow> fdt \<Rightarrow> ('w system, u32 \<times> phys_range \<times> boot_frame_allocator, Halt) op" where
  "main_frames lk dtb_phys f =
     bind_op (some_or_halt TimebaseInvalid (timer_frequency f)) (\<lambda>timebase_hz.
     bind_op (some_or_halt KernelRangeInvalid (kernel_range lk (kernel_physical_start lk))) (\<lambda>kernel_rng.
     bind_op (some_or_halt DtbRangeInvalid
         (Ok (phys_range_from_start_size dtb_phys (word_of_nat (fdt_total_size f))))) (\<lambda>dtb_range.
     bind_op (or_halt FrameAllocatorFailed (main_claim_frames f kernel_rng dtb_range)) (\<lambda>frames.
     ret_op (timebase_hz, dtb_range, frames)))))"

definition init_kernel_allocator :: "kernel_paging \<Rightarrow> boot_frame_allocator \<Rightarrow> ('w system, unit, Halt) op" where
  "init_kernel_allocator paging frames =
     bind_op (or_halt HeapFailed (with_frames (\<lambda>(m, ba).
         case claim_heap allocate (paging, m, ba) of (r, paging', m', ba') \<Rightarrow>
           (bind_res r (\<lambda>h. Ok (h, paging')), m', ba')) frames)) (\<lambda>((heap, paging'), frames').
     or_halt AllocatorFailed (on_kernel (initialize heap paging' frames')))"

subsection \<open>Waiting for the timer\<close>

text \<open>
  What happens during the wait: the outside world moves on, then a trap is taken.  The list
  bounds the traps that are delivered; a trap that does not return ends the wait.
\<close>

type_synonym 'w event = "('w \<Rightarrow> 'w) \<times> trap_frame"

fun wait_for_ticks :: "'w platform \<Rightarrow> u64 \<Rightarrow> 'w event list \<Rightarrow> ('w hart, unit, 'e) op" where
  "wait_for_ticks pf initial [] h = (if timer_ticks h - initial < 2 then Diverge else Ok (), h)"
| "wait_for_ticks pf initial ((passes, frame) # es) h =
     (if timer_ticks h - initial < 2 then
        (case trap_handler pf frame (h\<lparr>ht_world := passes (ht_world h)\<rparr>) of (out, h') \<Rightarrow>
           (case out of TrapReturn _ \<Rightarrow> wait_for_ticks pf initial es h' | _ \<Rightarrow> (Diverge, h')))
      else (Ok (), h))"

definition PERIOD :: duration where "PERIOD = \<lparr>du_secs = 0, du_nanos = 10000000\<rparr>"

text \<open>The processor's copy of \<open>sstatus\<close> is that of the hart.\<close>

definition enter_process :: "process \<Rightarrow> ('w system, unit, 'e) op" where
  "enter_process p = modify_op (\<lambda>s.
     let c = process_run p ((sy_cpu s)\<lparr>cp_sstatus := ht_sstatus (sy_hart s)\<rparr>) in
     upd_hart (\<lambda>h. h\<lparr>ht_sstatus := cp_sstatus c\<rparr>) (s\<lparr>sy_cpu := c\<rparr>))"

definition run_kernel :: "'w platform \<Rightarrow> bytes \<Rightarrow> 'w event list \<Rightarrow> u32 \<Rightarrow> bool \<Rightarrow> ('w system, unit, Halt) op" where
  "run_kernel pf init_image events timebase_hz boot_interrupts =
     bind_op (or_halt ProcessFailed (on_kernel (load_init init_image))) (\<lambda>process.
     bind_op (or_halt TimerFailed (on_hart (timer_init pf timebase_hz PERIOD))) (\<lambda>_.
     bind_op (get_op (\<lambda>s. timer_ticks (sy_hart s))) (\<lambda>initial_ticks.
     bind_op (modify_op (upd_hart (interrupt_guard_drop boot_interrupts))) (\<lambda>_.
     bind_op (modify_op (upd_hart enable_interrupts)) (\<lambda>_.
     bind_op (on_hart (wait_for_ticks pf initial_ticks events)) (\<lambda>_.
     enter_process process))))))"

definition kernel_main ::
    "'w platform \<Rightarrow> linker \<Rightarrow> bytes \<Rightarrow> 'w event list \<Rightarrow> kusize \<Rightarrow> ('w system, unit, Halt) op" where
  "kernel_main pf lk init_image events dtb = (
     let dtb_phys = PhysAddr dtb in
     bind_op (main_entry pf lk) (\<lambda>boot_interrupts.
     bind_op (main_dtb dtb_phys) (\<lambda>(bootstrap_paging, dtb_virtual, f).
     bind_op (main_frames lk dtb_phys f) (\<lambda>(timebase_hz, dtb_range, frames).
     bind_op (or_halt KernelPagingFailed (with_frames
         (into_kernel bootstrap_paging (kernel_physical_start lk) (linker_sections lk) dtb_virtual dtb_range allocate) frames))
       (\<lambda>(kernel_paging, frames').
     bind_op (init_kernel_allocator kernel_paging frames') (\<lambda>_.
     run_kernel pf init_image events timebase_hz boot_interrupts))))))"

section \<open>The wait\<close>

text \<open>A trap of the periodic timer that its handler serves, and the hart after it.\<close>

definition after_event :: "'w platform \<Rightarrow> 'w event \<Rightarrow> 'w hart \<Rightarrow> 'w hart" where
  "after_event pf e h = snd (trap_handler pf (snd e) (h\<lparr>ht_world := fst e (ht_world h)\<rparr>))"

definition timely :: "'w platform \<Rightarrow> 'w hart \<Rightarrow> 'w event \<Rightarrow> bool" where
  "timely pf h e \<longleftrightarrow> tf_cause (snd e) = TIMER_INTERRUPT \<and>
     fst (handle_interrupt pf (h\<lparr>ht_world := fst e (ht_world h)\<rparr>)) = Ok ()"

lemma handle_interrupt_ticks:
  "handle_interrupt pf h = (Ok (), h') \<Longrightarrow> ht_ticks h' = ht_ticks h + 1"
  by (cases rule: handle_interrupt_cases [where pf = pf and h = h]) (auto simp: world_after_def)

lemma timely_step:
  assumes "timely pf h (passes, frame)"
  shows "trap_handler pf frame (h\<lparr>ht_world := passes (ht_world h)\<rparr>) = (TrapReturn frame, after_event pf (passes, frame) h)"
    "timer_ticks (after_event pf (passes, frame) h) = timer_ticks h + 1"
proof -
  let ?h = "h\<lparr>ht_world := passes (ht_world h)\<rparr>"
  obtain h' where h': "handle_interrupt pf ?h = (Ok (), h')" using assms by (cases "handle_interrupt pf ?h") (auto simp: timely_def)
  have c: "tf_cause frame = TIMER_INTERRUPT" using assms by (simp add: timely_def)
  note T = trap_timer [OF c h']
  show "trap_handler pf frame ?h = (TrapReturn frame, after_event pf (passes, frame) h)"
    by (simp add: T after_event_def)
  show "timer_ticks (after_event pf (passes, frame) h) = timer_ticks h + 1"
    using handle_interrupt_ticks [OF h'] by (simp add: T after_event_def timer_ticks_def)
qed

lemma ticks_apart: "n - n < (2 :: u64)" "n + 1 - n < (2 :: u64)" "\<not> n + 1 + 1 - n < (2 :: u64)"
  by simp_all

text \<open>Two ticks end the wait, whatever the counter started from.\<close>

lemma wait_two_ticks:
  assumes "timely pf h e1" "timely pf (after_event pf e1 h) e2"
  shows "(wait_for_ticks pf (timer_ticks h) (e1 # e2 # es) h :: (unit, 'e) res \<times> 'w hart) =
    (Ok (), after_event pf e2 (after_event pf e1 h))"
proof -
  obtain p1 f1 p2 f2 where e: "e1 = (p1, f1)" "e2 = (p2, f2)" by (metis surj_pair)
  note S1 = timely_step [OF assms(1) [unfolded e]] and S2 = timely_step [OF assms(2) [unfolded e(2)]]
  let ?h1 = "after_event pf (p1, f1) h"
  let ?h2 = "after_event pf (p2, f2) ?h1"
  have t: "timer_ticks ?h1 = timer_ticks h + 1" "timer_ticks ?h2 = timer_ticks h + 1 + 1" using S1 S2 by (simp_all add: e)
  have "wait_for_ticks pf (timer_ticks h) es ?h2 = (Ok (), ?h2)" using t(2) ticks_apart(3) [of "timer_ticks h"]
    by (cases es) (auto simp del: add_diff_cancel)
  then show ?thesis using S1 S2 t by (simp add: e)
qed

text \<open>Without them it does not end; and it ends only after two ticks.\<close>

lemma wait_result:
  assumes "wait_for_ticks pf n es h = (r, h')"
  shows "(r = Ok () \<or> r = Diverge) \<and> (r = Ok () \<longrightarrow> \<not> timer_ticks h' - n < 2)"
  using assms
proof (induction pf n es h arbitrary: r h' rule: wait_for_ticks.induct)
  case (2 pf n passes frame es h)
  then show ?case by (auto split: if_splits prod.splits trap_outcome.splits)
qed (auto split: if_splits)

lemma trap_handler_interval: "ht_interval (snd (trap_handler pf frame h)) = ht_interval h"
proof -
  have h: "ht_interval (snd (handle_interrupt pf h)) = ht_interval h"
    by (cases rule: handle_interrupt_cases [where pf = pf and h = h]) (auto simp: world_after_def)
  have s: "ht_interval (snd (handle_syscall pf a b h)) = ht_interval h" for a b
    by (subst handle_syscall_keeps) (simp add: process_idle_def enable_interrupts_def)
  obtain r1 h1 where r1: "handle_interrupt pf h = (r1, h1)" by (cases "handle_interrupt pf h")
  obtain o2 h2 where o2: "handle_syscall pf (tf_registers frame ! 17) (tf_registers frame ! 10) h = (o2, h2)"
    by (cases "handle_syscall pf (tf_registers frame ! 17) (tf_registers frame ! 10) h")
  have same: "ht_interval h1 = ht_interval h" "ht_interval h2 = ht_interval h"
    using h r1 s [of "tf_registers frame ! 17" "tf_registers frame ! 10"] o2 by simp_all
  have fatal: "ht_interval (snd (trap_fatal h)) = ht_interval h" "ht_interval (snd (trap_fatal h1)) = ht_interval h"
    using same by (simp_all add: trap_fatal_def time_disable_def disable_interrupts_def Let_def)
  have fault: "ht_interval (snd (process_fault frame h)) = ht_interval h"
    by (simp add: process_fault_def process_idle_def enable_interrupts_def)
  show ?thesis unfolding trap_handler_def r1 o2 Let_def using same fatal fault
    by (cases o2; cases "checked_add (tf_epc frame) 4") (simp_all cong: if_cong)
qed

lemma wait_interval:
  "wait_for_ticks pf n es h = (r, h') \<Longrightarrow> ht_interval h' = ht_interval h"
proof (induction pf n es h arbitrary: r h' rule: wait_for_ticks.induct)
  case (2 pf n passes frame es h)
  let ?h = "h\<lparr>ht_world := passes (ht_world h)\<rparr>"
  obtain out h1 where t: "trap_handler pf frame ?h = (out, h1)" by (cases "trap_handler pf frame ?h")
  have i: "ht_interval h1 = ht_interval h" using trap_handler_interval [of pf frame ?h] t by simp
  have IH: "timer_ticks h - n < 2 \<Longrightarrow> out = TrapReturn f \<Longrightarrow> wait_for_ticks pf n es h1 = (r, h') \<Longrightarrow> ht_interval h' = ht_interval h1" for f
    by (rule "2.IH" [OF _ t [symmetric]])
  show ?case using "2.prems" i IH by (cases out) (simp_all add: t split: if_splits)
qed (simp split: if_splits)

section \<open>The timebase\<close>

text \<open>The timebase of a device tree.\<close>

definition dt_timebase :: "dtree \<Rightarrow> u32 option" where
  "dt_timebase t =
     (case List.find (\<lambda>k. dt_name k = ascii ''cpus'') (dt_kids t) of None \<Rightarrow> None
      | Some cpus \<Rightarrow> (case dt_prop cpus (ascii ''timebase-frequency'') of None \<Rightarrow> None
         | Some v \<Rightarrow> if length v = 4 \<and> u32_from_be_bytes v \<noteq> 0 then Some (u32_from_be_bytes v) else None))"

lemma timer_frequency_eq:
  assumes "fdt_rep f t xs"
  shows "(timer_frequency f :: (_, 'e) res) = Ok (dt_timebase t)"
proof -
  obtain nd where nd: "fdt_root f = (Ok nd :: (_, 'e) res)" "node_rep (fdt_strings f) nd t"
    using fdt_root_rep [OF assms] by blast
  obtain c where c: "(node_child nd (ascii ''cpus'') :: (_, 'e) res) = Ok c"
      "rel_option (node_rep (fdt_strings f)) c (List.find (\<lambda>k. dt_name k = ascii ''cpus'') (dt_kids t))"
    using node_child_eq [OF nd(2)] by blast
  show ?thesis
  proof (cases c)
    case None
    then show ?thesis using nd(1) c by (simp add: timer_frequency_def dt_timebase_def)
  next
    case (Some n)
    then obtain k where k: "List.find (\<lambda>k. dt_name k = ascii ''cpus'') (dt_kids t) = Some k" "node_rep (fdt_strings f) n k"
      using c(2) by (cases "List.find (\<lambda>k. dt_name k = ascii ''cpus'') (dt_kids t)") auto
    show ?thesis using nd(1) c(1) Some k node_property_eq [where 'e = 'e, OF k(2), of "ascii ''timebase-frequency''"]
      by (auto simp: timer_frequency_def dt_timebase_def dt_prop_def decode_u32_def split: option.split)
  qed
qed

end
