(* ===== verification/Startup_Correct.thy ===== *)
theory Startup_Correct
  imports Startup
begin

text \<open>
  The start of the kernel is correct: a small calculus for operations that go on or halt with
  interrupts disabled, the contract of every stage of \<open>main\<close>, and of their composition.
\<close>

section \<open>Stages\<close>

definition quiet :: "'w system \<Rightarrow> bool" where
  "quiet s \<longleftrightarrow> ht_sstatus (sy_hart s) AND 2 = 0"

text \<open>From \<open>P\<close>, an operation goes on with \<open>Q\<close>, halts quietly, or waits forever in a state of \<open>D\<close>.\<close>

definition stage ::
    "('w system \<Rightarrow> bool) \<Rightarrow> ('w system \<Rightarrow> bool) \<Rightarrow> ('w system, 'a, Halt) op \<Rightarrow> ('a \<Rightarrow> 'w system \<Rightarrow> bool) \<Rightarrow> bool" where
  "stage D P f Q \<longleftrightarrow> (\<forall>s. P s \<longrightarrow>
     (case f s of (r, s') \<Rightarrow>
        (case r of Ok a \<Rightarrow> Q a s' | Err _ \<Rightarrow> quiet s' | Panic \<Rightarrow> False | Diverge \<Rightarrow> D s')))"

lemma stageI:
  "(\<And>s r s'. P s \<Longrightarrow> f s = (r, s') \<Longrightarrow> case r of Ok a \<Rightarrow> Q a s' | Err _ \<Rightarrow> quiet s' | Panic \<Rightarrow> False | Diverge \<Rightarrow> D s') \<Longrightarrow>
   stage D P f Q"
  unfolding stage_def by (auto split: prod.split)

lemma stageD:
  "stage D P f Q \<Longrightarrow> P s \<Longrightarrow> f s = (r, s') \<Longrightarrow>
   case r of Ok a \<Rightarrow> Q a s' | Err _ \<Rightarrow> quiet s' | Panic \<Rightarrow> False | Diverge \<Rightarrow> D s'"
  unfolding stage_def by fastforce

lemma stage_bind:
  assumes "stage D P f Q" "\<And>a. stage D (Q a) (g a) R"
  shows "stage D P (bind_op f g) R"
proof (rule stageI)
  fix s r s' assume P: "P s" and run: "bind_op f g s = (r, s')"
  from run show "case r of Ok a \<Rightarrow> R a s' | Err _ \<Rightarrow> quiet s' | Panic \<Rightarrow> False | Diverge \<Rightarrow> D s'"
  proof (cases rule: bind_op_cases)
    case (Ok a s1)
    from stageD [OF assms(1) P Ok(1)] have "Q a s1" by simp
    from stageD [OF assms(2) this Ok(2)] show ?thesis .
  qed (use stageD [OF assms(1) P] in fastforce)+
qed

lemma stage_weaken: "stage D P f Q \<Longrightarrow> (\<And>s. P' s \<Longrightarrow> P s) \<Longrightarrow> (\<And>a s. Q a s \<Longrightarrow> Q' a s) \<Longrightarrow> stage D P' f Q'"
  unfolding stage_def by (fastforce split: res.split)

lemma stage_ret: "(\<And>s. P s \<Longrightarrow> Q a s) \<Longrightarrow> stage D P (ret_op a) Q"
  by (simp add: stage_def)

lemma quiet_halt: "quiet (upd_hart (\<lambda>h. snd (disable_interrupts h)) s)"
proof -
  have "(w AND NOT 2) AND 2 = (0 :: kusize)" for w by (simp add: and.assoc)
  then show ?thesis by (simp add: quiet_def upd_hart_def upd_kernel_def disable_interrupts_def Let_def)
qed

lemma stage_or_halt:
  assumes "\<And>s r s'. P s \<Longrightarrow> f s = (r, s') \<Longrightarrow> returns r \<and> (\<forall>a. r = Ok a \<longrightarrow> Q a s')"
  shows "stage D P (or_halt c f) Q"
proof (rule stageI)
  fix s r s' assume P: "P s" and run: "or_halt c f s = (r, s')"
  obtain q s1 where q: "f s = (q, s1)" by (cases "f s")
  with assms [OF P q] run quiet_halt show "case r of Ok a \<Rightarrow> Q a s' | Err _ \<Rightarrow> quiet s' | Panic \<Rightarrow> False | Diverge \<Rightarrow> D s'"
    by (cases q) (auto simp: or_halt_def halt_def)
qed

lemma stage_some_or_halt:
  assumes "\<And>s. P s \<Longrightarrow> \<exists>x. q = Ok x"
  shows "stage D P (some_or_halt c q) (\<lambda>a s. P s \<and> q = Ok (Some a))"
proof (rule stageI)
  fix s r s' assume P: "P s" and run: "some_or_halt c q s = (r, s')"
  obtain x where "q = Ok x" using assms [OF P] by blast
  with P run quiet_halt show "case r of Ok a \<Rightarrow> P s' \<and> q = Ok (Some a) | Err _ \<Rightarrow> quiet s' | Panic \<Rightarrow> False | Diverge \<Rightarrow> D s'"
    by (cases x) (auto simp: some_or_halt_def halt_def)
qed

lemma stage_pure: "(K \<Longrightarrow> stage D P f Q) \<Longrightarrow> stage D (\<lambda>s. P s \<and> K) f Q"
  by (auto simp: stage_def)

section \<open>The state at entry\<close>

text \<open>
  What the boot code hands over: an aligned trap entry, an image of non-negative size, no memory
  state yet, and, where translation is active, a root table that is identity-mapped and lies within the image.
\<close>

definition in_image :: "linker \<Rightarrow> nat \<Rightarrow> bool" where
  "in_image lk n \<longleftrightarrow>
     frame_addrs n \<subseteq> {unat (lk_physical_start lk) ..< unat (lk_physical_start lk) + (unat (lk_virtual_end lk) - unat (lk_virtual_start lk))}"

definition no_memory :: "'w system \<Rightarrow> bool" where
  "no_memory s \<longleftrightarrow> \<not> kn_busy (sy_kernel s) \<and> kn_memory (sy_kernel s) = None"

abbreviation sy_machine :: "'w system \<Rightarrow> machine" where "sy_machine s \<equiv> kn_machine (sy_kernel s)"

definition linker_ok :: "linker \<Rightarrow> bool" where
  "linker_ok lk \<longleftrightarrow> lk_trap_entry lk AND 3 = 0 \<and> lk_virtual_start lk \<le> lk_virtual_end lk"

definition booted :: "linker \<Rightarrow> 'w system \<Rightarrow> bool" where
  "booted lk s \<longleftrightarrow> linker_ok lk \<and> no_memory s \<and>
     (case active_root_table (sy_machine s) of
        Ok root \<Rightarrow> let bp = \<lparr>bp_root_virtual = VirtAddr (pa_as_usize root)\<rparr> in
          boot_ok bp (sy_machine s) \<and> in_image lk (boot_root bp)
      | _ \<Rightarrow> True)"

lemma main_entry_stage: "stage D (booted lk) (main_entry pf lk) (\<lambda>_. booted lk)"
proof (rule stageI)
  fix s r s' assume P: "booted lk s" and run: "main_entry pf lk s = (r, s')"
  have "lk_trap_entry lk AND 3 = 0" using P by (simp add: booted_def linker_ok_def)
  with run have "\<exists>a. r = Ok a" "sy_machine s' = sy_machine s" "no_memory s' = no_memory s"
    by (auto simp: main_entry_def disable_interrupts_def Let_def trap_init_def time_init_eq upd_hart_def upd_kernel_def no_memory_def)
  with P show "case r of Ok a \<Rightarrow> booted lk s' | Err _ \<Rightarrow> quiet s' | Panic \<Rightarrow> False | Diverge \<Rightarrow> D s'"
    by (auto simp: booted_def split: res.splits)
qed

section \<open>The device tree\<close>

definition rooted :: "linker \<Rightarrow> bootstrap_paging \<Rightarrow> 'w system \<Rightarrow> bool" where
  "rooted lk bp s \<longleftrightarrow> linker_ok lk \<and> no_memory s \<and> boot_ok bp (sy_machine s) \<and> in_image lk (boot_root bp)"

lemma bootstrap_stage: "stage D (booted lk) (or_halt BootstrapClaimFailed main_bootstrap) (rooted lk)"
proof (rule stage_or_halt)
  fix s r s' assume P: "booted lk s" and run: "main_bootstrap s = (r, s')"
  have ret: "returns (active_root_table (sy_machine s))" by (simp add: active_root_table_def Let_def)
  from ret show "returns r \<and> (\<forall>a. r = Ok a \<longrightarrow> rooted lk a s')"
  proof (cases rule: returnsE)
    case (Ok root)
    then show ?thesis using P run
      by (auto simp: main_bootstrap_def bootstrap_claim_def booted_def rooted_def no_memory_def Let_def split: if_splits)
  qed (use run in \<open>auto simp: main_bootstrap_def bootstrap_claim_def\<close>)
qed

lemma on_machine_run:
  "on_kernel (in_kernel f) s = (r, s') \<Longrightarrow> \<exists>m. f (sy_machine s) = (r, m) \<and> s' = upd_kernel (\<lambda>k. k\<lparr>kn_machine := m\<rparr>) s"
  by (auto simp: on_kernel_def in_kernel_def upd_kernel_def split: prod.splits)

text \<open>Every byte the parser can read, up to the largest size a header can state, is mapped.\<close>

definition dtb_mapped :: "PhysAddr \<Rightarrow> VirtAddr \<Rightarrow> machine \<Rightarrow> bool" where
  "dtb_mapped dtb v m \<longleftrightarrow> (\<forall>x<2 ^ 32. translate (mc_mem m) (mc_satp m) Load (va v + x) = Some (pa dtb + x))"

lemma map_fdt_stage:
  "stage D (rooted lk bp) (or_halt DtbMappingFailed (on_kernel (in_kernel (map_fdt bp dtb))))
     (\<lambda>v s. rooted lk bp s \<and> dtb_mapped dtb v (sy_machine s))"
proof (rule stage_or_halt)
  fix s r s' assume P: "rooted lk bp s" and run: "on_kernel (in_kernel (map_fdt bp dtb)) s = (r, s')"
  obtain m where m: "map_fdt bp dtb (sy_machine s) = (r, m)" "s' = upd_kernel (\<lambda>k. k\<lparr>kn_machine := m\<rparr>) s"
    using on_machine_run [OF run] by blast
  have ok: "boot_ok bp (sy_machine s)" using P by (simp add: rooted_def)
  note S = map_fdt_spec [OF ok m(1)]
  have "dtb_mapped dtb v m" if "r = Ok v" for v
    unfolding dtb_mapped_def
  proof (intro allI impI)
    fix x :: nat assume x: "x < 2 ^ 32"
    have "pa dtb mod 2 ^ 30 < 2 ^ 30" by simp
    then have "pa dtb mod 2 ^ 30 + x < 5 * 2 ^ 30" using x by simp
    then show "translate (mc_mem m) (mc_satp m) Load (va v + x) = Some (pa dtb + x)" using S that by blast
  qed
  then show "returns r \<and> (\<forall>v. r = Ok v \<longrightarrow> rooted lk bp s' \<and> dtb_mapped dtb v (sy_machine s'))"
    using S P by (simp add: m(2) rooted_def no_memory_def upd_kernel_def)
qed

definition parsed :: "linker \<Rightarrow> PhysAddr \<Rightarrow> bootstrap_paging \<times> VirtAddr \<times> fdt \<Rightarrow> 'w system \<Rightarrow> bool" where
  "parsed lk dtb x s \<longleftrightarrow> (case x of (bp, v, f) \<Rightarrow> rooted lk bp s \<and> dtb_mapped dtb v (sy_machine s) \<and>
     fdt_from_ptr (virtual_view (sy_machine s)) (va v) = Ok f)"

lemma main_dtb_stage: "stage D (booted lk) (main_dtb dtb) (parsed lk dtb)"
  unfolding main_dtb_def
proof (rule stage_bind [OF bootstrap_stage], rule stage_bind [OF map_fdt_stage])
  fix bp v
  have "stage D (\<lambda>s. rooted lk bp s \<and> dtb_mapped dtb v (sy_machine s)) (or_halt FdtFailed (main_fdt v)) (\<lambda>f. parsed lk dtb (bp, v, f))"
  proof (rule stage_or_halt)
    fix s r s'
    assume "rooted lk bp s \<and> dtb_mapped dtb v (sy_machine s)" "main_fdt v s = (r, s')"
    then show "returns r \<and> (\<forall>a. r = Ok a \<longrightarrow> parsed lk dtb (bp, v, a) s')"
      using fdt_from_ptr_returns [of "virtual_view (sy_machine s)" "va v"] by (auto simp: main_fdt_def parsed_def)
  qed
  then show "stage D (\<lambda>s. rooted lk bp s \<and> dtb_mapped dtb v (sy_machine s))
      (bind_op (or_halt FdtFailed (main_fdt v)) (\<lambda>f. ret_op (bp, v, f))) (parsed lk dtb)"
    by (rule stage_bind) (rule stage_ret)
qed

section \<open>Frames\<close>

definition framed :: "linker \<Rightarrow> bootstrap_paging \<Rightarrow> u32 \<times> phys_range \<times> boot_frame_allocator \<Rightarrow> 'w system \<Rightarrow> bool" where
  "framed lk bp x s \<longleftrightarrow> (case x of (hz, rng, ba) \<Rightarrow> rooted lk bp s \<and> boot_space bp (sy_machine s, ba))"

text \<open>A frame of the kernel's image is never available.\<close>

lemma image_frames_reserved:
  assumes f: "fdt_from_ptr mem p = Ok f" and k: "phys_range_from_start_size (PhysAddr (lk_physical_start lk)) w = Some rng"
    "checked_sub (lk_virtual_end lk) (lk_virtual_start lk) = Some w"
    and d: "phys_range_ok d" and c: "boot_claim c f rng d = (Ok ba, c')" and n: "in_image lk n"
  shows "ba_inv ba" "n \<notin> set (free_frames ba)"
proof -
  have r: "pr_start rng = PhysAddr (lk_physical_start lk)" "0 < unat w" "pa (pr_end rng) = unat (lk_physical_start lk) + unat w"
    using k(1) by (auto simp: phys_range_from_start_size_Some)
  have w: "unat w = unat (lk_virtual_end lk) - unat (lk_virtual_start lk)" using k(2) by (simp add: checked_sub_SomeD)
  have ok: "phys_range_ok rng" using r by (simp add: phys_range_ok_def)
  obtain t xs where st: "ba_inv ba" "ba_kernel ba = rng"
      "\<And>n. n \<in> set (free_frames ba) \<longleftrightarrow>
         (\<exists>r\<in>set (fdt_memory_list f). frame_addrs n \<subseteq> mem_region r) \<and> \<not> reserved_frame (ba_reserved ba) n"
    by (rule claimed_state [OF f ok d c]) blast
  show "ba_inv ba" by (rule st(1))
  have "frame_addrs n \<subseteq> addrs rng" using n unfolding in_image_def addrs_def by (simp add: r w)
  moreover have "n * 4096 \<in> frame_addrs n" by (simp add: frame_addrs_def)
  ultimately have "reserved_frame (ba_reserved ba) n" by (auto simp: reserved_frame_def ba_reserved_def st(2))
  then show "n \<notin> set (free_frames ba)" by (simp add: st(3))
qed

lemma boot_claim_returns: "fdt_from_ptr mem p = Ok f \<Longrightarrow> returns (fst (boot_claim c f k d))"
proof -
  assume "fdt_from_ptr mem p = Ok f"
  then obtain t xs where "fdt_rep f t xs" using fdt_from_ptr_rep by blast
  from boot_claim_eq [OF this, of c k d] show ?thesis by (auto split: if_splits option.splits)
qed

lemma claim_frames_stage:
  assumes k: "kernel_range lk (kernel_physical_start lk) = (Ok (Some rng) :: (_, infallible) res)"
    and d: "phys_range_from_start_size dtb n = Some d"
  shows "stage D (parsed lk dtb (bp, v, f)) (or_halt FrameAllocatorFailed (main_claim_frames f rng d)) (\<lambda>ba. framed lk bp (hz, d, ba))"
proof (rule stage_or_halt)
  fix s r s' assume P: "parsed lk dtb (bp, v, f) s" and run: "main_claim_frames f rng d s = (r, s')"
  obtain c' where c: "boot_claim (sy_frames_claimed s) f rng d = (r, c')" "s' = s\<lparr>sy_frames_claimed := c'\<rparr>"
    using run by (auto simp: main_claim_frames_def split: prod.splits)
  have f: "fdt_from_ptr (virtual_view (sy_machine s)) (va v) = Ok f" "rooted lk bp s" using P by (simp_all add: parsed_def)
  obtain w where w: "checked_sub (lk_virtual_end lk) (lk_virtual_start lk) = Some w"
      "phys_range_from_start_size (PhysAddr (lk_physical_start lk)) w = Some rng"
    using k by (auto simp: kernel_range_def kernel_size_def kernel_physical_start_def)
  have dok: "phys_range_ok d" using d by (auto simp: phys_range_from_start_size_Some phys_range_ok_def)
  have "framed lk bp (hz, d, ba) s'" if r: "r = Ok ba" for ba
    using image_frames_reserved [OF f(1) w(2,1) dok c(1) [unfolded r]] f(2)
    by (auto simp: framed_def rooted_def boot_space_def c(2) no_memory_def)
  then show "returns r \<and> (\<forall>ba. r = Ok ba \<longrightarrow> framed lk bp (hz, d, ba) s')"
    using boot_claim_returns [OF f(1), of "sy_frames_claimed s" rng d] c(1) by simp
qed

lemma main_frames_stage: "stage D (parsed lk dtb (bp, v, f)) (main_frames lk dtb f) (framed lk bp)"
proof -
  let ?P = "parsed lk dtb (bp, v, f) :: 'w system \<Rightarrow> bool"
  have hz: "\<exists>x. timer_frequency f = (Ok x :: (_, infallible) res)" if "?P s" for s
    using that fdt_from_ptr_rep timer_frequency_eq unfolding parsed_def by fastforce
  have size: "\<exists>x. kernel_range lk (kernel_physical_start lk) = (Ok x :: (_, infallible) res)" if "?P s" for s
    using that by (auto simp: parsed_def rooted_def linker_ok_def kernel_range_def kernel_size_def checked_sub_def word_le_nat_alt)
  show ?thesis unfolding main_frames_def
    by (rule stage_bind [OF stage_some_or_halt [OF hz] stage_pure], assumption,
        rule stage_bind [OF stage_some_or_halt [OF size] stage_pure], assumption,
        rule stage_bind [OF stage_some_or_halt stage_pure], blast,
        rule stage_bind [OF claim_frames_stage stage_ret]) auto
qed

section \<open>The kernel's address space and allocator\<close>

lemma linker_sections_ok: "sections_ok (section_list (linker_sections lk))"
  by (auto simp: sections_ok_def section_list_def linker_sections_def Let_def virt_range_new_Some virt_range_ok_def dest!: sym [of "Some _"])

definition paged :: "kernel_paging \<times> boot_frame_allocator \<Rightarrow> 'w system \<Rightarrow> bool" where
  "paged x s \<longleftrightarrow> (case x of (kp, ba) \<Rightarrow> no_memory s \<and> address_space kp (sy_machine s, ba))"

lemma with_frames_run:
  assumes "with_frames f ba s = (r, s')"
  obtains q m ba' where "f (sy_machine s, ba) = (q, m, ba')" "r = bind_res q (\<lambda>a. Ok (a, ba'))" "s' = upd_kernel (\<lambda>k. k\<lparr>kn_machine := m\<rparr>) s"
  using assms by (auto simp: with_frames_def split: prod.splits)

lemma into_kernel_stage:
  "stage D (framed lk bp (hz, rng, ba)) (or_halt KernelPagingFailed
     (with_frames (into_kernel bp start (linker_sections lk) v rng allocate) ba)) paged"
proof (rule stage_or_halt)
  fix s r s'
  assume P: "framed lk bp (hz, rng, ba) s" and run: "with_frames (into_kernel bp start (linker_sections lk) v rng allocate) ba s = (r, s')"
  from run obtain q m ba' where q: "into_kernel bp start (linker_sections lk) v rng allocate (sy_machine s, ba) = (q, m, ba')"
      "r = bind_res q (\<lambda>a. Ok (a, ba'))" "s' = upd_kernel (\<lambda>k. k\<lparr>kn_machine := m\<rparr>) s"
    by (rule with_frames_run)
  have "boot_space bp (sy_machine s, ba)" "no_memory s" using P by (simp_all add: framed_def rooted_def)
  with into_kernel_spec [OF _ linker_sections_ok q(1)] show "returns r \<and> (\<forall>a. r = Ok a \<longrightarrow> paged a s')"
    by (cases q) (auto simp: q(2,3) paged_def no_memory_def upd_kernel_def)
qed

definition heaped :: "'w system \<Rightarrow> bool" where
  "heaped s \<longleftrightarrow> allocator_ok (sy_kernel s) \<and> (\<exists>st. kn_memory (sy_kernel s) = Some st)"

lemma initialize_fresh:
  assumes "\<not> kn_busy k" "kn_memory k = None"
  shows "initialize heap paging frames k =
    (Ok (), k\<lparr>kn_memory := Some \<lparr>ms_heap = heap, ms_paging = paging, ms_frames = frames\<rparr>\<rparr>)"
proof -
  have "with_state (\<lambda>(stored, m). case stored of
         Some _ \<Rightarrow> (Ok (Err AllocatorAlreadyInitialized), stored, m)
       | None \<Rightarrow> (Ok (Ok ()), Some \<lparr>ms_heap = heap, ms_paging = paging, ms_frames = frames\<rparr>, m)) k =
      (Ok (Some (Ok ())) :: (_, AllocatorInitError) res, k\<lparr>kn_machine := kn_machine k, kn_memory := Some \<lparr>ms_heap = heap, ms_paging = paging, ms_frames = frames\<rparr>\<rparr>)"
    by (rule with_state_free) (use assms in simp_all)
  then show ?thesis by (cases k) (simp add: initialize_def bind_op_def unwrap_or_def)
qed

definition heap_ready :: "(kernel_heap \<times> kernel_paging) \<times> boot_frame_allocator \<Rightarrow> 'w system \<Rightarrow> bool" where
  "heap_ready x s \<longleftrightarrow> (case x of ((h, kp), ba) \<Rightarrow> no_memory s \<and> heap_state kp h (sy_machine s, ba))"

lemma init_kernel_allocator_stage:
  fixes D :: "'w system \<Rightarrow> bool"
  shows "stage D (paged (kp, ba)) (init_kernel_allocator kp ba) (\<lambda>_. heaped)"
  unfolding init_kernel_allocator_def
proof (rule stage_bind)
  let ?f = "\<lambda>(m, ba). case claim_heap allocate (kp, m, ba) of (r, paging', m', ba') \<Rightarrow> (bind_res r (\<lambda>h. Ok (h, paging')), m', ba')"
  show "stage D (paged (kp, ba)) (or_halt HeapFailed (with_frames ?f ba)) heap_ready"
  proof (rule stage_or_halt)
    fix s r and s' :: "'w system" assume P: "paged (kp, ba) s" and run: "with_frames ?f ba s = (r, s')"
    from run obtain q m ba' where q: "?f (sy_machine s, ba) = (q, m, ba')" "r = bind_res q (\<lambda>a. Ok (a, ba'))"
        "s' = upd_kernel (\<lambda>k. k\<lparr>kn_machine := m\<rparr>) s"
      by (rule with_frames_run)
    obtain r1 kp' m1 ba1 where c: "claim_heap allocate (kp, sy_machine s, ba) = (r1, kp', m1, ba1)" by (rule prod_cases4)
    have "address_space kp (sy_machine s, ba)" "no_memory s" using P by (simp_all add: paged_def)
    with claim_heap_state [OF _ c] show "returns r \<and> (\<forall>a. r = Ok a \<longrightarrow> heap_ready a s')"
      using q c by (cases r1) (auto simp: heap_ready_def no_memory_def upd_kernel_def)
  qed
next
  fix x :: "(kernel_heap \<times> kernel_paging) \<times> boot_frame_allocator"
  obtain h kp' ba' where x: "x = ((h, kp'), ba')" by (metis surj_pair)
  have "stage D (heap_ready x) (or_halt AllocatorFailed (on_kernel (initialize h kp' ba'))) (\<lambda>_. heaped)"
  proof (rule stage_or_halt)
    fix s r and s' :: "'w system"
    assume "heap_ready x s" and run: "on_kernel (initialize h kp' ba') s = (r, s')"
    then have P: "no_memory s \<and> heap_state kp' h (sy_machine s, ba')" by (simp add: heap_ready_def x)
    have "initialize h kp' ba' (sy_kernel s) = (Ok (), (sy_kernel s)\<lparr>kn_memory := Some \<lparr>ms_heap = h, ms_paging = kp', ms_frames = ba'\<rparr>\<rparr>)"
      by (rule initialize_fresh) (use P in \<open>simp_all add: no_memory_def\<close>)
    with run P show "returns r \<and> (\<forall>a. r = Ok a \<longrightarrow> heaped s')"
      by (auto simp: on_kernel_def heaped_def allocator_ok_def no_memory_def)
  qed
  then show "stage D (heap_ready x)
      (case x of (y, ba') \<Rightarrow> (case y of (h, kp') \<Rightarrow> \<lambda>ba'. or_halt AllocatorFailed (on_kernel (initialize h kp' ba'))) ba') (\<lambda>_. heaped)"
    by (simp add: x)
qed

section \<open>Running\<close>

text \<open>A process is ready: loaded, with a clear kernel stack, over the allocator's address space.\<close>

definition loaded :: "bytes \<Rightarrow> process \<Rightarrow> 'w system \<Rightarrow> bool" where
  "loaded bs p s \<longleftrightarrow> (\<exists>st img. allocator_ok (sy_kernel s) \<and> kn_memory (sy_kernel s) = Some st \<and> kn_claimed (sy_kernel s) \<and>
     image_parse bs IMAGE_LIMIT = Ok img \<and> pr_context p = user_context_new (im_entry img) (VirtAddr USER_STACK_TOP) \<and>
     process_mapped (ms_paging st) (current_space (sy_kernel s)) (va (im_base img)) (im_bytes img) \<and>
     zero_stack (ms_paging st) (current_space (sy_kernel s)) (unat (pr_kernel_stack p)))"

lemma allocator_ok_claimed [simp]: "allocator_ok (k\<lparr>kn_claimed := b\<rparr>) = allocator_ok k"
  by (simp add: allocator_ok_def)

lemma load_init_stage: "stage D heaped (or_halt ProcessFailed (on_kernel (load_init bs))) (loaded bs)"
proof (rule stage_or_halt)
  fix s r s' assume P: "heaped s" and run: "on_kernel (load_init bs) s = (r, s')"
  obtain k' where k: "load_init bs (sy_kernel s) = (r, k')" "s' = s\<lparr>sy_kernel := k'\<rparr>"
    using run by (auto simp: on_kernel_def split: prod.splits)
  from image_parse_returns [of bs IMAGE_LIMIT] show "returns r \<and> (\<forall>p. r = Ok p \<longrightarrow> loaded bs p s')"
  proof (cases rule: returnsE)
    case (Err e)
    then show ?thesis using k by (auto simp: load_init_cases)
  next
    case (Ok img)
    let ?k = "(sy_kernel s)\<lparr>kn_claimed := True\<rparr>"
    have low: "low_image img" using Ok image_low by (auto simp: image_parse_Ok)
    obtain st where st: "allocator_ok ?k" "kn_memory ?k = Some st" using P by (auto simp: heaped_def)
    show ?thesis
    proof (cases "kn_claimed (sy_kernel s)")
      case True
      then show ?thesis using k Ok by (auto simp: load_init_cases)
    next
      case False
      then have "load_claimed img ?k = (r, k')" using k(1) Ok by (simp add: load_init_cases)
      from load_claimed_spec [OF st low this] show ?thesis using Ok by (auto simp: loaded_def k(2))
    qed
  qed
qed

lemma loaded_hart [simp]: "loaded bs p (upd_hart f s) = loaded bs p s"
  by (simp add: loaded_def upd_hart_def upd_kernel_def allocator_ok_def current_space_def)

lemma upd_hart_hart [simp]: "sy_hart (upd_hart f s) = f (sy_hart s)"
  by (simp add: upd_hart_def upd_kernel_def)

lemma on_hart_run: "on_hart f s = (r, s') \<Longrightarrow> \<exists>h. f (sy_hart s) = (r, h) \<and> s' = upd_hart (\<lambda>_. h) s"
  by (auto simp: on_hart_def on_kernel_def upd_hart_def upd_kernel_def split: prod.splits)

definition armed :: "bytes \<Rightarrow> process \<Rightarrow> 'w system \<Rightarrow> bool" where
  "armed bs p s \<longleftrightarrow> loaded bs p s \<and> ht_interval (sy_hart s) \<noteq> 0"

lemma timer_stage: "stage D (loaded bs p) (or_halt TimerFailed (on_hart (timer_init pf hz d))) (\<lambda>_. armed bs p)"
proof (rule stage_or_halt)
  fix s r s' assume P: "loaded bs p s" and run: "on_hart (timer_init pf hz d) s = (r, s')"
  obtain h where h: "timer_init pf hz d (sy_hart s) = (r, h)" "s' = upd_hart (\<lambda>_. h) s" using on_hart_run [OF run] by blast
  have n: "n \<noteq> 0" if "interval_ticks hz d = Ok n" for n
    using that by (auto simp: interval_ticks_eq Let_def word_unat_eq_iff unat_of_nat split: if_splits)
  show "returns r \<and> (\<forall>a. r = Ok a \<longrightarrow> armed bs p s')"
    by (cases rule: timer_init_cases [where pf = pf and hz = hz and p = d and h = "sy_hart s"])
      (use h P n in \<open>auto simp: armed_def\<close>)
qed

definition entered :: "bytes \<Rightarrow> 'w system \<Rightarrow> bool" where
  "entered bs s \<longleftrightarrow> (\<exists>p img. armed bs p s \<and> image_parse bs IMAGE_LIMIT = Ok img \<and>
     cp_sepc (sy_cpu s) = va_as_usize (im_entry img) \<and> cp_x (sy_cpu s) = (replicate 32 0)[2 := USER_STACK_TOP] \<and>
     cp_sstatus (sy_cpu s) = INITIAL_USER_STATUS \<and> cp_sscratch (sy_cpu s) = pr_kernel_stack p + STACK_SIZE)"

lemma enter_user_cpu:
  "enter_user (user_context_new e (VirtAddr USER_STACK_TOP)) (VirtAddr t) c =
     c\<lparr>cp_x := (replicate 32 0)[2 := USER_STACK_TOP], cp_sepc := va_as_usize e, cp_sstatus := INITIAL_USER_STATUS, cp_sscratch := t\<rparr>"
proof -
  have s: "INITIAL_USER_STATUS AND NOT 2 = INITIAL_USER_STATUS" "INITIAL_USER_STATUS AND SUPERVISOR_ORIGIN = 0"
    by (simp_all add: INITIAL_USER_STATUS_def SUPERVISOR_ORIGIN_def)
  have r: "((replicate 32 0)[2 := USER_STACK_TOP])[0 := 0] = (replicate 32 0)[2 := USER_STACK_TOP]"
    by (metis list_update_id list_update_swap nth_list_update_neq nth_replicate zero_less_numeral zero_neq_numeral)
  show ?thesis unfolding enter_user_def trap_restore_def user_context_new_def Let_def by (simp add: s [simplified] r)
qed

lemma enter_stage:
  fixes D :: "'w system \<Rightarrow> bool"
  shows "stage D (armed bs p) (enter_process p) (\<lambda>_. entered bs)"
proof (rule stageI)
  fix s r and s' :: "'w system" assume P: "armed bs p s" and run: "enter_process p s = (r, s')"
  obtain img where img: "image_parse bs IMAGE_LIMIT = Ok img" "pr_context p = user_context_new (im_entry img) (VirtAddr USER_STACK_TOP)"
    using P by (auto simp: armed_def loaded_def)
  let ?c = "process_run p ((sy_cpu s)\<lparr>cp_sstatus := ht_sstatus (sy_hart s)\<rparr>)"
  have out: "r = Ok ()" "s' = upd_hart (\<lambda>h. h\<lparr>ht_sstatus := cp_sstatus ?c\<rparr>) (s\<lparr>sy_cpu := ?c\<rparr>)"
    using run by (auto simp: enter_process_def Let_def)
  have cpu: "sy_cpu s' = ?c" by (simp add: out(2) upd_hart_def upd_kernel_def)
  have "armed bs p s'" using P by (simp add: armed_def out(2)) (simp add: loaded_def)
  with img show "case r of Ok a \<Rightarrow> entered bs s' | Err _ \<Rightarrow> quiet s' | Panic \<Rightarrow> False | Diverge \<Rightarrow> D s'"
    unfolding out(1) entered_def cpu by (auto simp: process_run_def enter_user_cpu)
qed

text \<open>The kernel can only wait for ever where it waits for the timer, which is then armed.\<close>

definition waiting :: "bytes \<Rightarrow> 'w system \<Rightarrow> bool" where
  "waiting bs s \<longleftrightarrow> (\<exists>p. armed bs p s)"

lemma wait_stage:
  "stage (waiting bs) (armed bs p) (on_hart (wait_for_ticks pf n es)) (\<lambda>_. armed bs p)"
proof (rule stageI)
  fix s r s' assume P: "armed bs p s" and run: "on_hart (wait_for_ticks pf n es) s = (r, s')"
  obtain h where h: "wait_for_ticks pf n es (sy_hart s) = (r, h)" "s' = upd_hart (\<lambda>_. h) s" using on_hart_run [OF run] by blast
  have "armed bs p s'" using P wait_interval [OF h(1)] by (simp add: armed_def h(2))
  then show "case r of Ok a \<Rightarrow> armed bs p s' | Err _ \<Rightarrow> quiet s' | Panic \<Rightarrow> False | Diverge \<Rightarrow> waiting bs s'"
    using wait_result [OF h(1)] by (auto simp: waiting_def)
qed

lemma stage_modify: "(\<And>s. P s \<Longrightarrow> Q (f s)) \<Longrightarrow> stage D P (modify_op f) (\<lambda>_. Q)"
  by (simp add: stage_def)

lemma stage_get: "stage D P (get_op f) (\<lambda>_. P)"
  by (simp add: stage_def)

lemma armed_hart: "(\<And>h. ht_interval (f h) = ht_interval h) \<Longrightarrow> armed bs p s \<Longrightarrow> armed bs p (upd_hart f s)"
  by (simp add: armed_def)

lemma run_kernel_stage: "stage (waiting bs) heaped (run_kernel pf bs es hz g) (\<lambda>_. entered bs)"
  unfolding run_kernel_def
proof (rule stage_bind [OF load_init_stage], rule stage_bind [OF timer_stage], rule stage_bind [OF stage_get])
  fix p n
  have drop: "ht_interval (interrupt_guard_drop g h) = ht_interval h" "ht_interval (enable_interrupts h) = ht_interval h" for h :: "'w hart"
    by (simp_all add: interrupt_guard_drop_def enable_interrupts_def)
  show "stage (waiting bs) (armed bs p)
     (bind_op (modify_op (upd_hart (interrupt_guard_drop g))) (\<lambda>_.
      bind_op (modify_op (upd_hart enable_interrupts)) (\<lambda>_.
      bind_op (on_hart (wait_for_ticks pf n es)) (\<lambda>_. enter_process p)))) (\<lambda>_. entered bs)"
    by (rule stage_bind [OF stage_modify], erule armed_hart [OF drop(1)],
        rule stage_bind [OF stage_modify], erule armed_hart [OF drop(2)],
        rule stage_bind [OF wait_stage enter_stage])
qed

section \<open>The whole start\<close>

lemma kernel_main_stage: "stage (waiting bs) (booted lk) (kernel_main pf lk bs es dtb) (\<lambda>_. entered bs)"
  unfolding kernel_main_def Let_def
proof (rule stage_bind [OF main_entry_stage], rule stage_bind [OF main_dtb_stage])
  fix g and x :: "bootstrap_paging \<times> VirtAddr \<times> fdt"
  obtain bp v f where x: "x = (bp, v, f)" by (rule prod_cases3)
  have "stage (waiting bs) (framed lk bp y) ((\<lambda>(hz, rng, ba).
     bind_op (or_halt KernelPagingFailed (with_frames
         (into_kernel bp (kernel_physical_start lk) (linker_sections lk) v rng allocate) ba)) (\<lambda>(kp, ba').
     bind_op (init_kernel_allocator kp ba') (\<lambda>_. run_kernel pf bs es hz g))) y) (\<lambda>_. entered bs)" for y
  proof -
    obtain hz rng ba where y: "y = (hz, rng, ba)" by (rule prod_cases3)
    have "stage (waiting bs) (paged z) ((\<lambda>(kp, ba').
       bind_op (init_kernel_allocator kp ba') (\<lambda>_. run_kernel pf bs es hz g)) z) (\<lambda>_. entered bs)" for z
      by (cases z) (simp, rule stage_bind [OF init_kernel_allocator_stage run_kernel_stage])
    from stage_bind [OF into_kernel_stage this] show ?thesis by (simp add: y)
  qed
  from stage_bind [OF main_frames_stage this]
  show "stage (waiting bs) (parsed lk (PhysAddr dtb) x) ((\<lambda>(bp, v, f).
     bind_op (main_frames lk (PhysAddr dtb) f) (\<lambda>(hz, rng, ba).
     bind_op (or_halt KernelPagingFailed (with_frames
         (into_kernel bp (kernel_physical_start lk) (linker_sections lk) v rng allocate) ba)) (\<lambda>(kp, ba').
     bind_op (init_kernel_allocator kp ba') (\<lambda>_. run_kernel pf bs es hz g)))) x) (\<lambda>_. entered bs)"
    by (simp add: x)
qed

end
