(* ===== verification/Boot.thy ===== *)
theory Boot
  imports Startup_Correct
begin

text \<open>
  The boot assembly, \<open>kernel/src/arch/riscv64/boot.rs\<close>: both entry points as lists of
  instructions, and an interpreter for the instructions they use.  \<open>la\<close> and \<open>lla\<close> load an address
  the linker chooses.  Branch targets are positions in the list.  Loads and stores are physical while
  translation is off and go through the active tables once it is on; a store that is not
  permitted is a fault.  Running off the list or jumping out of it to an address that is not an
  entry point is not a run.
\<close>

unbundle bit_operations_syntax

section \<open>Model\<close>

datatype boot_reg = Zero | GP | SP | A0 | A1 | T0 | T1 | T2 | T3 | T4 | T5 | T6

datatype boot_instr =
    La boot_reg kusize
  | Mv boot_reg boot_reg
  | Li boot_reg kusize
  | Add boot_reg boot_reg boot_reg
  | Addi boot_reg boot_reg kusize
  | OrR boot_reg boot_reg boot_reg
  | Ori boot_reg boot_reg kusize
  | Andi boot_reg boot_reg kusize
  | Srli boot_reg boot_reg nat
  | Slli boot_reg boot_reg nat
  | Sd boot_reg boot_reg
  | Ld boot_reg boot_reg
  | Bgeu boot_reg boot_reg nat
  | Jmp nat
  | CsrwSatp boot_reg
  | SfenceVma
  | Jr boot_reg
  | Tail kusize

record boot_state =
  bt_regs :: "boot_reg \<Rightarrow> kusize"
  bt_machine :: machine

datatype boot_flow = Goto nat boot_state | Leave kusize boot_state | Fault

definition boot_address :: "machine \<Rightarrow> access_kind \<Rightarrow> kusize \<Rightarrow> nat option" where
  "boot_address m k a = (if mc_satp m = 0 then Some (unat a) else translate (mc_mem m) (mc_satp m) k (unat a))"

definition set_reg :: "boot_reg \<Rightarrow> kusize \<Rightarrow> boot_state \<Rightarrow> boot_state" where
  "set_reg r v st = (if r = Zero then st else st\<lparr>bt_regs := (bt_regs st)(r := v)\<rparr>)"

definition boot_get :: "boot_state \<Rightarrow> boot_reg \<Rightarrow> kusize" where
  "boot_get st r = (if r = Zero then 0 else bt_regs st r)"

definition boot_step :: "boot_instr \<Rightarrow> nat \<Rightarrow> boot_state \<Rightarrow> boot_flow" where
  "boot_step i pc st = (
     let x = boot_get st; m = bt_machine st; next = (\<lambda>r v. Goto (pc + 1) (set_reg r v st)) in
     case i of
       La d a \<Rightarrow> next d a
     | Mv d s \<Rightarrow> next d (x s)
     | Li d v \<Rightarrow> next d v
     | Add d s t \<Rightarrow> next d (x s + x t)
     | Addi d s v \<Rightarrow> next d (x s + v)
     | OrR d s t \<Rightarrow> next d (x s OR x t)
     | Ori d s v \<Rightarrow> next d (x s OR v)
     | Andi d s v \<Rightarrow> next d (x s AND v)
     | Srli d s n \<Rightarrow> next d (drop_bit n (x s))
     | Slli d s n \<Rightarrow> next d (push_bit n (x s))
     | Sd s b \<Rightarrow>
         (case boot_address m Store (x b) of
            None \<Rightarrow> Fault
          | Some p \<Rightarrow> Goto (pc + 1) (st\<lparr>bt_machine := m\<lparr>mc_mem := store64 (mc_mem m) p (x s)\<rparr>\<rparr>))
     | Ld d b \<Rightarrow> (case boot_address m Load (x b) of None \<Rightarrow> Fault | Some p \<Rightarrow> next d (load64 (mc_mem m) p))
     | Bgeu s t target \<Rightarrow> Goto (if x t \<le> x s then target else pc + 1) st
     | Jmp target \<Rightarrow> Goto target st
     | CsrwSatp s \<Rightarrow> Goto (pc + 1) (st\<lparr>bt_machine := m\<lparr>mc_satp := x s\<rparr>\<rparr>)
     | SfenceVma \<Rightarrow> Goto (pc + 1) st
     | Jr s \<Rightarrow> Leave (x s) st
     | Tail a \<Rightarrow> Leave a st)"

partial_function (option) boot_exec :: "boot_instr list \<Rightarrow> nat \<Rightarrow> boot_state \<Rightarrow> (kusize \<times> boot_state) option" where
  "boot_exec code pc st =
     (if pc < length code then
        (case boot_step (code ! pc) pc st of
           Goto pc' st' \<Rightarrow> boot_exec code pc' st'
         | Leave a st' \<Rightarrow> Some (a, st')
         | Fault \<Rightarrow> None)
      else None)"

text \<open>The addresses the linker gives to the labels of the boot code.\<close>

record boot_layout =
  bl_linker :: linker
  bl_start :: kusize
  bl_page_table :: kusize
  bl_literal :: kusize
  bl_high_start :: kusize
  bl_global_pointer :: kusize
  bl_main :: kusize

definition start_code :: "boot_layout \<Rightarrow> boot_instr list" where
  "start_code bl =
     [La T0 (bl_page_table bl), Mv T1 T0, Li T2 4096, Add T2 T0 T2,
      Bgeu T1 T2 8, Sd Zero T1, Addi T1 T1 8, Jmp 4,
      La T5 (bl_literal bl), Ld T6 T5,
      La T3 (bl_start bl), Srli T3 T3 30, Slli T3 T3 30,
      Srli T4 T3 2, Ori T4 T4 0xCF,
      Srli T5 T3 30, Andi T5 T5 0x1FF, Slli T5 T5 3, Add T5 T0 T5, Sd T4 T5,
      Srli T5 T6 30, Andi T5 T5 0x1FF, Slli T5 T5 3, Add T5 T0 T5, Sd T4 T5,
      SfenceVma,
      Srli T1 T0 12, Li T2 8, Slli T2 T2 60, OrR T1 T1 T2, CsrwSatp T1,
      SfenceVma, Jr T6]"

definition high_half_start_code :: "boot_layout \<Rightarrow> boot_instr list" where
  "high_half_start_code bl =
     [La GP (bl_global_pointer bl), La SP (lk_stack_end (bl_linker bl)),
      La T0 (lk_bss_start (bl_linker bl)), La T1 (lk_bss_end (bl_linker bl)),
      Bgeu T0 T1 8, Sd Zero T0, Addi T0 T0 8, Jmp 4,
      Tail (bl_main bl)]"

definition boot_run :: "boot_layout \<Rightarrow> boot_state \<Rightarrow> (kusize \<times> boot_state) option" where
  "boot_run bl st =
     (case boot_exec (start_code bl) 0 st of
        None \<Rightarrow> None
      | Some (a, st') \<Rightarrow> if a = bl_high_start bl then boot_exec (high_half_start_code bl) 0 st' else None)"

section \<open>The clearing loops\<close>

text \<open>Both loops: from \<open>r\<close> up to the end in \<open>e\<close>, at positions 4 to 7 of the code.\<close>

lemma boot_goto:
  "pc < length code \<Longrightarrow> boot_step (code ! pc) pc st = Goto pc' st' \<Longrightarrow> boot_exec code pc st = boot_exec code pc' st'"
  by (subst boot_exec.simps) simp

definition cleared :: "mem \<Rightarrow> nat \<Rightarrow> nat \<Rightarrow> mem" where
  "cleared m a n = write_bytes m a 0 (8 * n)"

lemma cleared_step: "cleared (store64 m a 0) (a + 8) n = cleared m a (Suc n)"
proof
  fix x
  show "cleared (store64 m a 0) (a + 8) n x = cleared m a (Suc n) x"
    by (auto simp: cleared_def write_bytes_def store64_def)
qed


lemma cleared_nothing: "cleared m a 0 = m"
  by (rule ext) (auto simp: cleared_def write_bytes_def)

lemma clear_loop:
  assumes code: "8 < length code" "code ! 4 = Bgeu r e 8" "code ! 5 = Sd Zero r" "code ! 6 = Addi r r 8" "code ! 7 = Jmp 4"
    and regs: "r \<noteq> Zero" "e \<noteq> Zero" "r \<noteq> e"
  shows "unat (bt_regs st r) + 8 * n = unat (bt_regs st e) \<Longrightarrow> I (bt_machine st) \<Longrightarrow>
    (\<And>i m. i < n \<Longrightarrow> I m \<Longrightarrow> boot_address m Store (bt_regs st r + 8 * word_of_nat i) = Some (p + 8 * i) \<and>
       I (m\<lparr>mc_mem := store64 (mc_mem m) (p + 8 * i) 0\<rparr>)) \<Longrightarrow>
    boot_exec code 4 st = boot_exec code 8
      (st\<lparr>bt_regs := (bt_regs st)(r := bt_regs st e), bt_machine := (bt_machine st)\<lparr>mc_mem := cleared (mc_mem (bt_machine st)) p n\<rparr>\<rparr>)"
proof (induction n arbitrary: st p)
  case 0
  then have eq: "bt_regs st r = bt_regs st e" by (simp add: word_unat_eq_iff)
  have "boot_step (code ! 4) 4 st = Goto 8 st" using regs eq by (simp add: code boot_step_def boot_get_def Let_def)
  from boot_goto [OF _ this] code(1) have "boot_exec code 4 st = boot_exec code 8 st" by simp
  moreover have "st\<lparr>bt_regs := (bt_regs st)(r := bt_regs st e), bt_machine := (bt_machine st)\<lparr>mc_mem := cleared (mc_mem (bt_machine st)) p 0\<rparr>\<rparr> = st"
    using eq by (simp add: cleared_nothing fun_upd_idem)
  ultimately show ?case by (simp only:)
next
  case (Suc n)
  let ?m = "bt_machine st" and ?a = "bt_regs st r"
  have first: "boot_address ?m Store ?a = Some p" "I (?m\<lparr>mc_mem := store64 (mc_mem ?m) p 0\<rparr>)"
    using Suc.prems(3) [of 0 ?m] Suc.prems(2) by simp_all
  let ?s1 = "st\<lparr>bt_machine := ?m\<lparr>mc_mem := store64 (mc_mem ?m) p 0\<rparr>\<rparr>"
  let ?s2 = "?s1\<lparr>bt_regs := (bt_regs st)(r := ?a + 8)\<rparr>"
  have lt: "\<not> bt_regs st e \<le> ?a" using Suc.prems(1) by (simp add: word_le_nat_alt)
  have "boot_step (code ! 4) 4 st = Goto 5 st" using regs lt by (simp add: code boot_step_def boot_get_def Let_def)
  moreover have "boot_step (code ! 5) 5 st = Goto 6 ?s1" using regs first(1) by (simp add: code boot_step_def boot_get_def Let_def)
  moreover have "boot_step (code ! 6) 6 ?s1 = Goto 7 ?s2" using regs by (simp add: code boot_step_def boot_get_def set_reg_def Let_def)
  moreover have "boot_step (code ! 7) 7 ?s2 = Goto 4 ?s2" by (simp add: code boot_step_def Let_def)
  ultimately have "boot_exec code 4 st = boot_exec code 4 ?s2"
    using code(1) boot_goto [of 4 code st 5 st] boot_goto [of 5 code st 6 ?s1] boot_goto [of 6 code ?s1 7 ?s2] boot_goto [of 7 code ?s2 4 ?s2] by simp
  also have "\<dots> = boot_exec code 8 (?s2\<lparr>bt_regs := (bt_regs ?s2)(r := bt_regs ?s2 e),
      bt_machine := (bt_machine ?s2)\<lparr>mc_mem := cleared (mc_mem (bt_machine ?s2)) (p + 8) n\<rparr>\<rparr>)"
  proof (rule Suc.IH)
    have up: "unat (?a + 8) = unat ?a + 8" using Suc.prems(1) unat_lt2p [of "bt_regs st e"] by (subst unat_word_ariths) simp
    show "unat (bt_regs ?s2 r) + 8 * n = unat (bt_regs ?s2 e)" using regs Suc.prems(1) up by simp
    show "I (bt_machine ?s2)" using first(2) by simp
    fix i m assume "i < n" "I m"
    with Suc.prems(3) [of "Suc i" m] show "boot_address m Store (bt_regs ?s2 r + 8 * word_of_nat i) = Some (p + 8 + 8 * i) \<and>
       I (m\<lparr>mc_mem := store64 (mc_mem m) (p + 8 + 8 * i) 0\<rparr>)" by (simp add: algebra_simps)
  qed
  also have "?s2\<lparr>bt_regs := (bt_regs ?s2)(r := bt_regs ?s2 e),
      bt_machine := (bt_machine ?s2)\<lparr>mc_mem := cleared (mc_mem (bt_machine ?s2)) (p + 8) n\<rparr>\<rparr> =
    st\<lparr>bt_regs := (bt_regs st)(r := bt_regs st e), bt_machine := (bt_machine st)\<lparr>mc_mem := cleared (mc_mem (bt_machine st)) p (Suc n)\<rparr>\<rparr>"
    using regs by (simp add: cleared_step)
  finally show ?case .
qed

section \<open>The physical entry\<close>

text \<open>The value stored in both entries: the kernel's gigapage, readable, writable and executable.\<close>

definition boot_leaf :: "boot_layout \<Rightarrow> kusize" where
  "boot_leaf bl = drop_bit 2 (push_bit 30 (drop_bit 30 (bl_start bl))) OR 0xCF"

definition boot_slot :: "kusize \<Rightarrow> kusize" where
  "boot_slot a = push_bit 3 (drop_bit 30 a AND 0x1FF)"

definition boot_tables :: "boot_layout \<Rightarrow> mem \<Rightarrow> mem" where
  "boot_tables bl m =
     store64 (store64 (cleared m (unat (bl_page_table bl)) 512)
       (unat (bl_page_table bl + boot_slot (push_bit 30 (drop_bit 30 (bl_start bl))))) (boot_leaf bl))
       (unat (bl_page_table bl + boot_slot (bl_high_start bl))) (boot_leaf bl)"

definition boot_satp :: "boot_layout \<Rightarrow> kusize" where
  "boot_satp bl = drop_bit 12 (bl_page_table bl) OR push_bit 60 8"

lemma boot_exec_at:
  "pc < length code \<Longrightarrow> boot_exec code pc st =
     (case boot_step (code ! pc) pc st of Goto pc' st' \<Rightarrow> boot_exec code pc' st' | Leave a st' \<Rightarrow> Some (a, st') | Fault \<Rightarrow> None)"
  by (subst boot_exec.simps) simp

lemma start_code_length: "length (start_code bl) = 33"
  by (simp add: start_code_def)

lemma start_code_tail:
  "drop 8 (start_code bl) =
     [La T5 (bl_literal bl), Ld T6 T5, La T3 (bl_start bl), Srli T3 T3 30, Slli T3 T3 30, Srli T4 T3 2, Ori T4 T4 0xCF,
      Srli T5 T3 30, Andi T5 T5 0x1FF, Slli T5 T5 3, Add T5 T0 T5, Sd T4 T5,
      Srli T5 T6 30, Andi T5 T5 0x1FF, Slli T5 T5 3, Add T5 T0 T5, Sd T4 T5, SfenceVma,
      Srli T1 T0 12, Li T2 8, Slli T2 T2 60, OrR T1 T1 T2, CsrwSatp T1, SfenceVma, Jr T6]"
  by (simp add: start_code_def)

lemma start_code_nth: "8 \<le> n \<Longrightarrow> n < 33 \<Longrightarrow> start_code bl ! n = drop 8 (start_code bl) ! (n - 8)"
  by (simp add: start_code_length)

lemma start_tail:
  assumes "bt_regs st T0 = bl_page_table bl" "mc_satp (bt_machine st) = 0"
    "load64 (mc_mem (bt_machine st)) (unat (bl_literal bl)) = bl_high_start bl"
  shows "\<exists>st'. boot_exec (start_code bl) 8 st = Some (bl_high_start bl, st') \<and>
    (\<forall>r\<in>{A0, A1}. bt_regs st' r = bt_regs st r) \<and> mc_satp (bt_machine st') = boot_satp bl \<and>
    mc_mem (bt_machine st') = store64 (store64 (mc_mem (bt_machine st))
       (unat (bl_page_table bl + boot_slot (push_bit 30 (drop_bit 30 (bl_start bl))))) (boot_leaf bl))
       (unat (bl_page_table bl + boot_slot (bl_high_start bl))) (boot_leaf bl)"
  using assms
  by (simp add: boot_exec_at start_code_length start_code_nth start_code_tail boot_step_def boot_get_def set_reg_def boot_address_def
      boot_leaf_def boot_slot_def boot_satp_def Let_def)


lemma start_runs:
  assumes satp: "mc_satp (bt_machine st) = 0" and pt: "unat (bl_page_table bl) + 4096 < 2 ^ 64"
    and lit: "load64 (mc_mem (bt_machine st)) (unat (bl_literal bl)) = bl_high_start bl"
      "unat (bl_literal bl) + 8 \<le> unat (bl_page_table bl)"
  shows "\<exists>st'. boot_exec (start_code bl) 0 st = Some (bl_high_start bl, st') \<and>
    (\<forall>r\<in>{A0, A1}. bt_regs st' r = bt_regs st r) \<and>
    bt_machine st' = \<lparr>mc_mem = boot_tables bl (mc_mem (bt_machine st)), mc_satp = boot_satp bl\<rparr>"
proof -
  let ?c = "start_code bl" and ?pt = "bl_page_table bl" and ?m = "bt_machine st"
  have code: "8 < length ?c" "?c ! 4 = Bgeu T1 T2 8" "?c ! 5 = Sd Zero T1" "?c ! 6 = Addi T1 T1 8" "?c ! 7 = Jmp 4"
    by (simp_all add: start_code_def)
  have prologue: "?c ! 0 = La T0 ?pt" "?c ! 1 = Mv T1 T0" "?c ! 2 = Li T2 4096" "?c ! 3 = Add T2 T0 T2" by (simp_all add: start_code_def)
  let ?s4 = "st\<lparr>bt_regs := (bt_regs st)(T0 := ?pt, T1 := ?pt, T2 := ?pt + 4096)\<rparr>"
  have "boot_exec ?c 0 st = boot_exec ?c 4 ?s4"
    using boot_exec_at [of 0 ?c] boot_exec_at [of 1 ?c] boot_exec_at [of 2 ?c] boot_exec_at [of 3 ?c] prologue
    by (simp add: start_code_length boot_step_def boot_get_def set_reg_def Let_def numeral_2_eq_2 [symmetric])
  also have "\<dots> = boot_exec ?c 8 (?s4\<lparr>bt_regs := (bt_regs ?s4)(T1 := bt_regs ?s4 T2),
      bt_machine := (bt_machine ?s4)\<lparr>mc_mem := cleared (mc_mem (bt_machine ?s4)) (unat ?pt) 512\<rparr>\<rparr>)"
  proof (rule clear_loop [OF code, where I = "\<lambda>m. mc_satp m = 0"])
    show "unat (bt_regs ?s4 T1) + 8 * 512 = unat (bt_regs ?s4 T2)" using pt by (simp add: unat_word_ariths)
    show "mc_satp (bt_machine ?s4) = 0" using satp by simp
    fix i and m :: machine assume i: "i < (512 :: nat)" and m: "mc_satp m = 0"
    have "unat (8 * word_of_nat i :: kusize) = 8 * i" using i by (simp add: unat_word_ariths unat_of_nat)
    then have "unat (?pt + 8 * word_of_nat i) = unat ?pt + 8 * i" using pt i by (simp add: unat_word_ariths)
    then show "boot_address m Store (bt_regs ?s4 T1 + 8 * word_of_nat i) = Some (unat ?pt + 8 * i) \<and>
        mc_satp (m\<lparr>mc_mem := store64 (mc_mem m) (unat ?pt + 8 * i) 0\<rparr>) = 0" using m by (simp add: boot_address_def)
  qed simp_all
  finally have run: "boot_exec ?c 0 st = boot_exec ?c 8 (?s4\<lparr>bt_regs := (bt_regs ?s4)(T1 := bt_regs ?s4 T2),
      bt_machine := (bt_machine ?s4)\<lparr>mc_mem := cleared (mc_mem (bt_machine ?s4)) (unat ?pt) 512\<rparr>\<rparr>)" .
  have "load64 (cleared (mc_mem ?m) (unat ?pt) 512) (unat (bl_literal bl)) = load64 (mc_mem ?m) (unat (bl_literal bl))"
    by (rule load64_cong) (use lit(2) in \<open>simp add: cleared_def write_bytes_def\<close>)
  then obtain st' where st': "boot_exec ?c 0 st = Some (bl_high_start bl, st')" "\<forall>r\<in>{A0, A1}. bt_regs st' r = bt_regs st r"
      "mc_satp (bt_machine st') = boot_satp bl" "mc_mem (bt_machine st') = boot_tables bl (mc_mem ?m)"
    unfolding run using start_tail [of "?s4\<lparr>bt_regs := (bt_regs ?s4)(T1 := bt_regs ?s4 T2),
      bt_machine := (bt_machine ?s4)\<lparr>mc_mem := cleared (mc_mem (bt_machine ?s4)) (unat ?pt) 512\<rparr>\<rparr>" bl] satp lit(1)
    by (auto simp: boot_tables_def)
  then have "bt_machine st' = \<lparr>mc_mem = boot_tables bl (mc_mem ?m), mc_satp = boot_satp bl\<rparr>" by (cases "bt_machine st'") simp
  with st' show ?thesis by blast
qed

end
