(* ===== verification/Boot_Correct.thy ===== *)
theory Boot_Correct
  imports Boot
begin

text \<open>
  The boot code hands over what \<open>main\<close> expects.  \<open>boot_layout_ok\<close> states what the linker script
  asserts about the addresses, and that the kernel lies in the lower half of the address space.
\<close>

unbundle bit_operations_syntax

section \<open>The layout\<close>

definition KERNEL_HIGH_BASE :: nat where "KERNEL_HIGH_BASE = 0xFFFFFFFF80000000"

definition image_size :: "linker \<Rightarrow> nat" where
  "image_size lk = unat (lk_virtual_end lk) - unat (lk_virtual_start lk)"

definition boot_layout_ok :: "boot_layout \<Rightarrow> bool" where
  "boot_layout_ok bl \<longleftrightarrow> (
     let lk = bl_linker bl; P = unat (lk_physical_start lk); V = unat (lk_virtual_start lk); V' = unat (lk_virtual_end lk);
         pt = unat (bl_page_table bl); b = unat (lk_bss_start lk); b' = unat (lk_bss_end lk) in
     linker_ok lk \<and> bl_start bl = lk_physical_start lk \<and>
     KERNEL_HIGH_BASE \<le> V \<and> V' \<le> KERNEL_HIGH_BASE + 2 ^ 30 \<and> P mod 2 ^ 30 = V - KERNEL_HIGH_BASE \<and>
     P + (V' - V) \<le> P div 2 ^ 30 * 2 ^ 30 + 2 ^ 30 \<and> P < 2 ^ 38 \<and>
     unat (bl_literal bl) + 8 \<le> pt \<and> P \<le> pt \<and> pt mod 4096 = 0 \<and> pt + 4096 \<le> P + (b - V) \<and>
     V \<le> b \<and> b \<le> b' \<and> b' \<le> V' \<and> (b' - b) mod 8 = 0 \<and>
     V \<le> unat (bl_high_start bl) \<and> unat (bl_high_start bl) < V')"

text \<open>The gigapage of the image, its entry, and the frame of the root table.\<close>

definition giga :: "boot_layout \<Rightarrow> nat" where
  "giga bl = unat (bl_start bl) div 2 ^ 30"

definition root_frame :: "boot_layout \<Rightarrow> nat" where
  "root_frame bl = unat (bl_page_table bl) div 4096"

definition giga_leaf :: "boot_layout \<Rightarrow> kusize" where
  "giga_leaf bl = mk_pte (giga bl * 2 ^ 18) 0xCF"

lemma giga_flags: "unat (0xCF :: kusize) < 1024" "bit (0xCF :: kusize) 0" "bit (0xCF :: kusize) 1" "bit (0xCF :: kusize) 2"
  "bit (0xCF :: kusize) 3" "\<not> bit (0xCF :: kusize) 4" "bit (0xCF :: kusize) 6" "bit (0xCF :: kusize) 7"
  by (simp_all add: bit_numeral_rec)

abbreviation image_base :: "boot_layout \<Rightarrow> nat" where "image_base bl \<equiv> unat (lk_physical_start (bl_linker bl))"
abbreviation image_high :: "boot_layout \<Rightarrow> nat" where "image_high bl \<equiv> unat (lk_virtual_start (bl_linker bl))"
abbreviation image_bytes :: "boot_layout \<Rightarrow> nat" where "image_bytes bl \<equiv> image_size (bl_linker bl)"

lemma boot_start_address:
  assumes ok: "boot_layout_ok bl"
  shows "unat (bl_start bl) = image_base bl"
  using ok by (simp add: boot_layout_ok_def Let_def)

lemma giga_low:
  assumes ok: "boot_layout_ok bl"
  shows "giga bl < 256"
  using ok boot_start_address [OF ok] by (simp add: boot_layout_ok_def giga_def Let_def less_mult_imp_div_less)

lemma giga_rep:
  assumes ok: "boot_layout_ok bl"
  shows "representable (giga bl * 2 ^ 18)"
  using giga_low [OF ok] by (simp add: representable_def)

lemma boot_page_table:
  assumes ok: "boot_layout_ok bl"
  shows "unat (bl_page_table bl) = root_frame bl * 4096" "image_base bl \<le> root_frame bl * 4096"
  "root_frame bl * 4096 + 4096 \<le> image_base bl + image_bytes bl" "unat (bl_literal bl) + 8 \<le> root_frame bl * 4096"
proof -
  show pt: "unat (bl_page_table bl) = root_frame bl * 4096"
    using ok by (simp add: boot_layout_ok_def root_frame_def Let_def) (metis mod_0_imp_dvd dvd_div_mult_self)
  show "image_base bl \<le> root_frame bl * 4096" "unat (bl_literal bl) + 8 \<le> root_frame bl * 4096"
    using ok by (simp_all add: boot_layout_ok_def pt Let_def)
  have "unat (bl_page_table bl) + 4096 \<le> image_base bl + image_bytes bl" using ok by (simp add: boot_layout_ok_def image_size_def Let_def) linarith
  then show "root_frame bl * 4096 + 4096 \<le> image_base bl + image_bytes bl" by (simp add: pt)
qed

lemma boot_image_end:
  assumes ok: "boot_layout_ok bl"
  shows "image_base bl + image_bytes bl \<le> giga bl * 2 ^ 30 + 2 ^ 30" "giga bl * 2 ^ 30 \<le> image_base bl"
  unfolding giga_def boot_start_address [OF ok]
  using ok by (simp_all only: boot_layout_ok_def image_size_def Let_def) simp

lemma boot_image_bound:
  assumes ok: "boot_layout_ok bl"
  shows "image_base bl + image_bytes bl \<le> 2 ^ 38"
  using boot_image_end(1) [OF ok] giga_low [OF ok] by simp

text \<open>The value and the places of the two entries.\<close>

lemma boot_leaf_eq:
  assumes ok: "boot_layout_ok bl"
  shows "boot_leaf bl = giga_leaf bl"
proof -
  have "drop_bit 2 (push_bit 30 (drop_bit 30 (bl_start bl))) = push_bit 10 (word_of_nat (giga bl * 2 ^ 18))"
    (is "?l = ?r")
  proof -
    have g: "unat (drop_bit 30 (bl_start bl)) = giga bl" by (simp add: unat_drop_bit giga_def)
    have "unat (push_bit 30 (drop_bit 30 (bl_start bl))) = giga bl * 2 ^ 30"
      using g giga_low [OF ok] by (simp add: push_bit_eq_mult unat_word_ariths)
    then have "unat ?l = giga bl * 2 ^ 28" by (simp add: unat_drop_bit)
    moreover have "unat ?r = giga bl * 2 ^ 28"
      using giga_low [OF ok] by (simp add: push_bit_eq_mult unat_word_ariths unat_of_nat)
    ultimately show ?thesis by (simp add: word_unat_eq_iff)
  qed
  then show ?thesis by (simp add: boot_leaf_def giga_leaf_def mk_pte_def)
qed

lemma boot_slot_word:
  assumes ok: "boot_layout_ok bl"
  shows "unat (bl_page_table bl + boot_slot a) = cell (root_frame bl) (unat a div 2 ^ 30 mod 512)"
proof -
  have m: "(0x1FF :: kusize) = mask 9" by (simp add: mask_eq_decr_exp)
  have lt: "unat a div 2 ^ 30 mod 512 < 512" by simp
  have "unat (drop_bit 30 a AND mask 9) = unat a div 2 ^ 30 mod 512" by (simp add: unat_and_mask unat_drop_bit)
  then have s: "unat (boot_slot a) = 8 * (unat a div 2 ^ 30 mod 512)"
    using lt unfolding boot_slot_def m by (simp add: push_bit_eq_mult unat_word_ariths)
  have "root_frame bl * 4096 + 4096 \<le> 2 ^ 38" using boot_page_table(3) [OF ok] boot_image_bound [OF ok] by linarith
  then show ?thesis using boot_page_table(1) [OF ok] s lt by (simp add: unat_word_ariths cell_def)
qed

lemma boot_low_index:
  assumes ok: "boot_layout_ok bl"
  shows "unat (push_bit 30 (drop_bit 30 (bl_start bl))) div 2 ^ 30 mod 512 = giga bl"
proof -
  have "unat (drop_bit 30 (bl_start bl)) = giga bl" by (simp add: unat_drop_bit giga_def)
  then show ?thesis using giga_low [OF ok] by (simp add: push_bit_eq_mult unat_word_ariths)
qed

lemma boot_high_index:
  assumes ok: "boot_layout_ok bl"
  shows "image_high bl \<le> a \<Longrightarrow> a < unat (lk_virtual_end (bl_linker bl)) \<Longrightarrow> a div 2 ^ 30 mod 512 = 510"
proof -
  assume "image_high bl \<le> a" "a < unat (lk_virtual_end (bl_linker bl))"
  then have "KERNEL_HIGH_BASE \<le> a" "a < KERNEL_HIGH_BASE + 2 ^ 30" using ok by (auto simp: boot_layout_ok_def Let_def)
  then have "a div 2 ^ 30 = 17179869182" by (intro div_nat_eqI) (simp_all add: KERNEL_HIGH_BASE_def)
  then show ?thesis by simp
qed

lemma boot_tables_eq:
  assumes ok: "boot_layout_ok bl"
  shows "boot_tables bl m = set_entry (set_entry (clear_frame m (root_frame bl)) (root_frame bl) (giga bl) (giga_leaf bl)) (root_frame bl) 510 (giga_leaf bl)"
proof -
  have "unat (bl_high_start bl) div 2 ^ 30 mod 512 = 510"
    by (rule boot_high_index [OF ok]) (use ok in \<open>simp_all add: boot_layout_ok_def Let_def\<close>)
  then show ?thesis
    unfolding boot_tables_def boot_slot_word [OF ok] boot_low_index [OF ok] boot_leaf_eq [OF ok] set_entry_def clear_frame_def cleared_def boot_page_table(1) [OF ok] by simp
qed

lemma boot_entries:
  assumes ok: "boot_layout_ok bl"
  shows "j < 512 \<Longrightarrow> pte_at (boot_tables bl m) (root_frame bl) j = (if j = giga bl \<or> j = 510 then giga_leaf bl else 0)"
  "x div 4096 \<noteq> root_frame bl \<Longrightarrow> boot_tables bl m x = m x"
  using giga_low [OF ok] by (auto simp: boot_tables_eq [OF ok] entry_set_entry entry_clear_frame set_entry_other clear_frame_apply)

lemma boot_satp_root:
  assumes ok: "boot_layout_ok bl"
  shows "satp_root (boot_satp bl) = Some (root_frame bl)" "boot_satp bl \<noteq> 0"
proof -
  let ?f = "PhysFrame (PhysAddr (bl_page_table bl))"
  have no: "frame_no ?f = root_frame bl" by (simp add: frame_no_def root_frame_def)
  have lt: "root_frame bl * 4096 + 4096 \<le> 2 ^ 38" using boot_page_table(3) [OF ok] boot_image_bound [OF ok] by linarith
  have f: "frame_ok ?f" "representable (frame_no ?f)"
    using boot_page_table(1) [OF ok] lt by (simp_all add: frame_ok_def frame_aligned_def no representable_def)
  obtain w where w: "activate_root ?f (undefined :: machine) = (Ok () :: (unit, unit) res, undefined\<lparr>mc_satp := w\<rparr>)" "satp_root w = Some (root_frame bl)"
    using activate_root_eq [OF f] no by metis
  have "mc_satp (undefined\<lparr>mc_satp := w\<rparr> :: machine) = mc_satp (snd (activate_root ?f (undefined :: machine) :: (unit, unit) res \<times> machine))"
    unfolding w(1) by simp
  then have "w = boot_satp bl" by (simp add: activate_root_def boot_satp_def SATP_MODE_SV39_def or.commute)
  then show "satp_root (boot_satp bl) = Some (root_frame bl)" using w(2) by simp
  then show "boot_satp bl \<noteq> 0" by (auto simp: satp_root_def)
qed

text \<open>What a memory with these entries gives: the image at its physical and at its high addresses.\<close>

definition boot_mapped :: "boot_layout \<Rightarrow> machine \<Rightarrow> bool" where
  "boot_mapped bl m \<longleftrightarrow> mc_satp m = boot_satp bl \<and>
     (\<forall>j<512. pte_at (mc_mem m) (root_frame bl) j = (if j = giga bl \<or> j = 510 then giga_leaf bl else 0))"

lemma giga_leaf_permits:
  assumes ok: "boot_layout_ok bl"
  shows "leaf_permits k (giga_leaf bl)" "pte_ppn (giga_leaf bl) = giga bl * 2 ^ 18" "bit (giga_leaf bl) 3"
  using pte_ppn_mk_pte [OF giga_rep [OF ok] giga_flags(1)] giga_flags
  by (simp_all add: giga_leaf_def leaf_permits_def bit_mk_pte)

lemma giga_walk:
  assumes ok: "boot_layout_ok bl" and "boot_mapped bl m" "vpn 2 a = giga bl \<or> vpn 2 a = 510" "canonical a"
  shows "translate (mc_mem m) (mc_satp m) k a = Some (giga bl * 2 ^ 30 + a mod 2 ^ 30)"
proof -
  have e: "pte_at (mc_mem m) (root_frame bl) (vpn 2 a) = giga_leaf bl"
    using assms(2,3) giga_low [OF ok] by (auto simp: boot_mapped_def)
  have "walk (mc_mem m) k a 2 (root_frame bl) = Some (pte_ppn (giga_leaf bl) * 4096 + a mod (4096 * 512 ^ 2))"
    using walk_leaf [of k "mc_mem m" "root_frame bl" 2 a] giga_leaf_permits [OF ok] unfolding e by simp
  then show ?thesis
    using assms(2,4) boot_satp_root [OF ok] giga_leaf_permits(2) [OF ok] by (simp add: translate_def boot_mapped_def)
qed

lemma boot_identity:
  assumes ok: "boot_layout_ok bl" and "boot_mapped bl m" "x < image_bytes bl"
  shows "translate (mc_mem m) (mc_satp m) k (image_base bl + x) = Some (image_base bl + x)"
proof -
  have r: "giga bl * 2 ^ 30 \<le> image_base bl + x" "image_base bl + x < giga bl * 2 ^ 30 + 2 ^ 30" using boot_image_end [OF ok] assms(3) by linarith+
  then have d: "(image_base bl + x) div 2 ^ 30 = giga bl" by (intro div_nat_eqI) simp_all
  have "image_base bl + x < 2 ^ 38" using boot_image_bound [OF ok] assms(3) by linarith
  then have c: "canonical (image_base bl + x)" by (simp add: canonical_def)
  have v: "vpn 2 (image_base bl + x) = giga bl" using d giga_low [OF ok] by (simp add: vpn_def)
  have "giga bl * 2 ^ 30 + (image_base bl + x) mod 2 ^ 30 = image_base bl + x" using div_mult_mod_eq [of "image_base bl + x" "2 ^ 30"] unfolding d .
  with giga_walk [OF ok assms(2) disjI1 [OF v] c] show ?thesis by simp
qed

lemma boot_alias:
  assumes ok: "boot_layout_ok bl" and "boot_mapped bl m" "x < image_bytes bl"
  shows "translate (mc_mem m) (mc_satp m) k (image_high bl + x) = Some (image_base bl + x)"
proof -
  define o' where "o' = image_high bl - KERNEL_HIGH_BASE"
  have V: "image_high bl = KERNEL_HIGH_BASE + o'" and e: "image_high bl + image_bytes bl \<le> KERNEL_HIGH_BASE + 2 ^ 30" and o: "image_base bl mod 2 ^ 30 = o'"
    using ok by (auto simp: boot_layout_ok_def linker_ok_def image_size_def o'_def word_le_nat_alt Let_def)
  have a: "image_high bl \<le> image_high bl + x" "image_high bl + x < unat (lk_virtual_end (bl_linker bl))" using assms(3) by (simp_all add: image_size_def)
  have v: "vpn 2 (image_high bl + x) = 510" using boot_high_index [OF ok a] by (simp add: vpn_def)
  have c: "canonical (image_high bl + x)" using V by (simp add: canonical_def KERNEL_HIGH_BASE_def)
  have lt: "o' + x < 2 ^ 30" using V e assms(3) by linarith
  have "(image_high bl + x) mod 2 ^ 30 = (o' + x + 17179869182 * 2 ^ 30) mod 2 ^ 30" unfolding V KERNEL_HIGH_BASE_def by (rule arg_cong [where f = "\<lambda>n. n mod 2 ^ 30"]) simp
  also have "\<dots> = (o' + x) mod 2 ^ 30" by (rule mod_mult_self1)
  also have "\<dots> = o' + x" using lt by (rule mod_less)
  finally have m: "(image_high bl + x) mod 2 ^ 30 = o' + x" .
  have "giga bl * 2 ^ 30 + o' = image_base bl" using div_mult_mod_eq [of "image_base bl" "2 ^ 30"] unfolding giga_def boot_start_address [OF ok] o .
  with giga_walk [OF ok assms(2) disjI2 [OF v] c, of k] m show ?thesis by simp
qed

section \<open>The high entry\<close>

text \<open>The bytes of the bss, at their physical addresses.\<close>

definition bss_at :: "boot_layout \<Rightarrow> nat" where
  "bss_at bl = image_base bl + (unat (lk_bss_start (bl_linker bl)) - image_high bl)"

definition bss_size :: "boot_layout \<Rightarrow> nat" where
  "bss_size bl = unat (lk_bss_end (bl_linker bl)) - unat (lk_bss_start (bl_linker bl))"

lemma boot_bss:
  assumes ok: "boot_layout_ok bl"
  shows "root_frame bl * 4096 + 4096 \<le> bss_at bl" "bss_size bl mod 8 = 0"
    "unat (lk_bss_start (bl_linker bl)) + bss_size bl = unat (lk_bss_end (bl_linker bl))"
    "\<exists>d. unat (lk_bss_start (bl_linker bl)) = image_high bl + d \<and> bss_at bl = image_base bl + d \<and> d + bss_size bl \<le> image_bytes bl"
proof -
  have "unat (bl_page_table bl) + 4096 \<le> bss_at bl" using ok by (simp only: boot_layout_ok_def bss_at_def Let_def)
  then show "root_frame bl * 4096 + 4096 \<le> bss_at bl" by (simp add: boot_page_table(1) [OF ok])
  show "bss_size bl mod 8 = 0" "unat (lk_bss_start (bl_linker bl)) + bss_size bl = unat (lk_bss_end (bl_linker bl))"
    using ok by (simp_all add: boot_layout_ok_def bss_size_def Let_def)
  show "\<exists>d. unat (lk_bss_start (bl_linker bl)) = image_high bl + d \<and> bss_at bl = image_base bl + d \<and> d + bss_size bl \<le> image_bytes bl"
    using ok by (intro exI [of _ "unat (lk_bss_start (bl_linker bl)) - image_high bl"])
      (auto simp: boot_layout_ok_def bss_at_def bss_size_def image_size_def Let_def)
qed

lemma boot_mapped_store:
  assumes "boot_mapped bl m" "root_frame bl * 4096 + 4096 \<le> p"
  shows "boot_mapped bl (m\<lparr>mc_mem := store64 (mc_mem m) p w\<rparr>)"
proof -
  have "pte_at (store64 (mc_mem m) p w) (root_frame bl) j = pte_at (mc_mem m) (root_frame bl) j" if "j < 512" for j
    by (rule entry_cong [OF that]) (use assms(2) in \<open>auto simp: store64_other div_less_iff_less_mult [symmetric] intro!: store64_other\<close>)
  then show ?thesis using assms(1) by (simp add: boot_mapped_def)
qed

lemma high_half_runs:
  assumes ok: "boot_layout_ok bl" and mapped: "boot_mapped bl (bt_machine st)"
  shows "\<exists>st'. boot_exec (high_half_start_code bl) 0 st = Some (bl_main bl, st') \<and>
    (\<forall>r\<in>{A0, A1}. bt_regs st' r = bt_regs st r) \<and> bt_regs st' SP = lk_stack_end (bl_linker bl) \<and> bt_regs st' GP = bl_global_pointer bl \<and>
    bt_machine st' = (bt_machine st)\<lparr>mc_mem := cleared (mc_mem (bt_machine st)) (bss_at bl) (bss_size bl div 8)\<rparr>"
proof -
  let ?c = "high_half_start_code bl" and ?lk = "bl_linker bl"
  have code: "8 < length ?c" "?c ! 4 = Bgeu T0 T1 8" "?c ! 5 = Sd Zero T0" "?c ! 6 = Addi T0 T0 8" "?c ! 7 = Jmp 4"
    by (simp_all add: high_half_start_code_def)
  have other: "?c ! 0 = La GP (bl_global_pointer bl)" "?c ! 1 = La SP (lk_stack_end ?lk)" "?c ! 2 = La T0 (lk_bss_start ?lk)"
      "?c ! 3 = La T1 (lk_bss_end ?lk)" "?c ! 8 = Tail (bl_main bl)" "length ?c = 9"
    by (simp_all add: high_half_start_code_def)
  let ?s4 = "st\<lparr>bt_regs := (bt_regs st)(GP := bl_global_pointer bl, SP := lk_stack_end ?lk, T0 := lk_bss_start ?lk, T1 := lk_bss_end ?lk)\<rparr>"
  let ?s8 = "?s4\<lparr>bt_regs := (bt_regs ?s4)(T0 := bt_regs ?s4 T1),
      bt_machine := (bt_machine ?s4)\<lparr>mc_mem := cleared (mc_mem (bt_machine ?s4)) (bss_at bl) (bss_size bl div 8)\<rparr>\<rparr>"
  note B = boot_bss [OF ok]
  obtain d where d: "unat (lk_bss_start ?lk) = image_high bl + d" "bss_at bl = image_base bl + d" "d + bss_size bl \<le> image_bytes bl" using B(4) by blast
  have n: "8 * (bss_size bl div 8) = bss_size bl" using B(2) by auto
  have "boot_exec ?c 0 st = boot_exec ?c 4 ?s4"
    using boot_exec_at [of 0 ?c] boot_exec_at [of 1 ?c] boot_exec_at [of 2 ?c] boot_exec_at [of 3 ?c] other
    by (simp add: boot_step_def boot_get_def set_reg_def Let_def numeral_2_eq_2 [symmetric])
  also have "\<dots> = boot_exec ?c 8 ?s8"
  proof (rule clear_loop [OF code, where I = "boot_mapped bl"])
    show "unat (bt_regs ?s4 T0) + 8 * (bss_size bl div 8) = unat (bt_regs ?s4 T1)" using B(3) n by simp
    show "boot_mapped bl (bt_machine ?s4)" using mapped by simp
    fix i and m :: machine assume i: "i < bss_size bl div 8" and m: "boot_mapped bl m"
    have lt: "8 * i + 8 \<le> bss_size bl" using i n by linarith
    have "unat (lk_bss_end ?lk) < 2 ^ 64" using unat_lt2p [of "lk_bss_end ?lk"] by simp
    then have b: "unat (lk_bss_start ?lk) + 8 * i < 2 ^ 64" using B(3) lt by linarith
    then have "unat (8 * word_of_nat i :: kusize) = 8 * i" by (simp add: unat_word_ariths unat_of_nat)
    then have a: "unat (lk_bss_start ?lk + 8 * word_of_nat i) = image_high bl + (d + 8 * i)" using b d(1) by (simp add: unat_word_ariths)
    have "translate (mc_mem m) (mc_satp m) Store (image_high bl + (d + 8 * i)) = Some (image_base bl + (d + 8 * i))"
      by (rule boot_alias [OF ok m]) (use d(3) lt in linarith)
    moreover have "mc_satp m \<noteq> 0" using m boot_satp_root(2) [OF ok] by (simp add: boot_mapped_def)
    ultimately show "boot_address m Store (bt_regs ?s4 T0 + 8 * word_of_nat i) = Some (bss_at bl + 8 * i) \<and>
        boot_mapped bl (m\<lparr>mc_mem := store64 (mc_mem m) (bss_at bl + 8 * i) 0\<rparr>)"
      using boot_mapped_store [OF m, of "bss_at bl + 8 * i" 0] B(1) a d(2) by (simp add: boot_address_def add.assoc)
  qed simp_all
  also have "\<dots> = Some (bl_main bl, ?s8)"
    using boot_exec_at [of 8 ?c] other(5,6) by (simp add: boot_step_def Let_def)
  finally show ?thesis by (intro exI [of _ ?s8] conjI) simp_all
qed

section \<open>The hand-over\<close>

definition handed_over :: "boot_layout \<Rightarrow> boot_state \<Rightarrow> boot_state \<Rightarrow> bool" where
  "handed_over bl st st' \<longleftrightarrow>
     bt_regs st' A0 = bt_regs st A0 \<and> bt_regs st' A1 = bt_regs st A1 \<and>
     bt_regs st' SP = lk_stack_end (bl_linker bl) \<and> bt_regs st' GP = bl_global_pointer bl \<and>
     boot_mapped bl (bt_machine st') \<and>
     (\<forall>x. mc_mem (bt_machine st') x =
        (if bss_at bl \<le> x \<and> x < bss_at bl + bss_size bl then 0
         else if x div 4096 = root_frame bl then mc_mem (bt_machine st') x else mc_mem (bt_machine st) x))"

lemma boot_run_hands_over:
  assumes ok: "boot_layout_ok bl" and satp: "mc_satp (bt_machine st) = 0"
    and lit: "load64 (mc_mem (bt_machine st)) (unat (bl_literal bl)) = bl_high_start bl"
  shows "\<exists>st'. boot_run bl st = Some (bl_main bl, st') \<and> handed_over bl st st'"
proof -
  note PT = boot_page_table [OF ok]
  have pt: "unat (bl_page_table bl) + 4096 < 2 ^ 64" using PT(1,3) boot_image_bound [OF ok] by simp
  have l: "unat (bl_literal bl) + 8 \<le> unat (bl_page_table bl)" using PT(1,4) by simp
  obtain s1 where s1: "boot_exec (start_code bl) 0 st = Some (bl_high_start bl, s1)" "\<forall>r\<in>{A0, A1}. bt_regs s1 r = bt_regs st r"
      "bt_machine s1 = \<lparr>mc_mem = boot_tables bl (mc_mem (bt_machine st)), mc_satp = boot_satp bl\<rparr>"
    using start_runs [OF satp pt lit l] by blast
  have mapped: "boot_mapped bl (bt_machine s1)" using boot_entries(1) [OF ok] by (simp add: boot_mapped_def s1(3))
  obtain s2 where s2: "boot_exec (high_half_start_code bl) 0 s1 = Some (bl_main bl, s2)" "\<forall>r\<in>{A0, A1}. bt_regs s2 r = bt_regs s1 r"
      "bt_regs s2 SP = lk_stack_end (bl_linker bl)" "bt_regs s2 GP = bl_global_pointer bl"
      "bt_machine s2 = (bt_machine s1)\<lparr>mc_mem := cleared (mc_mem (bt_machine s1)) (bss_at bl) (bss_size bl div 8)\<rparr>"
    using high_half_runs [OF ok mapped] by blast
  have run: "boot_run bl st = Some (bl_main bl, s2)" using s1(1) s2(1) by (simp add: boot_run_def)
  have n: "8 * (bss_size bl div 8) = bss_size bl" using boot_bss(2) [OF ok] by auto
  have low: "root_frame bl * 4096 + 4096 \<le> bss_at bl" by (rule boot_bss(1) [OF ok])
  have mem: "mc_mem (bt_machine s2) x = (if bss_at bl \<le> x \<and> x < bss_at bl + bss_size bl then 0 else boot_tables bl (mc_mem (bt_machine st)) x)" for x
    by (simp add: s2(5) s1(3) cleared_def write_bytes_def n)
  have "pte_at (mc_mem (bt_machine s2)) (root_frame bl) j = pte_at (boot_tables bl (mc_mem (bt_machine st))) (root_frame bl) j" if "j < 512" for j
  proof (rule entry_cong [OF that])
    fix x assume "x div 4096 = root_frame bl"
    then have "x < bss_at bl" using low dividend_less_div_times [of 4096 x] by simp
    then show "mc_mem (bt_machine s2) x = boot_tables bl (mc_mem (bt_machine st)) x" by (simp add: mem)
  qed
  then have "boot_mapped bl (bt_machine s2)" using mapped by (simp add: boot_mapped_def s1(3) s2(5))
  with run s1(2) s2(2-4) show ?thesis using boot_entries(2) [OF ok] by (auto simp: handed_over_def mem)
qed

text \<open>A system whose memory is that of the hand-over is one that \<open>main\<close> starts from.\<close>

lemma boot_mapped_booted:
  assumes ok: "boot_layout_ok bl" and mapped: "boot_mapped bl (sy_machine s)" and no: "no_memory s"
  shows "booted (bl_linker bl) s"
proof -
  let ?m = "sy_machine s" and ?w = "boot_satp bl"
  have sr: "unat ?w div 2 ^ 60 = 8" "unat ?w mod 2 ^ 44 = root_frame bl"
    using boot_satp_root(1) [OF ok] by (simp_all add: satp_root_def split: if_splits)
  have satp: "mc_satp ?m = ?w" using mapped by (simp add: boot_mapped_def)
  have lt: "root_frame bl * 4096 + 4096 \<le> 2 ^ 38" using boot_page_table(3) [OF ok] boot_image_bound [OF ok] by linarith
  have "unat (drop_bit 60 ?w) = 8" using sr(1) by (simp add: unat_drop_bit)
  then have mode: "drop_bit 60 ?w = 8" by (simp add: word_unat_eq_iff)
  have "SATP_PPN_MASK = mask 44" by (simp add: SATP_PPN_MASK_def mask_eq_decr_exp)
  then have "unat (?w AND SATP_PPN_MASK) = root_frame bl" using sr(2) unat_and_mask [of ?w 44] by (simp only:)
  then have "unat (push_bit 12 (?w AND SATP_PPN_MASK)) = root_frame bl * 4096"
    using lt by (simp add: push_bit_eq_mult unat_word_ariths)
  then have "push_bit 12 (?w AND SATP_PPN_MASK) = bl_page_table bl" by (simp add: word_unat_eq_iff boot_page_table(1) [OF ok])
  then have root: "active_root_table ?m = Ok (PhysAddr (bl_page_table bl))"
    by (simp add: active_root_table_def satp mode SATP_MODE_MASK_def SATP_MODE_SV39_def Let_def)
  let ?bp = "\<lparr>bp_root_virtual = VirtAddr (bl_page_table bl)\<rparr>"
  have br: "boot_root ?bp = root_frame bl" by (simp add: boot_root_def root_frame_def)
  have r: "giga bl * 2 ^ 30 \<le> root_frame bl * 4096" "root_frame bl * 4096 < giga bl * 2 ^ 30 + 2 ^ 30"
    using boot_page_table(2,3) [OF ok] boot_image_end [OF ok] by linarith+
  then have d: "root_frame bl * 4096 div 2 ^ 30 = giga bl" by (intro div_nat_eqI) simp_all
  have v: "vpn 2 (root_frame bl * 4096) = giga bl" using d giga_low [OF ok] by (simp add: vpn_def)
  have "boot_ok ?bp ?m"
    using mapped giga_low [OF ok] giga_leaf_permits [OF ok] lt boot_satp_root(1) [OF ok] satp d
    by (simp add: boot_ok_def br v boot_page_table(1) [OF ok] boot_mapped_def window_leaf_def Let_def)
  moreover have "in_image (bl_linker bl) (root_frame bl)"
    using boot_page_table(2,3) [OF ok] by (auto simp: in_image_def frame_addrs_def image_size_def)
  ultimately show ?thesis using ok no by (simp add: booted_def root br boot_layout_ok_def Let_def)
qed

end
