(* ===== verification/Logging.thy ===== *)
theory Logging
  imports Hart Addressing
begin

text \<open>
  Log records, \<open>kernel/src/logging.rs\<close>.  A record is one line of bytes; the message is an argument,
  already formatted.  \<open>writeln!\<close> writes its pieces one after the other and stops at the first
  failure, which is the same as writing the line byte by byte; the failure is dropped.  The
  verbose levels exist only with their features; which records are compiled is not modelled.
\<close>

section \<open>Model\<close>

datatype Level = Trace | Debug | Info | Warn | LevelError

datatype Target = Boot | Frames | TargetPaging | Timer | TargetTrap | TargetProcess | Syscall

definition level_name :: "Level \<Rightarrow> bytes" where
  "level_name l = (case l of Trace \<Rightarrow> ascii ''TRACE'' | Debug \<Rightarrow> ascii ''DEBUG'' | Info \<Rightarrow> ascii ''INFO''
     | Warn \<Rightarrow> ascii ''WARN'' | LevelError \<Rightarrow> ascii ''ERROR'')"

definition target_name :: "Target \<Rightarrow> bytes" where
  "target_name t = (case t of Boot \<Rightarrow> ascii ''boot'' | Frames \<Rightarrow> ascii ''frames'' | TargetPaging \<Rightarrow> ascii ''paging''
     | Timer \<Rightarrow> ascii ''timer'' | TargetTrap \<Rightarrow> ascii ''trap'' | TargetProcess \<Rightarrow> ascii ''process'' | Syscall \<Rightarrow> ascii ''syscall'')"

text \<open>Padding of \<open>core::fmt\<close>: spaces up to a width in characters, which are the bytes that do not continue one.\<close>

definition char_count :: "bytes \<Rightarrow> nat" where
  "char_count bs = length (filter (\<lambda>b. b AND 0xC0 \<noteq> 0x80) bs)"

definition pad_right :: "nat \<Rightarrow> bytes \<Rightarrow> bytes" where
  "pad_right width bs = bs @ replicate (width - char_count bs) 32"

definition pad_left :: "nat \<Rightarrow> bytes \<Rightarrow> bytes" where
  "pad_left width bs = replicate (width - char_count bs) 32 @ bs"

fun decimal :: "nat \<Rightarrow> bytes" where
  "decimal n = (if n < 10 then [word_of_nat (48 + n)] else decimal (n div 10) @ [word_of_nat (48 + n mod 10)])"

declare decimal.simps [simp del]

definition timestamp :: "u64 option \<Rightarrow> bytes" where
  "timestamp t = (case t of None \<Rightarrow> [] | Some ticks \<Rightarrow> ascii ''['' @ pad_left 12 (decimal (unat ticks)) @ ascii '']'')"

definition strip_prefix :: "bytes \<Rightarrow> bytes \<Rightarrow> bytes" where
  "strip_prefix prefix bs = (if take (length prefix) bs = prefix then drop (length prefix) bs else bs)"

definition log_line :: "Level \<Rightarrow> Target \<Rightarrow> u64 option \<Rightarrow> bytes \<Rightarrow> u32 \<Rightarrow> bytes \<Rightarrow> bytes" where
  "log_line level target time file line args =
     ascii ''['' @ pad_right 5 (level_name level) @ ascii ''][''  @ pad_right 7 (target_name target) @ ascii '']'' @
     timestamp time @ ascii '' '' @ pad_left 32 file @ ascii '':'' @ pad_right 4 (decimal (unat line)) @ ascii '' | '' @
     args @ [10]"

definition log_write :: "'w platform \<Rightarrow> Level \<Rightarrow> Target \<Rightarrow> bytes \<Rightarrow> u32 \<Rightarrow> bytes \<Rightarrow> 'w hart \<Rightarrow> 'w hart" where
  "log_write pf level target file line args h = (
     let time = time_ticks pf h; file = strip_prefix (ascii ''kernel/src/'') file in
     h\<lparr>ht_world := snd (console_write_str pf (log_line level target time file line args) (ht_world h))\<rparr>)"

section \<open>What a record writes\<close>

text \<open>The calls of the firmware that a string makes, up to and including the first that fails.\<close>

fun console_feed :: "'w platform \<Rightarrow> bytes \<Rightarrow> 'w \<Rightarrow> 'w" where
  "console_feed pf [] w = w"
| "console_feed pf (b # bs) w =
     (case pf_ecall pf DBCN_EID DBCN_WRITE_BYTE_FID (ucast b) w of (a0, w') \<Rightarrow> if a0 = 0 then console_feed pf bs w' else w')"

lemma console_write_byte_eq:
  "snd (console_write_byte pf b w) = snd (pf_ecall pf DBCN_EID DBCN_WRITE_BYTE_FID (ucast b) w)"
  by (simp add: console_write_byte_def map_err_op_def sbi_write_byte_def sbi_call_def split: prod.split)

lemma console_write_str_feed: "snd (console_write_str pf bs w) = console_feed pf bs w"
proof (induction bs arbitrary: w)
  case (Cons b bs)
  obtain r w' where r: "console_write_byte pf b w = (r, w')" by (cases "console_write_byte pf b w")
  obtain a0 w1 where a: "pf_ecall pf DBCN_EID DBCN_WRITE_BYTE_FID (ucast b) w = (a0, w1)"
    by (cases "pf_ecall pf DBCN_EID DBCN_WRITE_BYTE_FID (ucast b) w")
  have "returns r" "w' = w1" "r = Ok () \<longleftrightarrow> a0 = 0"
    using console_write_byte_returns [of pf b w] console_write_byte_eq [of pf b w] console_write_byte_Ok [of pf b w] r a by simp_all
  then show ?case using Cons.IH [of w1] r a by (cases r) (auto simp: console_write_str_def)
qed (simp add: console_write_str_def)

lemma log_write_eq:
  "log_write pf level target file line args h =
     h\<lparr>ht_world := console_feed pf (log_line level target (time_ticks pf h) (strip_prefix (ascii ''kernel/src/'') file) line args)
        (ht_world h)\<rparr>"
  by (simp add: log_write_def Let_def console_write_str_feed)

text \<open>The columns up to the time stamp have the same width in every record.\<close>

lemma ascii_names: "length (pad_right 5 (level_name l)) = 5" "length (pad_right 7 (target_name t)) = 7"
  by (cases l; cases t; simp add: pad_right_def level_name_def target_name_def char_count_def ascii_def)+

definition decimal_value :: "bytes \<Rightarrow> nat" where
  "decimal_value bs = foldl (\<lambda>n b. n * 10 + (unat b - 48)) 0 bs"

lemma decimal_value_decimal: "decimal_value (decimal n) = n"
proof (induction n rule: decimal.induct)
  case (1 n)
  have d: "unat (word_of_nat (48 + d) :: u8) = 48 + d" if "d < 10" for d using that by (subst unat_of_nat) simp
  show ?case
  proof (cases "n < 10")
    case True
    then show ?thesis using d [of n] by (subst decimal.simps) (simp add: decimal_value_def)
  next
    case False
    then show ?thesis using "1.IH" d [of "n mod 10"] by (subst decimal.simps) (simp add: decimal_value_def)
  qed
qed

end
