(* ===== verification/User_Program.thy ===== *)
theory User_Program
  imports Trap Logging
begin

text \<open>
  A running process and its traps.  First any process: the steps of the kernel between two stretches of
  user code are traps, and their effect on the tick counters is an invariant of every history.  Then
  the embedded program itself, \<open>user/init/src/main.rs\<close>, whose system calls are traps into the handler.
\<close>

unbundle bit_operations_syntax

section \<open>Histories of traps\<close>

text \<open>
  A history of traps that returned: for each, whether it was a timer interrupt and where it came
  from.  Between traps the outside world moves on.
\<close>

datatype trap_kind = UserTimer | SupervisorTimer | OtherTrap

definition trap_kind_of :: "trap_frame \<Rightarrow> trap_kind" where
  "trap_kind_of frame =
     (if tf_cause frame = TIMER_INTERRUPT then if from_user frame then UserTimer else SupervisorTimer else OtherTrap)"

inductive traps :: "'w platform \<Rightarrow> 'w hart \<Rightarrow> trap_kind list \<Rightarrow> 'w hart \<Rightarrow> bool" for pf where
  traps_none: "traps pf h [] h"
| traps_world: "traps pf (h\<lparr>ht_world := w\<rparr>) ks h' \<Longrightarrow> traps pf h ks h'"
| traps_return: "\<lbrakk>trap_handler pf frame h = (TrapReturn frame', h1); traps pf h1 ks h'\<rbrakk> \<Longrightarrow>
    traps pf h (trap_kind_of frame # ks) h'"

inductive_cases traps_noneE: "traps pf h [] h'"

definition ticks_of :: "trap_kind \<Rightarrow> u64" where
  "ticks_of k = (case k of OtherTrap \<Rightarrow> 0 | _ \<Rightarrow> 1)"

definition user_ticks_of :: "trap_kind \<Rightarrow> u64" where
  "user_ticks_of k = (case k of UserTimer \<Rightarrow> 1 | _ \<Rightarrow> 0)"

text \<open>What one trap that returns does to the hart.\<close>

lemma trap_return_hart:
  assumes "trap_handler pf frame h = (TrapReturn frame', h')"
  shows "h' = h\<lparr>ht_world := ht_world h', ht_ticks := ht_ticks h + ticks_of (trap_kind_of frame),
    ht_user_ticks := ht_user_ticks h + user_ticks_of (trap_kind_of frame)\<rparr>"
proof (cases "tf_cause frame = TIMER_INTERRUPT")
  case timer: True
  obtain r h1 where r: "handle_interrupt pf h = (r, h1)" by (cases "handle_interrupt pf h")
  have ok: "r = Ok ()"
    using assms timer r by (auto simp: trap_handler_def trap_fatal_def TIMER_INTERRUPT_def ILLEGAL_INSTRUCTION_def Let_def split: if_splits)
  then have "h' = (if from_user frame then h1\<lparr>ht_user_ticks := ht_user_ticks h1 + 1\<rparr> else h1)"
    using trap_timer [OF timer, of pf h h1] r assms by simp
  moreover obtain d where "h1 = (world_after pf d h)\<lparr>ht_ticks := ht_ticks h + 1\<rparr>"
    by (cases rule: handle_interrupt_cases [where pf = pf and h = h]) (use r ok in auto)
  ultimately show ?thesis using timer by (cases h) (auto simp: trap_kind_of_def ticks_of_def user_ticks_of_def world_after_def)
next
  case other: False
  let ?n = "tf_registers frame ! 17" and ?a = "tf_registers frame ! 10"
  obtain out h1 where r: "handle_syscall pf ?n ?a h = (out, h1)" by (cases "handle_syscall pf ?n ?a h")
  have "h' = h \<or> (\<exists>v. out = SyscallReturn v \<and> h' = h1)"
    using assms other r
    by (auto simp: trap_handler_def trap_fatal_def process_fault_def Let_def split: if_splits option.splits syscall_outcome.splits)
  moreover have "h1 = h\<lparr>ht_world := ht_world h1\<rparr>" if "out = SyscallReturn v" for v
    using handle_syscall_keeps [of pf ?n ?a h] handle_syscall_exit [of pf ?n ?a h] r that by auto
  ultimately show ?thesis using other by (cases h) (auto simp: trap_kind_of_def ticks_of_def user_ticks_of_def)
qed

lemma traps_hart:
  assumes "traps pf h ks h'"
  shows "h' = h\<lparr>ht_world := ht_world h', ht_ticks := ht_ticks h + sum_list (map ticks_of ks),
    ht_user_ticks := ht_user_ticks h + sum_list (map user_ticks_of ks)\<rparr>"
  using assms
proof induction
  case (traps_return frame h frame' h1 ks h')
  from trap_return_hart [OF traps_return.hyps(1)] traps_return.IH show ?case
    by (cases h, cases h1, cases h') (simp add: add.assoc)
qed (auto intro: hart.equality)

lemma ticks_count:
  "sum_list (map ticks_of ks) = word_of_nat (length (filter (\<lambda>k. k \<noteq> OtherTrap) ks))"
  "sum_list (map user_ticks_of ks) = word_of_nat (length (filter (\<lambda>k. k = UserTimer) ks))"
  by (induction ks) (auto simp: ticks_of_def user_ticks_of_def split: trap_kind.split)

section \<open>The embedded program\<close>

subsection \<open>Model\<close>

text \<open>
  The state of the process is the frame its registers are saved in, and the hart.  The ways it ends are
  errors.  \<open>pc\<close> is the address of the \<open>ecall\<close> instruction.  User mode runs with interrupts enabled: the
  timer interrupts that arrive before each system call are an argument of the call, and before each
  of them the world moves on.
\<close>

datatype user_end = Exited kusize | Faulted kusize | KernelHalted

type_synonym 'w user_state = "trap_frame \<times> 'w hart"

definition user_trap :: "'w platform \<Rightarrow> trap_frame \<Rightarrow> ('w user_state, trap_frame, user_end) op" where
  "user_trap pf frame st =
     (case trap_handler pf frame (snd st) of (out, h) \<Rightarrow>
        (case out of
           TrapReturn frame' \<Rightarrow> (Ok frame', (frame', h))
         | ProcessExit status \<Rightarrow> (Err (Exited status), (fst st, h))
         | ProcessFault cause _ _ \<Rightarrow> (Err (Faulted cause), (fst st, h))
         | Halted \<Rightarrow> (Err KernelHalted, (fst st, h))))"

definition user_interrupt :: "'w platform \<Rightarrow> ('w \<Rightarrow> 'w) \<Rightarrow> ('w user_state, unit, user_end) op" where
  "user_interrupt pf passes =
     bind_op (modify_op (\<lambda>(frame, h). (frame, h\<lparr>ht_world := passes (ht_world h)\<rparr>))) (\<lambda>_.
     bind_op (get_op fst) (\<lambda>frame.
     bind_op (user_trap pf (frame\<lparr>tf_cause := TIMER_INTERRUPT\<rparr>)) (\<lambda>_. ret_op ())))"

definition user_call :: "'w platform \<Rightarrow> kusize \<Rightarrow> kusize \<Rightarrow> kusize \<Rightarrow> ('w user_state, kusize, user_end) op" where
  "user_call pf pc number argument =
     bind_op (get_op fst) (\<lambda>frame.
     bind_op (user_trap pf (frame\<lparr>tf_registers := (tf_registers frame)[17 := number, 10 := argument],
         tf_epc := pc, tf_cause := USER_ECALL\<rparr>)) (\<lambda>frame'.
     ret_op (tf_registers frame' ! 10)))"

definition user_syscall ::
    "'w platform \<Rightarrow> kusize \<Rightarrow> ('w \<Rightarrow> 'w) list \<Rightarrow> kusize \<Rightarrow> kusize \<Rightarrow> ('w user_state, kusize, user_end) op" where
  "user_syscall pf pc es number argument =
     bind_op (for_op (user_interrupt pf) es) (\<lambda>_. user_call pf pc number argument)"

text \<open>After the call that ends the process, an illegal instruction.\<close>

definition user_exit :: "'w platform \<Rightarrow> kusize \<Rightarrow> ('w \<Rightarrow> 'w) list \<Rightarrow> kusize \<Rightarrow> ('w user_state, 'a, user_end) op" where
  "user_exit pf pc es status =
     bind_op (user_syscall pf pc es EXIT status) (\<lambda>_.
     bind_op (get_op fst) (\<lambda>frame.
     bind_op (user_trap pf (frame\<lparr>tf_cause := ILLEGAL_INSTRUCTION\<rparr>)) (\<lambda>_. lift_op Diverge)))"

text \<open>The panic handler.\<close>

definition user_panic :: "'w platform \<Rightarrow> kusize \<Rightarrow> ('w \<Rightarrow> 'w) list \<Rightarrow> ('w user_state, 'a, user_end) op" where
  "user_panic pf pc es = user_exit pf pc es 3"

text \<open>Outside the loop, \<open>intr i\<close> are the interrupts before call number \<open>i\<close>; \<open>n\<close> calls were made before.\<close>

definition user_write ::
    "'w platform \<Rightarrow> kusize \<Rightarrow> (nat \<Rightarrow> ('w \<Rightarrow> 'w) list) \<Rightarrow> nat \<Rightarrow> bytes \<Rightarrow> ('w user_state, unit, user_end) op" where
  "user_write pf pc intr n bytes =
     for_op (\<lambda>(i, byte).
       bind_op (user_syscall pf pc (intr i) CONSOLE_WRITE_BYTE (ucast byte)) (\<lambda>r.
       if r \<noteq> 0 then user_exit pf pc (intr (i + 1)) 2 else ret_op ())) (enumerate n bytes)"

definition user_rotate :: "u64 list \<Rightarrow> u64 list" where
  "user_rotate values = map (\<lambda>v. word_rotr 1 (word_rotl 1 v)) values"

text \<open>The loop, with the interrupts before each of its calls; when none are left it does not end.\<close>

fun user_loop :: "'w platform \<Rightarrow> kusize \<Rightarrow> kusize \<Rightarrow> ('w \<Rightarrow> 'w) list list \<Rightarrow> u64 list \<Rightarrow> ('w user_state, u64 list, user_end) op" where
  "user_loop pf pc start [] values =
     bind_op (user_syscall pf pc [] TIMER_TICKS 0) (\<lambda>now.
     if now - start < 3 then lift_op Diverge else ret_op values)"
| "user_loop pf pc start (es # rounds) values =
     bind_op (user_syscall pf pc es TIMER_TICKS 0) (\<lambda>now.
     if now - start < 3 then user_loop pf pc start rounds ((user_rotate ^^ 10000) values) else ret_op values)"

declare user_loop.simps [simp del]

definition user_values :: "u64 list" where "user_values = replicate 32 0x13579bdf2468ace0"

definition user_greeting :: bytes where "user_greeting = ascii ''Hello from user mode'' @ [10]"
definition user_farewell :: bytes where "user_farewell = ascii ''User timer resume confirmed'' @ [10]"

definition user_main ::
    "'w platform \<Rightarrow> kusize \<Rightarrow> (nat \<Rightarrow> ('w \<Rightarrow> 'w) list) \<Rightarrow> ('w \<Rightarrow> 'w) list list \<Rightarrow> ('w user_state, unit, user_end) op" where
  "user_main pf pc intr rounds =
     bind_op (user_write pf pc intr 0 user_greeting) (\<lambda>_.
     bind_op (user_syscall pf pc (intr 21) TIMER_TICKS 0) (\<lambda>start.
     bind_op (user_loop pf pc start rounds user_values) (\<lambda>values.
     bind_op (if \<exists>v\<in>set values. v \<noteq> 0x13579bdf2468ace0 then user_exit pf pc (intr 22) 1 else ret_op ()) (\<lambda>_.
     bind_op (user_write pf pc intr 22 user_farewell) (\<lambda>_.
     user_exit pf pc (intr 50) 0)))))"

subsection \<open>A calculus of runs\<close>

text \<open>From harts of \<open>P\<close>, an operation goes on with \<open>Q\<close>, ends as \<open>E\<close> allows, or waits forever where \<open>D\<close> allows it.\<close>

definition user_ok :: "trap_frame \<Rightarrow> bool" where
  "user_ok frame \<longleftrightarrow> from_user frame \<and> length (tf_registers frame) = 32"

definition call_ok :: "kusize \<Rightarrow> bool" where
  "call_ok pc \<longleftrightarrow> unat pc + 4 < 2 ^ 64"

definition user_run ::
    "(user_end \<Rightarrow> bool) \<Rightarrow> bool \<Rightarrow> ('w hart \<Rightarrow> bool) \<Rightarrow> ('w user_state, 'a, user_end) op \<Rightarrow> ('a \<Rightarrow> 'w hart \<Rightarrow> bool) \<Rightarrow> bool" where
  "user_run E D P f Q \<longleftrightarrow> (\<forall>frame h. user_ok frame \<and> P h \<longrightarrow>
     (case f (frame, h) of (r, frame', h') \<Rightarrow>
        (case r of Ok a \<Rightarrow> user_ok frame' \<and> Q a h' | Err e \<Rightarrow> E e | Panic \<Rightarrow> False | Diverge \<Rightarrow> D)))"

lemma user_runI:
  assumes "\<And>frame h r frame' h'. user_ok frame \<Longrightarrow> P h \<Longrightarrow> f (frame, h) = (r, frame', h') \<Longrightarrow>
    case r of Ok a \<Rightarrow> user_ok frame' \<and> Q a h' | Err e \<Rightarrow> E e | Panic \<Rightarrow> False | Diverge \<Rightarrow> D"
  shows "user_run E D P f Q"
  unfolding user_run_def
proof (intro allI impI)
  fix frame h assume "user_ok frame \<and> P h"
  then show "case f (frame, h) of (r, frame', h') \<Rightarrow>
      (case r of Ok a \<Rightarrow> user_ok frame' \<and> Q a h' | Err e \<Rightarrow> E e | Panic \<Rightarrow> False | Diverge \<Rightarrow> D)"
    using assms [of frame h] by (cases "f (frame, h)") auto
qed

lemma user_runD:
  "user_run E D P f Q \<Longrightarrow> user_ok frame \<Longrightarrow> P h \<Longrightarrow> f (frame, h) = (r, frame', h') \<Longrightarrow>
   case r of Ok a \<Rightarrow> user_ok frame' \<and> Q a h' | Err e \<Rightarrow> E e | Panic \<Rightarrow> False | Diverge \<Rightarrow> D"
  unfolding user_run_def by fastforce

lemma user_run_bind:
  assumes "user_run E D P f Q" "\<And>a. user_run E D (Q a) (g a) R"
  shows "user_run E D P (bind_op f g) R"
proof (rule user_runI)
  fix frame h r frame' h' assume P: "user_ok frame" "P h" and run: "bind_op f g (frame, h) = (r, frame', h')"
  from run show "case r of Ok a \<Rightarrow> user_ok frame' \<and> R a h' | Err e \<Rightarrow> E e | Panic \<Rightarrow> False | Diverge \<Rightarrow> D"
  proof (cases rule: bind_op_cases)
    case (Ok a st)
    obtain f1 h1 where st: "st = (f1, h1)" by (cases st)
    from user_runD [OF assms(1) P Ok(1) [unfolded st]] have "user_ok f1" "Q a h1" by simp_all
    from user_runD [OF assms(2) this Ok(2) [unfolded st]] show ?thesis .
  qed (use user_runD [OF assms(1) P] in fastforce)+
qed

lemma user_run_weaken:
  "user_run E D P f Q \<Longrightarrow> (\<And>h. P' h \<Longrightarrow> P h) \<Longrightarrow> (\<And>a h. Q a h \<Longrightarrow> Q' a h) \<Longrightarrow> user_run E D P' f Q'"
  unfolding user_run_def by (fastforce split: res.split)

lemma user_run_ret: "(\<And>h. P h \<Longrightarrow> Q a h) \<Longrightarrow> user_run E D P (ret_op a) Q"
  by (simp add: user_run_def)

lemma user_run_wait: "(\<And>h. P h \<Longrightarrow> D) \<Longrightarrow> user_run E D P (lift_op Diverge) Q"
  by (auto simp: user_run_def)

lemma user_run_if: "(b \<Longrightarrow> user_run E D P f Q) \<Longrightarrow> (\<not> b \<Longrightarrow> user_run E D P g Q) \<Longrightarrow> user_run E D P (if b then f else g) Q"
  by simp

lemma user_run_assume: "(\<And>h. P h \<Longrightarrow> b) \<Longrightarrow> (b \<Longrightarrow> user_run E D P f Q) \<Longrightarrow> user_run E D P f Q"
  by (cases b) (auto simp: user_run_def)

lemma user_run_each: "(\<And>t. user_run E D (\<lambda>h. P h \<and> g h = t) f Q) \<Longrightarrow> user_run E D P f Q"
  unfolding user_run_def by simp

lemma for_op_Cons: "for_op f (x # xs) = bind_op (f x) (\<lambda>_. for_op f xs)"
  by (rule ext) (auto simp: bind_op_def split: prod.split res.split)

lemma for_op_Nil: "for_op f [] = ret_op ()"
  by (rule ext) simp

lemma user_run_for: "(\<And>x. x \<in> set xs \<Longrightarrow> user_run E D P (f x) (\<lambda>_. P)) \<Longrightarrow> user_run E D P (for_op f xs) (\<lambda>_. P)"
  by (induction xs) (auto simp: for_op_Nil for_op_Cons intro: user_run_ret user_run_bind)

subsection \<open>Calls and interrupts\<close>

lemma user_call_run:
  assumes "user_ok frame" "call_ok pc"
  obtains resume where "\<And>v. user_ok (resume v)"
    "user_call pf pc n a (frame, h) =
      (case handle_syscall pf n a h of
         (SyscallReturn v, h') \<Rightarrow> (Ok v, (resume v, h'))
       | (SyscallExit status, h') \<Rightarrow> (Err (Exited status), (frame, h')))"
proof -
  let ?call = "frame\<lparr>tf_registers := (tf_registers frame)[17 := n, 10 := a], tf_epc := pc, tf_cause := USER_ECALL\<rparr>"
  let ?resume = "\<lambda>v. ?call\<lparr>tf_epc := pc + 4, tf_registers := (tf_registers ?call)[10 := v]\<rparr>"
  have ok: "user_ok (?resume v)" for v using assms(1) by (simp add: user_ok_def from_user_def)
  have "from_user ?call" "tf_cause ?call = USER_ECALL" "unat (tf_epc ?call) + 4 < 2 ^ 64"
    using assms by (simp_all add: user_ok_def from_user_def call_ok_def)
  note t = trap_ecall [OF this, of pf h]
  have regs: "tf_registers ?call ! 17 = n" "tf_registers ?call ! 10 = a" using assms(1) by (simp_all add: user_ok_def)
  show thesis
    by (rule that [OF ok])
      (use t [unfolded regs] assms(1) in \<open>cases "handle_syscall pf n a h"; cases "fst (handle_syscall pf n a h)";
        simp add: user_call_def user_trap_def bind_op_def user_ok_def\<close>)
qed

lemma call_numbers [simp]: "CONSOLE_WRITE_BYTE \<noteq> EXIT" "TIMER_TICKS \<noteq> EXIT" "EXIT \<noteq> CONSOLE_WRITE_BYTE" "EXIT \<noteq> TIMER_TICKS"
    "TIMER_TICKS \<noteq> CONSOLE_WRITE_BYTE" "CONSOLE_WRITE_BYTE \<noteq> TIMER_TICKS" "ERROR_IO \<noteq> 0"
  by (simp_all add: CONSOLE_WRITE_BYTE_def EXIT_def TIMER_TICKS_def ERROR_IO_def)

lemma handle_write_byte:
  "handle_syscall pf CONSOLE_WRITE_BYTE (ucast (b :: u8)) h =
     (case pf_ecall pf DBCN_EID DBCN_WRITE_BYTE_FID (ucast b) (ht_world h) of (a0, w) \<Rightarrow>
        (SyscallReturn (if a0 = 0 then 0 else ERROR_IO), h\<lparr>ht_world := w\<rparr>))"
proof -
  let ?a = "ucast b :: kusize"
  have small: "unat ?a < 256"
    using le_less_trans [OF take_bit_nat_less_eq_self unsigned_less [of b]] by (simp add: unsigned_ucast_eq)
  have same: "ucast ?a = b" by (rule bit_word_eqI) (auto simp: bit_simps)
  have "snd (handle_syscall pf CONSOLE_WRITE_BYTE ?a h) = h\<lparr>ht_world := snd (console_write_byte pf b (ht_world h))\<rparr>"
    using small same by (auto simp: handle_syscall_def word_less_nat_alt split: prod.split)
  then show ?thesis using handle_syscall_write [OF small, of pf h]
    by (cases "handle_syscall pf CONSOLE_WRITE_BYTE ?a h") (auto simp: console_write_byte_eq split: prod.split)
qed

lemma user_rotate_id [simp]: "user_rotate vs = vs" "(user_rotate ^^ n) vs = vs"
proof -
  have "user_rotate = id" by (rule ext) (simp add: user_rotate_def map_idI)
  then show "user_rotate vs = vs" "(user_rotate ^^ n) vs = vs" by simp_all
qed

lemma elapsed_three:
  "\<not> (start + word_of_nat k :: kusize) - start < 3 \<Longrightarrow> 3 \<le> k"
  "(start + word_of_nat k :: kusize) - start < 3 \<Longrightarrow> \<not> (3 \<le> k \<and> k < 2 ^ 64)"
proof -
  have u: "unat (start + word_of_nat k - start) = k mod 2 ^ 64" by (simp add: unat_of_nat)
  show "\<not> (start + word_of_nat k :: kusize) - start < 3 \<Longrightarrow> 3 \<le> k"
    using mod_less_eq_dividend [of k "2 ^ 64"] unfolding word_less_nat_alt u by simp
  show "(start + word_of_nat k :: kusize) - start < 3 \<Longrightarrow> \<not> (3 \<le> k \<and> k < 2 ^ 64)"
    unfolding word_less_nat_alt u by auto
qed

subsection \<open>What the program relies on\<close>

text \<open>
  The kernel and the world as the program sees them, in harts of \<open>I\<close>: the interrupts of \<open>ps\<close> return and are
  counted, and bytes reach the console, or the program ends as \<open>E\<close> allows.
\<close>

locale user_host =
  fixes pf :: "'w platform" and I :: "'w hart \<Rightarrow> bool" and E :: "user_end \<Rightarrow> bool" and ps :: "('w \<Rightarrow> 'w) set"
  assumes interrupt_law: "I h \<Longrightarrow> p \<in> ps \<Longrightarrow> from_user frame \<Longrightarrow> tf_cause frame = TIMER_INTERRUPT \<Longrightarrow>
      trap_handler pf frame (h\<lparr>ht_world := p (ht_world h)\<rparr>) = (out, h') \<Longrightarrow>
      out = Halted \<and> E KernelHalted \<or> out = TrapReturn frame \<and> I h' \<and> ht_user_ticks h' = ht_user_ticks h + 1"
    and console_law: "I h \<Longrightarrow> pf_ecall pf DBCN_EID DBCN_WRITE_BYTE_FID (ucast (b :: u8)) (ht_world h) = (a0, w) \<Longrightarrow>
      (a0 = 0 \<or> E (Exited 2)) \<and> I (h\<lparr>ht_world := w\<rparr>)"
begin

lemma interrupt_run:
  assumes "p \<in> ps"
  shows "user_run E D (\<lambda>h. I h \<and> ht_user_ticks h = t) (user_interrupt pf p) (\<lambda>_ h. I h \<and> ht_user_ticks h = t + 1)"
proof (rule user_runI)
  fix frame h r frame' h'
  assume ok: "user_ok frame" and h: "I h \<and> ht_user_ticks h = t" and run: "user_interrupt pf p (frame, h) = (r, frame', h')"
  let ?f = "frame\<lparr>tf_cause := TIMER_INTERRUPT\<rparr>"
  have usr: "from_user ?f" "user_ok ?f" using ok by (simp_all add: user_ok_def from_user_def)
  obtain out h1 where t: "trap_handler pf ?f (h\<lparr>ht_world := p (ht_world h)\<rparr>) = (out, h1)"
    by (cases "trap_handler pf ?f (h\<lparr>ht_world := p (ht_world h)\<rparr>)")
  from interrupt_law [OF _ assms usr(1) _ t] h
  show "case r of Ok a \<Rightarrow> user_ok frame' \<and> I h' \<and> ht_user_ticks h' = t + 1 | Err e \<Rightarrow> E e | Panic \<Rightarrow> False | Diverge \<Rightarrow> D"
    using run t usr(2) by (auto simp: user_interrupt_def user_trap_def bind_op_def)
qed

lemma interrupts_run:
  "set es \<subseteq> ps \<Longrightarrow> user_run E D (\<lambda>h. I h \<and> ht_user_ticks h = t) (for_op (user_interrupt pf) es)
     (\<lambda>_ h. I h \<and> ht_user_ticks h = t + word_of_nat (length es))"
proof (induction es arbitrary: t)
  case Nil
  show ?case unfolding for_op_Nil by (rule user_run_ret) simp
next
  case (Cons p es)
  then show ?case
    unfolding for_op_Cons by (intro user_run_bind [OF interrupt_run]) (use Cons.IH [of "t + 1"] in \<open>simp_all add: add.assoc\<close>)
qed

lemma interrupts_keep:
  "set es \<subseteq> ps \<Longrightarrow> user_run E D I (for_op (user_interrupt pf) es) (\<lambda>_. I)"
  by (rule user_run_each, rule user_run_weaken [OF interrupts_run]) auto

lemma ticks_run:
  assumes "call_ok pc" "set es \<subseteq> ps"
  shows "user_run E D (\<lambda>h. I h \<and> ht_user_ticks h = t) (user_syscall pf pc es TIMER_TICKS a)
    (\<lambda>v h. I h \<and> ht_user_ticks h = v \<and> v = t + word_of_nat (length es))"
  unfolding user_syscall_def
proof (rule user_run_bind [OF interrupts_run [OF assms(2)]], rule user_runI)
  fix frame h r frame' h'
  assume ok: "user_ok frame" and h: "I h \<and> ht_user_ticks h = t + word_of_nat (length es)"
    and run: "user_call pf pc TIMER_TICKS a (frame, h) = (r, frame', h')"
  obtain resume where "\<And>v. user_ok (resume v)" "r = Ok (ht_user_ticks h)" "frame' = resume (ht_user_ticks h)" "h' = h"
    by (rule user_call_run [OF ok assms(1), of pf TIMER_TICKS a h])
      (use run in \<open>auto simp: handle_syscall_def user_timer_ticks_def\<close>)
  then show "case r of Ok v \<Rightarrow> user_ok frame' \<and> I h' \<and> ht_user_ticks h' = v \<and> v = t + word_of_nat (length es)
      | Err e \<Rightarrow> E e | Panic \<Rightarrow> False | Diverge \<Rightarrow> D" using h by simp
qed

lemma exit_run:
  assumes "call_ok pc" "set es \<subseteq> ps" "E (Exited status)"
  shows "user_run E D I (user_exit pf pc es status) Q"
proof -
  have "user_run E D I (user_call pf pc EXIT status) (\<lambda>_ _. False)"
  proof (rule user_runI)
    fix frame h r frame' h' assume ok: "user_ok frame" and run: "user_call pf pc EXIT status (frame, h) = (r, frame', h')"
    have "r = Err (Exited status)"
      by (rule user_call_run [OF ok assms(1), of pf EXIT status h]) (use run in \<open>auto simp: handle_syscall_def\<close>)
    then show "case r of Ok _ \<Rightarrow> user_ok frame' \<and> False | Err e \<Rightarrow> E e | Panic \<Rightarrow> False | Diverge \<Rightarrow> D" using assms(3) by simp
  qed
  then show ?thesis
    unfolding user_exit_def user_syscall_def
    by (intro user_run_bind [where Q = "\<lambda>_ _. False"] user_run_bind [OF interrupts_keep [OF assms(2)]])
      (simp_all add: user_run_def)
qed

lemma write_run:
  assumes "call_ok pc" "\<And>i. set (intr i) \<subseteq> ps"
  shows "user_run E D I (user_write pf pc intr n bs) (\<lambda>_. I)"
  unfolding user_write_def
proof (rule user_run_for, unfold case_prod_beta, rule user_run_bind)
  fix x :: "nat \<times> u8"
  let ?Q = "\<lambda>v h. I h \<and> (v \<noteq> 0 \<longrightarrow> E (Exited 2))"
  show "user_run E D I (user_syscall pf pc (intr (fst x)) CONSOLE_WRITE_BYTE (ucast (snd x))) ?Q"
    unfolding user_syscall_def
  proof (rule user_run_bind [OF interrupts_keep [OF assms(2)]], rule user_runI)
    fix frame h r frame' h'
    assume ok: "user_ok frame" and h: "I h" and run: "user_call pf pc CONSOLE_WRITE_BYTE (ucast (snd x)) (frame, h) = (r, frame', h')"
    obtain a0 w where c: "pf_ecall pf DBCN_EID DBCN_WRITE_BYTE_FID (ucast (snd x)) (ht_world h) = (a0, w)" by fastforce
    show "case r of Ok v \<Rightarrow> user_ok frame' \<and> ?Q v h' | Err e \<Rightarrow> E e | Panic \<Rightarrow> False | Diverge \<Rightarrow> D"
      by (rule user_call_run [OF ok assms(1), of pf CONSOLE_WRITE_BYTE "ucast (snd x)" h])
        (use run console_law [OF h c] in \<open>auto simp: handle_write_byte c\<close>)
  qed
  show "user_run E D (?Q v) (if v \<noteq> 0 then user_exit pf pc (intr (fst x + 1)) 2 else ret_op ()) (\<lambda>_. I)" for v :: kusize
  proof (rule user_run_if)
    assume v: "v \<noteq> 0"
    show "user_run E D (?Q v) (user_exit pf pc (intr (fst x + 1)) 2) (\<lambda>_. I)"
      by (rule user_run_assume [where b = "E (Exited 2)"])
        (use v in \<open>auto intro: user_run_weaken [OF exit_run [OF assms(1,2)]]\<close>)
  qed (auto intro: user_run_ret)
qed

text \<open>The loop leaves its values as they are and ends after three interrupts.\<close>

lemma loop_run:
  assumes "call_ok pc"
  shows "\<forall>es\<in>set rounds. set es \<subseteq> ps \<Longrightarrow>
    D \<or> 3 \<le> k + length (concat rounds) \<and> k + length (concat rounds) < 2 ^ 64 \<Longrightarrow>
    user_run E D (\<lambda>h. I h \<and> ht_user_ticks h = start + word_of_nat k) (user_loop pf pc start rounds vs)
      (\<lambda>r h. r = vs \<and> I h \<and> 3 \<le> k + length (concat rounds))"
proof (induction rounds arbitrary: k)
  case Nil
  show ?case
    unfolding user_loop.simps
    by (rule user_run_bind [OF ticks_run [OF assms]], simp,
      rule user_run_if; (rule user_run_wait | rule user_run_ret)) (use Nil elapsed_three [of start k] in auto)
next
  case (Cons es rounds)
  let ?k = "k + length es"
  note next_round = Cons.IH [of ?k]
  show ?case
    unfolding user_loop.simps user_rotate_id
    by (rule user_run_bind [OF ticks_run [OF assms]], use Cons.prems(1) in simp,
      rule user_run_if, rule user_run_weaken [OF next_round])
      (use Cons.prems elapsed_three(1) [of start ?k] in \<open>auto simp: add.assoc intro!: user_run_ret\<close>)
qed

lemma main_run:
  assumes "call_ok pc" "\<And>i. set (intr i) \<subseteq> ps" "\<forall>es\<in>set rounds. set es \<subseteq> ps"
    and "D \<or> 3 \<le> length (concat rounds) \<and> length (concat rounds) < 2 ^ 64"
    and "3 \<le> length (concat rounds) \<Longrightarrow> E (Exited 0)"
  shows "user_run E D I (user_main pf pc intr rounds) (\<lambda>_ _. False)"
proof -
  let ?enough = "3 \<le> length (concat rounds)"
  let ?rest = "\<lambda>values. bind_op (if \<exists>v\<in>set values. v \<noteq> 0x13579bdf2468ace0 then user_exit pf pc (intr 22) 1 else ret_op ()) (\<lambda>_.
     bind_op (user_write pf pc intr 22 user_farewell) (\<lambda>_. user_exit pf pc (intr 50) 0))"
  have start: "user_run E D I (user_syscall pf pc (intr 21) TIMER_TICKS 0) (\<lambda>v h. I h \<and> ht_user_ticks h = v + word_of_nat 0)"
    by (rule user_run_each, rule user_run_weaken [OF ticks_run [OF assms(1,2)]]) auto
  have loop: "user_run E D (\<lambda>h. I h \<and> ht_user_ticks h = v + word_of_nat 0) (user_loop pf pc v rounds user_values)
      (\<lambda>r h. r = user_values \<and> I h \<and> ?enough)" for v
    using loop_run [OF assms(1,3), of D 0 v user_values] assms(4) by simp
  have same: "\<not> (\<exists>v\<in>set user_values. v \<noteq> 0x13579bdf2468ace0)" by (simp add: user_values_def)
  have finish: "user_run E D I (?rest user_values) (\<lambda>_ _. False)" if ?enough
    unfolding if_not_P [OF same]
    by (rule user_run_bind [OF user_run_ret [where Q = "\<lambda>_. I"]], assumption,
      rule user_run_bind [OF write_run [OF assms(1,2)]], rule exit_run [OF assms(1,2) assms(5) [OF that]])
  have "user_run E D (\<lambda>h. vs = user_values \<and> I h \<and> ?enough) (?rest vs) (\<lambda>_ _. False)" for vs
    by (rule user_run_assume [where b = "vs = user_values \<and> ?enough"], simp,
      use finish in \<open>auto intro: user_run_weaken\<close>)
  then show ?thesis
    unfolding user_main_def
    by (intro user_run_bind [OF write_run [OF assms(1,2)]] user_run_bind [OF start] user_run_bind [OF loop])
qed

end

subsection \<open>Its ends\<close>

text \<open>Any platform at all: the kernel may halt, and the console may refuse a byte.\<close>

definition possible_end :: "nat \<Rightarrow> user_end \<Rightarrow> bool" where
  "possible_end n e \<longleftrightarrow> e = KernelHalted \<or> e = Exited 2 \<or> e = Exited 0 \<and> 3 \<le> n"

lemma user_timer_trap:
  assumes "from_user frame" "tf_cause frame = TIMER_INTERRUPT" "trap_handler pf frame h = (out, h')"
  shows "out = Halted \<or> out = TrapReturn frame \<and> ht_user_ticks h' = ht_user_ticks h + 1"
proof -
  have "out = Halted \<or> out = TrapReturn frame"
    using assms by (auto simp: trap_handler_def trap_fatal_def TIMER_INTERRUPT_def ILLEGAL_INSTRUCTION_def Let_def split: if_splits prod.splits)
  moreover have "ht_user_ticks h' = ht_user_ticks h + 1" if "out = TrapReturn frame"
    using trap_return_hart [of pf frame h frame h'] assms that by (cases h') (simp add: trap_kind_of_def user_ticks_of_def)
  ultimately show ?thesis by blast
qed

interpretation any_host: user_host pf "\<lambda>_. True" "possible_end n" UNIV for pf and n
proof unfold_locales
  fix h :: "'a hart" and p frame out h'
  assume f: "from_user frame" "tf_cause frame = TIMER_INTERRUPT"
    and t: "trap_handler pf frame (h\<lparr>ht_world := p (ht_world h)\<rparr>) = (out, h')"
  from user_timer_trap [OF f t]
  show "out = Halted \<and> possible_end n KernelHalted \<or> out = TrapReturn frame \<and> True \<and> ht_user_ticks h' = ht_user_ticks h + 1"
    by (simp add: possible_end_def)
qed (simp add: possible_end_def)

text \<open>
  A dependable platform: in the worlds of \<open>W\<close> the firmware accepts every call and the next deadline can be
  represented; neither the calls nor what happens outside leave them.
\<close>

definition dependable :: "'w platform \<Rightarrow> ('w \<Rightarrow> bool) \<Rightarrow> ('w \<Rightarrow> 'w) set \<Rightarrow> 'w hart \<Rightarrow> bool" where
  "dependable pf W ps h \<longleftrightarrow> ht_interval h \<noteq> 0 \<and> ht_time_state h = AVAILABLE \<and> W (ht_world h) \<and>
     (\<forall>w. W w \<longrightarrow> unat (pf_rdtime pf w) + unat (ht_interval h) < 2 ^ 64 \<and>
        (\<forall>e f a. fst (pf_ecall pf e f a w) = 0 \<and> W (snd (pf_ecall pf e f a w))) \<and> (\<forall>p\<in>ps. W (p w)))"

lemma dependable_world: "dependable pf W ps h \<Longrightarrow> W w \<Longrightarrow> dependable pf W ps (h\<lparr>ht_world := w\<rparr>)"
  by (simp add: dependable_def)

lemma dependable_interrupt:
  assumes "dependable pf W ps h" "p \<in> ps" "tf_cause frame = TIMER_INTERRUPT"
    and "trap_handler pf frame (h\<lparr>ht_world := p (ht_world h)\<rparr>) = (out, h1)"
  shows "out = TrapReturn frame \<and> dependable pf W ps h1"
proof -
  let ?h = "h\<lparr>ht_world := p (ht_world h)\<rparr>"
  have dep: "dependable pf W ps ?h" using assms(1,2) by (intro dependable_world) (simp_all add: dependable_def)
  then obtain d where d: "next_deadline pf (ht_interval ?h) ?h = Ok d"
    unfolding dependable_def by (metis next_deadline_cases)
  have served: "handle_interrupt pf ?h = (Ok (), (world_after pf d ?h)\<lparr>ht_ticks := ht_ticks ?h + 1\<rparr>)"
    by (cases rule: handle_interrupt_cases [where pf = pf and h = ?h])
      (use d dep in \<open>auto simp: dependable_def firmware_accepts_def\<close>)
  show ?thesis using trap_timer [OF assms(3) served] assms(4) dep by (auto simp: dependable_def world_after_def)
qed

lemma dependable_host: "user_host pf (dependable pf W ps) (\<lambda>e. e = Exited 0) ps"
proof
  fix h p frame out h'
  assume "dependable pf W ps h" "p \<in> ps" "from_user frame" "tf_cause frame = TIMER_INTERRUPT"
    and "trap_handler pf frame (h\<lparr>ht_world := p (ht_world h)\<rparr>) = (out, h')"
  then show "out = Halted \<and> KernelHalted = Exited 0 \<or>
      out = TrapReturn frame \<and> dependable pf W ps h' \<and> ht_user_ticks h' = ht_user_ticks h + 1"
    using dependable_interrupt [of pf W ps h p frame out h'] user_timer_trap [of frame pf "h\<lparr>ht_world := p (ht_world h)\<rparr>" out h'] by auto
next
  fix h a0 w and b :: u8
  assume h: "dependable pf W ps h" and c: "pf_ecall pf DBCN_EID DBCN_WRITE_BYTE_FID (ucast b) (ht_world h) = (a0, w)"
  then have "a0 = 0" "W w" unfolding dependable_def by (metis fst_conv snd_conv)+
  then show "(a0 = 0 \<or> Exited 2 = Exited 0) \<and> dependable pf W ps (h\<lparr>ht_world := w\<rparr>)" using dependable_world [OF h] by simp
qed

lemma user_main_ends:
  assumes "user_ok frame" "call_ok pc" "user_main pf pc intr rounds (frame, h) = (r, frame', h')"
  shows "(\<exists>e. r = Err e \<and> possible_end (length (concat rounds)) e) \<or>
    r = Diverge \<and> \<not> (3 \<le> length (concat rounds) \<and> length (concat rounds) < 2 ^ 64)"
proof -
  let ?n = "length (concat rounds)"
  have "user_run (possible_end ?n) (\<not> (3 \<le> ?n \<and> ?n < 2 ^ 64)) (\<lambda>_. True) (user_main pf pc intr rounds) (\<lambda>_ _. False)"
    by (rule any_host.main_run [OF assms(2)]) (auto simp: possible_end_def)
  from user_runD [OF this assms(1) _ assms(3)] show ?thesis by (cases r) auto
qed

lemma user_main_live:
  assumes "user_ok frame" "call_ok pc" "user_main pf pc intr rounds (frame, h) = (r, frame', h')"
    and "dependable pf W ((\<Union>i. set (intr i)) \<union> set (concat rounds)) h"
    and "3 \<le> length (concat rounds)" "length (concat rounds) < 2 ^ 64"
  shows "r = Err (Exited 0)"
proof -
  let ?ps = "(\<Union>i. set (intr i)) \<union> set (concat rounds)"
  have "user_run (\<lambda>e. e = Exited 0) False (dependable pf W ?ps) (user_main pf pc intr rounds) (\<lambda>_ _. False)"
    by (rule user_host.main_run [OF dependable_host assms(2)]) (use assms(5,6) in auto)
  from user_runD [OF this assms(1,4,3)] show ?thesis by (cases r) auto
qed

end
