(* ===== verification/Sample_System.thy ===== *)
theory Sample_System
  imports Sample_Kernel Boot_Correct User_Program
begin

text \<open>
  Concrete states of the whole kernel: a platform whose firmware accepts every call and records
  its argument, a hart, a kernel whose heap has been claimed, and the hand-over of the boot code.
\<close>

section \<open>Platform and hart\<close>

text \<open>The world is the time and the arguments the firmware was given.\<close>

type_synonym sample_world = "u64 \<times> u64 list"

definition sample_platform :: "sample_world platform" where
  "sample_platform =
     \<lparr>pf_ecall = (\<lambda>_ _ a w. (0, (fst w, snd w @ [a]))), pf_rdtime = fst, pf_time_readable = (\<lambda>_. True),
      pf_probe_read = 0x80200100, pf_probe_unavailable = 0x80200110\<rparr>"

definition sample_hart :: "sample_world hart" where
  "sample_hart =
     \<lparr>ht_sstatus = 2, ht_sie = 0, ht_time_state = AVAILABLE, ht_interval = 100000, ht_ticks = 0xFFFFFFFFFFFFFFFF,
      ht_user_ticks = 0, ht_world = (1000, [])\<rparr>"

definition sample_fresh_hart :: "sample_world hart" where
  "sample_fresh_hart = sample_hart\<lparr>ht_interval := 0\<rparr>"

text \<open>Time passes, then the timer fires in supervisor mode.\<close>

definition sample_frame :: "kusize \<Rightarrow> kusize \<Rightarrow> trap_frame" where
  "sample_frame status cause =
     \<lparr>tf_registers = replicate 32 0, tf_epc = 0x10000, tf_status = status, tf_cause = cause, tf_value = 0\<rparr>"

definition sample_event :: "sample_world event" where
  "sample_event = ((\<lambda>(t, out). (t + 100000, out)), sample_frame SUPERVISOR_ORIGIN TIMER_INTERRUPT)"

lemma sample_accepts: "firmware_accepts sample_platform d w"
  by (simp add: firmware_accepts_def sample_platform_def)

lemma sample_served:
  assumes "ht_time_state h = AVAILABLE" "ht_interval h = 100000" "unat (fst (ht_world h)) + 100000 < 2 ^ 64"
  shows "handle_interrupt sample_platform h =
    (Ok (), h\<lparr>ht_world := (fst (ht_world h), snd (ht_world h) @ [fst (ht_world h) + 100000]), ht_ticks := ht_ticks h + 1\<rparr>)"
proof -
  have d: "next_deadline sample_platform 100000 h = Ok (fst (ht_world h) + 100000)"
    using assms by (simp add: next_deadline_cases sample_platform_def)
  show ?thesis
    by (cases rule: handle_interrupt_cases [where pf = sample_platform and h = h])
      (use assms d sample_accepts in \<open>auto simp: world_after_def sample_platform_def\<close>)
qed

lemma sample_timely:
  "timely sample_platform sample_hart sample_event"
  "timely sample_platform (after_event sample_platform sample_event sample_hart) sample_event"
proof -
  let ?h1 = "sample_hart\<lparr>ht_world := (101000, [])\<rparr>"
  have e: "fst sample_event (ht_world sample_hart) = (101000, [])" by (simp add: sample_event_def sample_hart_def)
  have s1: "handle_interrupt sample_platform ?h1 = (Ok (), ?h1\<lparr>ht_world := (101000, [201000]), ht_ticks := ht_ticks ?h1 + 1\<rparr>)"
    using sample_served [of ?h1] by (simp add: sample_hart_def)
  show t: "timely sample_platform sample_hart sample_event"
    using s1 by (simp add: timely_def e) (simp add: sample_event_def sample_frame_def)
  have a: "after_event sample_platform sample_event sample_hart =
      ?h1\<lparr>ht_world := (101000, [201000]), ht_ticks := ht_ticks ?h1 + 1\<rparr>"
    using trap_timer [OF _ s1, of "snd sample_event"] unfolding after_event_def e
    by (simp add: sample_event_def sample_frame_def from_user_def SUPERVISOR_ORIGIN_def)
  let ?h2 = "sample_hart\<lparr>ht_world := (201000, [201000]), ht_ticks := 0\<rparr>"
  have "(after_event sample_platform sample_event sample_hart)\<lparr>ht_world := fst sample_event (ht_world (after_event sample_platform sample_event sample_hart))\<rparr> = ?h2"
    unfolding a by (simp add: sample_event_def sample_hart_def)
  moreover have "handle_interrupt sample_platform ?h2 = (Ok (), ?h2\<lparr>ht_world := (201000, [201000, 301000]), ht_ticks := 0 + 1\<rparr>)"
    using sample_served [of ?h2] by (simp add: sample_hart_def)
  ultimately show "timely sample_platform (after_event sample_platform sample_event sample_hart) sample_event"
    by (simp add: timely_def) (simp add: sample_event_def sample_frame_def)
qed

definition sample_cpu :: cpu where
  "sample_cpu = \<lparr>cp_x = (replicate 32 7)[0 := 0, 2 := 0x3FFFFFF0], cp_sscratch = 0xFFFFFFE03FFFF000, cp_sepc = 0x10000,
     cp_sstatus = 0x200000022, cp_scause = USER_ECALL, cp_stval = 0, cp_stvec = 0xFFFFFFFF80000000\<rparr>"

lemma sample_cpu_ok: "cpu_ok sample_cpu"
  by (simp add: cpu_ok_def sample_cpu_def SUPERVISOR_ORIGIN_def)

section \<open>A kernel with a heap\<close>

definition sample_heap_kernel :: "sample_world kernel" where
  "sample_heap_kernel =
     (case claim_heap allocate (sample_paging, sample_machine, sample_allocator) of (r, kp, m, ba) \<Rightarrow>
        \<lparr>kn_hart = sample_hart, kn_machine = m, kn_busy = False,
         kn_memory = (case r of Ok h \<Rightarrow> Some \<lparr>ms_heap = h, ms_paging = kp, ms_frames = ba\<rparr> | _ \<Rightarrow> None), kn_claimed = False\<rparr>)"

definition sample_memory_state :: memory_state where
  "sample_memory_state = the (kn_memory sample_heap_kernel)"

lemma sample_heap_kernel_ok:
  "allocator_ok sample_heap_kernel" "kn_memory sample_heap_kernel = Some sample_memory_state" "\<not> kn_claimed sample_heap_kernel"
  "hp_cursor (ms_heap sample_memory_state) = VirtAddr HEAP_END" "hp_mapped_start (ms_heap sample_memory_state) \<noteq> VirtAddr HEAP_END"
proof -
  obtain h kp m ba where c: "claim_heap allocate (sample_paging, sample_machine, sample_allocator) = (Ok h, kp, m, ba)"
    "heap_state kp h (m, ba)" "hp_cursor h = VirtAddr HEAP_END" "hp_mapped_start h \<noteq> VirtAddr HEAP_END" by (rule sample_claim)
  show "allocator_ok sample_heap_kernel" "kn_memory sample_heap_kernel = Some sample_memory_state" "\<not> kn_claimed sample_heap_kernel"
    "hp_cursor (ms_heap sample_memory_state) = VirtAddr HEAP_END" "hp_mapped_start (ms_heap sample_memory_state) \<noteq> VirtAddr HEAP_END"
    using c by (simp_all add: sample_heap_kernel_def sample_memory_state_def allocator_ok_def)
qed

definition sample_layout :: layout where "sample_layout = \<lparr>ly_size = 16, ly_align = 16\<rparr>"

lemma sample_layout_ok: "alloc_layout_ok sample_layout"
  by (simp add: alloc_layout_ok_def is_power_of_two_def sample_layout_def exI [of _ "4 :: nat"])

text \<open>The first block is at the end of the page that is already backed.\<close>

lemma sample_block:
  obtains k where "global_alloc sample_layout sample_heap_kernel = (Ok 0xFFFFFFE03FFFFFF0, k)"
proof -
  let ?h = "ms_heap sample_memory_state" and ?st = sample_memory_state and ?k = sample_heap_kernel
  note K = sample_heap_kernel_ok
  have hs: "heap_state (ms_paging ?st) ?h (kn_machine ?k, ms_frames ?st)" using K(1,2) by (simp add: allocator_ok_def)
  have rng: "hp_range ?h = HEAP_RANGE" "heap_ok ?h" using hs by (simp_all add: heap_state_def)
  have lim: "heap_lo ?h = 0xFFFFFFE000000000" "heap_hi ?h = 0xFFFFFFE040000000" using heap_limits [OF rng(1)] by (simp_all add: heap_bounds)
  have cur: "va (hp_cursor ?h) = 0xFFFFFFE040000000" using K(4) by (simp add: heap_bounds)
  have "va (hp_mapped_start ?h) \<noteq> 0xFFFFFFE040000000"
    using K(5) by (cases "hp_mapped_start ?h") (auto simp: heap_bounds word_unat_eq_iff)
  moreover have al: "page_aligned (va (hp_mapped_start ?h))" "va (hp_mapped_start ?h) \<le> 0xFFFFFFE040000000"
    using rng(2) lim cur by (simp_all add: heap_ok_def)
  ultimately have low: "va (hp_mapped_start ?h) + 4096 \<le> 0xFFFFFFE040000000"
    using aligned_gap [OF al(1), of "0xFFFFFFE040000000"] by (simp add: page_aligned_def)
  have at: "block_at ?h sample_layout = 0xFFFFFFE03FFFFFF0" by (simp add: block_at_def cur sample_layout_def)
  have addr: "block_address ?h sample_layout = Some 0xFFFFFFE03FFFFFF0"
    unfolding block_address_eq [OF sample_layout_ok] fits_def at lim cur by (simp add: sample_layout_def)
  have stay: "back_to f (VirtAddr 0xFFFFFFE03FFFF000) (?h, b) = (Ok (), ?h, b)" for f :: "(machine \<times> boot_frame_allocator, PagingError) backing" and b
    using low by (simp add: back_to.simps word_less_nat_alt)
  have m: "(0xFFFFFFE03FFFFFF0 :: kusize) AND NOT (FRAME_SIZE - 1) = 0xFFFFFFE03FFFF000" by (simp add: FRAME_SIZE_def)
  have sz: "ly_size sample_layout \<noteq> 0" by (simp add: sample_layout_def)
  have "heap_allocate sample_layout (backing_map_page (ms_paging ?st) allocate) (?h, kn_machine ?k, ms_frames ?st) =
      (Ok 0xFFFFFFE03FFFFFF0, ?h\<lparr>hp_cursor := VirtAddr 0xFFFFFFE03FFFFFF0\<rparr>, kn_machine ?k, ms_frames ?st)"
    unfolding heap_allocate_def using addr stay sz by (simp add: bind_op_def non_null_def m Let_def)
  then show thesis using K sample_layout_ok that
    by (cases rule: global_alloc_cases [OF K(1) sample_layout_ok]) auto
qed

lemma sample_serves: "\<exists>k. kernel_serves sample_heap_kernel [(sample_layout, 0xFFFFFFE03FFFFFF0)] k"
proof -
  obtain k where "global_alloc sample_layout sample_heap_kernel = (Ok 0xFFFFFFE03FFFFFF0, k)" by (rule sample_block)
  from serves_block [OF sample_layout_ok this _ serves_none] show ?thesis by auto
qed

section \<open>A process image\<close>

definition sample_image :: bytes where
  "sample_image = image_magic @ [0, 0, 1, 0, 0, 0, 0, 0] @ [0, 0, 1, 0, 0, 0, 0, 0] @ [4, 0, 0, 0, 0, 0, 0, 0] @ [0x73, 0, 0, 0]"

lemma sample_image_parses:
  "image_parse sample_image IMAGE_LIMIT = Ok \<lparr>im_base = VirtAddr 0x10000, im_entry = VirtAddr 0x10000, im_bytes = [0x73, 0, 0, 0]\<rparr>"
  by code_simp

section \<open>The hand-over of the boot code\<close>

definition sample_linker :: linker where
  "sample_linker =
     \<lparr>lk_physical_start = 0x90000000, lk_virtual_start = 0xFFFFFFFF80000000, lk_virtual_end = 0xFFFFFFFF80010000,
      lk_text_start = 0xFFFFFFFF80001000, lk_text_end = 0xFFFFFFFF80004000,
      lk_rodata_start = 0xFFFFFFFF80004000, lk_rodata_end = 0xFFFFFFFF80006000,
      lk_data_start = 0xFFFFFFFF80006000, lk_data_end = 0xFFFFFFFF80006000,
      lk_bss_start = 0xFFFFFFFF80006000, lk_bss_end = 0xFFFFFFFF80008000,
      lk_stack_start = 0xFFFFFFFF80008000, lk_stack_end = 0xFFFFFFFF80010000, lk_trap_entry = 0xFFFFFFFF80001000\<rparr>"

definition sample_system :: "sample_world system" where
  "sample_system =
     \<lparr>sy_kernel = \<lparr>kn_hart = sample_fresh_hart, kn_machine = sample_boot_machine, kn_busy = False, kn_memory = None, kn_claimed = False\<rparr>,
      sy_cpu = sample_cpu, sy_bootstrap_claimed = False, sy_frames_claimed = False\<rparr>"

lemma sample_booted: "booted sample_linker sample_system"
proof -
  have root: "active_root_table sample_boot_machine = Ok (PhysAddr 0x90000000)"
    by (simp add: active_root_table_def sample_boot_machine_def SATP_MODE_MASK_def SATP_MODE_SV39_def SATP_PPN_MASK_def Let_def)
  have n: "boot_root sample_boot_paging = 0x90000" by (simp add: boot_root_def sample_boot_paging_def)
  have "in_image sample_linker 0x90000" by (auto simp: in_image_def frame_addrs_def sample_linker_def)
  then show ?thesis using root n sample_boot_ok
    by (simp add: booted_def no_memory_def sample_system_def linker_ok_def sample_boot_paging_def Let_def)
      (simp add: sample_linker_def)
qed

section \<open>The boot code\<close>

definition sample_boot_layout :: boot_layout where
  "sample_boot_layout =
     \<lparr>bl_linker = sample_linker\<lparr>lk_physical_start := 0x80000000\<rparr>, bl_start = 0x80000000, bl_page_table = 0x80001000,
      bl_literal = 0x80000100, bl_high_start = 0xFFFFFFFF80001000, bl_global_pointer = 0xFFFFFFFF80006800,
      bl_main = 0xFFFFFFFF80001100\<rparr>"

definition sample_boot_state :: boot_state where
  "sample_boot_state =
     \<lparr>bt_regs = (\<lambda>_. 0)(A1 := 0x90000000),
      bt_machine = \<lparr>mc_mem = store64 (\<lambda>_. 0) 0x80000100 0xFFFFFFFF80001000, mc_satp = 0\<rparr>\<rparr>"

lemma sample_boot_starts:
  "boot_layout_ok sample_boot_layout" "mc_satp (bt_machine sample_boot_state) = 0"
  "load64 (mc_mem (bt_machine sample_boot_state)) (unat (bl_literal sample_boot_layout)) = bl_high_start sample_boot_layout"
  by (simp_all add: boot_layout_ok_def linker_ok_def sample_boot_layout_def sample_linker_def sample_boot_state_def
      KERNEL_HIGH_BASE_def Let_def)

section \<open>A running process\<close>

lemma sample_user_tick:
  "traps sample_platform sample_hart [UserTimer]
     (sample_hart\<lparr>ht_world := (1000, [101000]), ht_ticks := 0, ht_user_ticks := 1\<rparr>)"
proof -
  let ?f = "sample_frame 0 TIMER_INTERRUPT" and ?h = "sample_hart\<lparr>ht_world := (1000, [101000]), ht_ticks := 0\<rparr>"
  have "handle_interrupt sample_platform sample_hart = (Ok (), ?h)"
    using sample_served [of sample_hart] by (simp add: sample_hart_def)
  from trap_timer [OF _ this, of ?f]
  have "trap_handler sample_platform ?f sample_hart = (TrapReturn ?f, ?h\<lparr>ht_user_ticks := 1\<rparr>)"
    by (simp add: sample_frame_def from_user_def) (simp add: sample_hart_def)
  from traps_return [OF this traps_none] show ?thesis
    by (simp add: trap_kind_of_def sample_frame_def from_user_def)
qed

text \<open>Time passes in steps, and in the end stands still.\<close>

definition sample_passes :: "sample_world \<Rightarrow> sample_world" where
  "sample_passes = (\<lambda>(t, out). (if t < 1000000 then t + 1000 else t, out))"

lemma sample_dependable: "dependable sample_platform (\<lambda>w. unat (fst w) \<le> 1001000) {sample_passes} sample_hart"
proof -
  have "unat (t + 1000) \<le> 1001000" if "t < 1000000" for t :: u64
    using that by (simp add: word_less_nat_alt unat_word_ariths)
  then show ?thesis
    by (auto simp: dependable_def sample_platform_def sample_hart_def sample_passes_def)
qed

end
