(* ===== verification/Spec2Isabelle.thy ===== *)
theory Spec2Isabelle
  imports Sample_System
begin

text \<open>
  A verification of the kernel under \<open>kernel/\<close> and of the devicetree parser under \<open>fdt/\<close>.

  \<^bold>\<open>The program.\<close>  A RISC-V kernel is entered by its boot assembly with the address of a flattened
  devicetree blob.  \<open>main\<close> maps the blob, parses it with the crate \<open>fdt\<close>, claims the frame
  allocator over the memory the tree describes, builds and activates the kernel's own page tables, claims the kernel
  heap, installs the global allocator, loads the one embedded process, arms the timer, waits for
  two interrupts and enters user mode.  From then on the kernel is its trap handler: timer
  interrupts, system calls and faults.

  \<^bold>\<open>Conventions.\<close>  Fallible code returns \<open>('a, 'e) res\<close> with the constructors \<open>Ok\<close>,
  \<open>Err\<close>, \<open>Panic\<close> and \<open>Diverge\<close>, so that every panic is a value; stateful code is an
  \<open>('s, 'a, 'e) op\<close>, a function from a state to a result and the state after it, errors included.
  The predicate \<open>returns\<close> excludes panics and divergence.  Machine integers of the kernel are words;
  \<open>usize\<close> of the parser is \<open>nat\<close> with the 64-bit limit \<open>USIZE_LIMIT\<close> written out.  Loops are
  folds over lists, functions with a termination proof, or \<open>run\<close> of \<open>Prelude\<close>: a step function
  with a measure, which diverges visibly when a step does not decrease it, so that \<open>returns\<close> of
  a loop includes its termination.  The loops that may truly not end are the waits for the
  timer, in the kernel and in the embedded program, which consume lists of delivered interrupts, and
  the interpreter of the boot code, a partial function whose termination C22 includes.

  \<^bold>\<open>Theories.\<close>
  \<^item> \<open>Prelude\<close>, \<open>State_Result\<close>, \<open>Word_Bits\<close>: results, operations, loops and iterators, checked
    arithmetic, bit fields.  The locale of iterators is interpreted for every iterator of the parser.
  \<^item> \<open>Reader\<close>, \<open>Header\<close>, \<open>Strings\<close>, \<open>Reservation\<close>, \<open>Node_Name\<close>: \<open>reader.rs\<close>,
    \<open>header.rs\<close>, \<open>strings.rs\<close>, \<open>reservation.rs\<close>, \<open>structure/name.rs\<close> (C9, C17, C18, C21).
  \<^item> \<open>Items\<close>, \<open>Grammar\<close>, \<open>Structure\<close>, \<open>Structure_Correct\<close>: \<open>structure.rs\<close>, with an abstract
    grammar of trees that the one-pass validation refines (C10 to C12).
  \<^item> \<open>View\<close>, \<open>View_Correct\<close>: \<open>structure/view.rs\<close>, nodes and the three iterators over a
    validated block, against the abstract tree (C13 to C15).
  \<^item> \<open>Addressing\<close>, \<open>Reg_Range\<close>, \<open>Memory_Nodes\<close>, \<open>Reserved_Memory\<close>, \<open>Semantic\<close>:
    \<open>structure/semantic.rs\<close> and its modules (C7, C8, C16, C20).
  \<^item> \<open>Fdt\<close>: \<open>fdt.rs\<close>, the constructor and the accessors (C1, C2).
  \<^item> \<open>Address\<close>, \<open>Frame\<close>, \<open>Boot_Allocator\<close>, \<open>Boot_Allocator_Correct\<close>: \<open>memory/address.rs\<close>,
    the ranges of \<open>memory.rs\<close>, \<open>memory/frame.rs\<close> and \<open>memory/frame/boot_allocator.rs\<close>
    (C3 to C6).  The allocator implements the locale of frame allocators, which paging is proved over.
  \<^item> \<open>Phys_Mem\<close>, \<open>Sv39\<close>, \<open>Page_Tree\<close>: memory as a function from byte addresses to bytes, table entries, the
    walk of the translation hardware, and trees of tables.
  \<^item> \<open>Paging\<close>, \<open>Paging_Access\<close>, \<open>Page_Map\<close>, \<open>Page_Range\<close>, \<open>Kernel_Paging\<close>,
    \<open>Kernel_Space\<close>, \<open>Fdt_Window\<close>, \<open>Kernel_Switch\<close>: \<open>arch/riscv64/paging.rs\<close>,
    \<open>paging/access.rs\<close> and \<open>paging/kernel.rs\<close>.  Every access of the code to a table goes through the
    frame windows and the active translation, so the proofs include that the windows work (C25 to C28).
  \<^item> \<open>Heap\<close>, \<open>Memory_System\<close>, \<open>Global_Allocator\<close>: \<open>memory/heap.rs\<close> over a locale of page
    backing, its interpretation on the kernel's paging, and \<open>memory/allocator.rs\<close> (C29 to C31).
  \<^item> \<open>Sbi\<close>, \<open>Hart\<close>, \<open>Trap\<close>, \<open>Logging\<close>: \<open>firmware/sbi.rs\<close>, \<open>console/sbi.rs\<close>,
    \<open>arch/riscv64/interrupt.rs\<close>, \<open>time.rs\<close>, \<open>timer.rs\<close>, \<open>trap.rs\<close>,
    \<open>process/syscall.rs\<close> and \<open>logging.rs\<close> (C34 to C38, C40).  The firmware and the time counter are the
    parameter \<open>'w platform\<close>.
  \<^item> \<open>Image\<close>, \<open>Image_Load\<close>, \<open>Process\<close>: \<open>process/image.rs\<close> and \<open>process.rs\<close> (C32, C33).
  \<^item> \<open>Startup\<close>, \<open>Startup_Correct\<close>: \<open>main.rs\<close> and the linker ranges of \<open>memory.rs\<close>; one
    contract per stage and their composition from the state at entry to user mode (C24, C39).
  \<^item> \<open>Boot\<close>, \<open>Boot_Correct\<close>: \<open>arch/riscv64/boot.rs\<close>, both entry points as lists of instructions
    with an interpreter; they end in the state that \<open>main\<close> is proved from (C22).
  \<^item> \<open>User_Program\<close>: histories of traps of a process, and the embedded program
    \<open>user/init/src/main.rs\<close>, whose system calls and interrupts go through the modelled handler.  What it
    relies on is the locale \<open>user_host\<close>, which any platform satisfies (C19, C23).
  \<^item> \<open>Sample_Blob\<close>, \<open>Sample_Boot\<close>, \<open>Sample_Kernel\<close>, \<open>Sample_System\<close>: concrete states, which
    show that the hypotheses of the properties can hold.

  \<^bold>\<open>Assumptions.\<close>  The blob's bytes do not change while they are used.  The linker places the image as its
  script asserts, the root table of the boot code included (\<open>boot_layout_ok\<close>); the state at the entry
  of \<open>main\<close> is then proved (C22).  One hart runs.  Interrupts of the
  embedded program are delivered before its system calls, where their effect is first visible to it.

  \<^bold>\<open>Not modelled.\<close>  \<open>Debug\<close> formatting and the selection of log records at compile time, and
  the log records inside other operations, which by C40 change the outside world alone;
  cached translations: stores to the tables take effect at once, and the flushes have no
  effect of their own; the depth of the native stack in the recursive validation; targets whose \<open>usize\<close> is not
  64 bits; test code, module roots and build scripts.
\<close>

section \<open>Accepting a devicetree blob\<close>

text \<open>
  C1.  \<open>Fdt::from_ptr\<close> accepts exactly the well-formed blobs: the pointer and the header pass
  their checks, the structure and strings blocks encode a tree that satisfies the semantic rules,
  and the reservation block begins with a terminated list of representable, disjoint entries.  The
  value it returns holds exactly those blocks.
\<close>

theorem from_ptr_accepts_exactly:
  "fdt_from_ptr mem ptr = Ok f \<longleftrightarrow>
     (\<exists>h t xs. placed mem ptr h \<and> blob_ok h (read_mem mem ptr (hd_total_size h)) t xs \<and>
        f = fdt_of h (read_mem mem ptr (hd_total_size h)) xs)"
  by (rule fdt_from_ptr_eq_Ok)

text \<open>
  C2.  Whatever bytes are in memory and whatever the pointer, \<open>Fdt::from_ptr\<close> returns a value or
  an error: no slice index, \<open>expect\<close>, \<open>unreachable!\<close> or subtraction on its way panics, and
  every loop ends.
\<close>

theorem from_ptr_never_panics: "returns (fdt_from_ptr mem ptr)"
  by (rule fdt_from_ptr_returns)

section \<open>The boot frame allocator\<close>

text \<open>
  C3.  Soundness of the boot allocator.  After a successful claim over an accepted blob, any
  sequence of successful allocations gives pairwise different, aligned frames, each of which lies
  within one memory range of the devicetree and meets neither the kernel, nor the blob, nor a
  memory reservation, nor a static reserved-memory range.
\<close>

theorem boot_frames_sound:
  assumes "fdt_from_ptr mem ptr = Ok f" "phys_range_ok k" "phys_range_ok d"
    and "boot_claim c f k d = (Ok ba, c')" "allocates allocate ba fs ba'"
  shows "\<exists>t xs. fdt_rep f t xs \<and> distinct (map frame_no fs) \<and>
    (\<forall>fr\<in>set fs. frame_ok fr \<and>
       (\<exists>r\<in>set (fdt_memory_list f). frame_addrs (frame_no fr) \<subseteq> mem_region r) \<and>
       frame_addrs (frame_no fr) \<inter> addrs k = {} \<and> frame_addrs (frame_no fr) \<inter> addrs d = {} \<and>
       (\<forall>x\<in>set xs. frame_addrs (frame_no fr) \<inter> region x = {}) \<and>
       (\<forall>(a, s)\<in>set (dt_reserved t). frame_addrs (frame_no fr) \<inter> {a ..< a + s} = {}))"
proof -
  obtain t xs where state: "fdt_rep f t xs" "ba_inv ba" "ba_kernel ba = k" "ba_dtb ba = d" "ba_fdt ba = f"
      and free: "\<And>n. n \<in> set (free_frames ba) \<longleftrightarrow>
        (\<exists>r\<in>set (fdt_memory_list f). frame_addrs n \<subseteq> mem_region r) \<and> \<not> reserved_frame (ba_reserved ba) n"
    by (rule claimed_state [OF assms(1-4)]) blast
  note reserved = reserved_frame_fdt [of ba, unfolded state(3-5), OF state(1)]
  note given = boot.allocates_prefix [OF assms(5) state(2)] boot.allocates_distinct [OF assms(5) state(2)]
  have "frame_no fr \<in> set (free_frames ba)" if "fr \<in> set fs" for fr using given that by simp
  then have "\<forall>fr\<in>set fs. (\<exists>r\<in>set (fdt_memory_list f). frame_addrs (frame_no fr) \<subseteq> mem_region r) \<and>
      \<not> reserved_frame (ba_reserved ba) (frame_no fr)" unfolding free by blast
  with given state(1) show ?thesis unfolding reserved by blast
qed

theorem boot_frames_sound_witness:
  "\<exists>f ba c' ba' t xs.
     fdt_from_ptr sample_memory sample_address = Ok f \<and>
     boot_claim False f sample_kernel sample_dtb = (Ok ba, c') \<and>
     allocates allocate ba [PhysFrame (PhysAddr 0x80003000)] ba' \<and> fdt_rep f t xs \<and>
     (\<forall>x\<in>set xs. frame_addrs (frame_no (PhysFrame (PhysAddr 0x80003000))) \<inter> region x = {})"
proof -
  obtain f ba c' ba' where run: "fdt_from_ptr sample_memory sample_address = Ok f"
      "boot_claim False f sample_kernel sample_dtb = (Ok ba, c')"
      "allocates allocate ba [PhysFrame (PhysAddr 0x80003000)] ba'"
    by (rule sample_run)
  from boot_frames_sound [OF run(1) sample_ranges_ok run(2,3)] run show ?thesis by fastforce
qed

text \<open>
  C4.  Completeness: when the allocator answers that no frame is left, the frames given out since
  the claim are all the whole frames of the devicetree's memory that meet no reservation.
\<close>

theorem boot_frames_complete:
  assumes "fdt_from_ptr mem ptr = Ok f" "phys_range_ok k" "phys_range_ok d"
    and "boot_claim c f k d = (Ok ba, c')" "allocates allocate ba fs ba'" "allocate ba' = Ok (None, ba'')"
  shows "set (map frame_no fs) =
    {n. (\<exists>r\<in>set (fdt_memory_list f). frame_addrs n \<subseteq> mem_region r) \<and> \<not> reserved_frame (ba_reserved ba) n}"
proof -
  obtain t xs where inv: "ba_inv ba"
      and free: "\<And>n. n \<in> set (free_frames ba) \<longleftrightarrow>
        (\<exists>r\<in>set (fdt_memory_list f). frame_addrs n \<subseteq> mem_region r) \<and> \<not> reserved_frame (ba_reserved ba) n"
    by (rule claimed_state [OF assms(1-4)]) blast
  have "ba_inv ba'" "free_frames ba = map frame_no fs @ free_frames ba'"
    using boot.allocates_prefix [OF assms(5) inv] by auto
  moreover from this have "free_frames ba' = []" using allocate_eq [of ba'] assms(6) by auto
  ultimately have "set (map frame_no fs) = set (free_frames ba)" by simp
  with free show ?thesis by blast
qed

theorem boot_frames_complete_witness:
  "\<exists>f ba c'. fdt_from_ptr sample_memory sample_address = Ok f \<and>
     boot_claim False f sample_big_kernel sample_dtb = (Ok ba, c') \<and>
     {n. (\<exists>r\<in>set (fdt_memory_list f). frame_addrs n \<subseteq> mem_region r) \<and> \<not> reserved_frame (ba_reserved ba) n} = {}"
proof -
  obtain f ba c' ba' where run: "fdt_from_ptr sample_memory sample_address = Ok f"
      "boot_claim False f sample_big_kernel sample_dtb = (Ok ba, c')" "allocate ba = Ok (None, ba')"
    by (rule sample_exhausted_run)
  from boot_frames_complete [OF run(1) sample_big_kernel_ok sample_ranges_ok(2) run(2) allocates_none run(3)] run
  show ?thesis by auto
qed

text \<open>
  C5.  Allocation never panics and always ends: in every state reached from a claim it gives a frame
  or says that none is left.
\<close>

theorem boot_allocate_total:
  assumes "fdt_from_ptr mem ptr = Ok f" "phys_range_ok k" "phys_range_ok d"
    and "boot_claim c f k d = (Ok ba, c')" "allocates allocate ba fs ba'"
  shows "\<exists>r ba''. allocate ba' = Ok (r, ba'')"
proof -
  obtain t xs where "ba_inv ba" by (rule claimed_state [OF assms(1-4)])
  then have "ba_inv ba'" using boot.allocates_prefix [OF assms(5)] by blast
  then show ?thesis using boot.allocate_never_panics by blast
qed

theorem boot_allocate_total_witness:
  "\<exists>f ba c' r ba'. fdt_from_ptr sample_memory sample_address = Ok f \<and>
     boot_claim False f sample_kernel sample_dtb = (Ok ba, c') \<and> allocate ba = Ok (r, ba')"
proof -
  obtain f ba c' ba' where run: "fdt_from_ptr sample_memory sample_address = Ok f"
      "boot_claim False f sample_kernel sample_dtb = (Ok ba, c')"
      "allocates allocate ba [PhysFrame (PhysAddr 0x80003000)] ba'"
    by (rule sample_run)
  from boot_allocate_total [OF run(1) sample_ranges_ok run(2) allocates_none] run show ?thesis by fastforce
qed

text \<open>
  C6.  A claim succeeds exactly when no allocator was claimed before and the memory ranges of the
  devicetree are pairwise disjoint; it never panics, and the flag is set exactly from the first
  success on.
\<close>

theorem boot_claim_exactly:
  assumes "fdt_from_ptr mem ptr = Ok f"
  shows "((\<exists>ba. fst (boot_claim claimed f k d) = Ok ba) \<longleftrightarrow> \<not> claimed \<and> memory_disjoint (fdt_memory_list f)) \<and>
    (snd (boot_claim claimed f k d) \<longleftrightarrow> claimed \<or> (\<exists>ba. fst (boot_claim claimed f k d) = Ok ba)) \<and>
    returns (fst (boot_claim claimed f k d))"
proof -
  obtain t xs where rep: "fdt_rep f t xs" using fdt_from_ptr_rep [OF assms] by blast
  obtain it where claim: "boot_claim claimed f k d =
      (case first_overlap (fdt_memory_list f) of
         Some (a, b) \<Rightarrow> (Err (OverlappingMemoryRanges a b), claimed)
       | None \<Rightarrow> if claimed then (Err AlreadyClaimed, True) else (Ok (claimed_allocator f k d it), True))"
    using boot_claim_eq [OF rep] by blast
  note none = first_overlap_None [OF fdt_memory_list_eq(3) [OF rep]]
  show ?thesis
    unfolding claim none [symmetric] by (auto split: option.split)
qed

theorem boot_claim_exactly_witness:
  "\<exists>f. fdt_from_ptr sample_memory sample_address = Ok f \<and>
     \<not> (\<exists>ba. fst (boot_claim True f sample_kernel sample_dtb) = Ok ba)"
proof -
  obtain f where "fdt_from_ptr sample_memory sample_address = Ok f" by (rule sample_fdt)
  then show ?thesis using boot_claim_exactly [of sample_memory sample_address f True] by blast
qed

section \<open>What an accepted blob describes\<close>

text \<open>
  C7.  On an accepted blob \<open>Fdt::memory_ranges\<close> never panics and its iterator produces exactly the
  entries of the \<open>reg\<close> properties of the root's memory nodes, in order; every one is non-empty and
  has a representable end.
\<close>

theorem memory_ranges_exactly:
  assumes "fdt_from_ptr mem ptr = Ok f"
  shows "\<exists>t xs it. fdt_rep f t xs \<and> (fdt_memory_ranges f :: (_, 'e) res) = Ok it \<and>
    yields (memory_ranges_next :: (_, _, 'e) iter_next) it (map memory_range_of (dt_memory t)) \<and>
    (\<forall>(a, s)\<in>set (dt_memory t). 0 < s \<and> a + s < 2 ^ 64)"
proof -
  obtain t xs where rep: "fdt_rep f t xs" using fdt_from_ptr_rep [OF assms] by blast
  then have "\<forall>r\<in>set (dt_memory t). range_ok r"
    using memory_ok_ranges by (auto simp: fdt_rep_def semantics_ok_def)
  with fdt_memory_ranges_yields [OF rep] rep show ?thesis unfolding range_ok_def by blast
qed

theorem memory_ranges_exactly_witness:
  "\<exists>f t xs it. fdt_from_ptr sample_memory sample_address = Ok f \<and> fdt_rep f t xs \<and>
     (fdt_memory_ranges f :: (_, infallible) res) = Ok it \<and>
     yields (memory_ranges_next :: (_, _, infallible) iter_next) it (map memory_range_of (dt_memory t))"
proof -
  obtain f where "fdt_from_ptr sample_memory sample_address = Ok f" by (rule sample_fdt)
  then show ?thesis using memory_ranges_exactly [of sample_memory sample_address f, where ?'e = infallible] by blast
qed

text \<open>
  C8.  The same for \<open>Fdt::reserved_memory_ranges\<close> and the entries of the \<open>reg\<close> properties of
  the children of \<open>/reserved-memory\<close>.
\<close>

theorem reserved_ranges_exactly:
  assumes "fdt_from_ptr mem ptr = Ok f"
  shows "\<exists>t xs it. fdt_rep f t xs \<and> (fdt_reserved_memory_ranges f :: (_, 'e) res) = Ok it \<and>
    yields (reserved_memory_ranges_next :: (_, _, 'e) iter_next) it (map reserved_memory_range_of (dt_reserved t)) \<and>
    (\<forall>(a, s)\<in>set (dt_reserved t). 0 < s \<and> a + s < 2 ^ 64)"
proof -
  obtain t xs where rep: "fdt_rep f t xs" using fdt_from_ptr_rep [OF assms] by blast
  then have "\<forall>r\<in>set (dt_reserved t). range_ok r"
    using reserved_ok_ranges by (auto simp: fdt_rep_def semantics_ok_def)
  with fdt_reserved_memory_ranges_yields [OF rep] rep show ?thesis unfolding range_ok_def by blast
qed

theorem reserved_ranges_exactly_witness:
  "\<exists>f t xs it. fdt_from_ptr sample_memory sample_address = Ok f \<and> fdt_rep f t xs \<and>
     (fdt_reserved_memory_ranges f :: (_, infallible) res) = Ok it \<and>
     yields (reserved_memory_ranges_next :: (_, _, infallible) iter_next) it (map reserved_memory_range_of (dt_reserved t))"
proof -
  obtain f where "fdt_from_ptr sample_memory sample_address = Ok f" by (rule sample_fdt)
  then show ?thesis using reserved_ranges_exactly [of sample_memory sample_address f, where ?'e = infallible] by blast
qed

text \<open>
  C9.  Acceptance of the memory reservation block, exactly: \<open>Reservations::new\<close> accepts a block when
  it begins with the encoding of a list of non-zero entries with representable ends and disjoint
  regions, followed by the all-zero terminator; it keeps those bytes, never panics, and the
  iterator over them produces that list again.
\<close>

theorem reservations_accept_exactly:
  assumes "length bs < USIZE_LIMIT"
  shows "(reservations_new bs = Ok rs \<longleftrightarrow>
      (\<exists>xs rest. bs = block_bytes xs @ rest \<and> rsv_bytes rs = block_bytes xs \<and>
         (\<forall>x\<in>set xs. entry_ok x) \<and> regions_disjoint xs \<and>
         yields (memory_reservations_next :: (_, _, infallible) iter_next) (reservations_iter rs) xs)) \<and>
    returns (reservations_new bs)"
proof -
  have "yields (memory_reservations_next :: (_, _, infallible) iter_next) (reservations_iter rs) xs"
    if "\<forall>x\<in>set xs. entry_ok x" "rsv_bytes rs = block_bytes xs" for xs
    using that mrs_yields [of xs "[]", where ?'a = infallible] by (auto simp: reservations_iter_def entry_ok_def)
  with reservations_new_eq_Ok [OF assms, of rs] reservations_new_returns [OF assms] show ?thesis by blast
qed

theorem reservations_accept_exactly_witness:
  "reservations_new sample_reservations = Ok \<lparr>rsv_bytes = sample_reservations\<rparr> \<and>
   (\<exists>xs. block_bytes xs = sample_reservations \<and> regions_disjoint xs)"
proof -
  have new: "reservations_new sample_reservations = Ok \<lparr>rsv_bytes = sample_reservations\<rparr>" by code_simp
  have "length sample_reservations < USIZE_LIMIT" by (simp add: sample_reservations_def USIZE_LIMIT_def)
  from reservations_accept_exactly [OF this, of "\<lparr>rsv_bytes = sample_reservations\<rparr>"] new
  show ?thesis by (metis reservations.select_convs(1))
qed

section \<open>The structure block\<close>

text \<open>
  C10.  \<open>Structure::new\<close> accepts exactly the blocks that encode a tree: optional NOPs, a root node
  with an empty name, properties before children, names that are well formed and unique among
  siblings and within a node, aligned and padded items, and an end token as the last item.
\<close>

theorem structure_accepts_exactly:
  assumes "length bs < USIZE_LIMIT" "length (str_bytes st) < USIZE_LIMIT"
  shows "structure_new bs st = Ok sb \<longleftrightarrow> sb = \<lparr>sb_bytes = bs\<rparr> \<and> (\<exists>t. encodes st bs t)"
  by (rule structure_new_iff_encodes [OF assms])

theorem structure_accepts_exactly_witness:
  "structure_new sample_structure (strings_new sample_strings) = Ok \<lparr>sb_bytes = sample_structure\<rparr> \<and>
   (\<exists>t. encodes (strings_new sample_strings) sample_structure t)"
  using structure_accepts_exactly [OF sample_lengths] sample_structure_accepted by blast

text \<open>
  C11.  On every input \<open>Structure::new\<close> terminates without a panic: the searches backward for equal
  siblings and properties stay within the block and every loop makes progress.
\<close>

theorem structure_never_panics:
  assumes "length bs < USIZE_LIMIT" "length (str_bytes st) < USIZE_LIMIT"
  shows "returns (structure_new bs st)"
  by (rule structure_new_never_panics [OF assms])

theorem structure_never_panics_witness:
  "returns (structure_new sample_structure (strings_new sample_strings))"
  by (rule structure_never_panics [OF sample_lengths])

text \<open>
  C12.  An accepted block encodes exactly one tree, and in it the property names of every node and
  the names of its children are distinct and every child name is well formed.
\<close>

theorem accepted_tree_unique:
  assumes "length bs < USIZE_LIMIT" "length (str_bytes st) < USIZE_LIMIT" "structure_new bs st = Ok sb"
  shows "(\<exists>!t. encodes st bs t) \<and> (\<exists>t. encodes st bs t \<and> wf_tree t)"
proof -
  obtain t where t: "encodes st bs t" using structure_new_iff_encodes [OF assms(1,2)] assms(3) by auto
  then have "\<exists>!t. encodes st bs t" by (intro ex1I [of _ t] encodes_unique [OF t])
  with t encodes_wf [OF t] show ?thesis by blast
qed

theorem accepted_tree_unique_witness:
  "\<exists>!t. encodes (strings_new sample_strings) sample_structure t"
  using accepted_tree_unique [OF sample_lengths sample_structure_accepted] by blast

text \<open>
  C13.  On a node of an accepted block, \<open>Node::children\<close> produces exactly the child nodes of the
  tree, in order, without a panic, and each is again a node of the block.
\<close>

theorem children_exactly:
  assumes "node_rep st nd t"
  shows "\<exists>ns. yields (children_next :: (_, _, 'e) iter_next) (node_children nd) ns \<and>
    list_all2 (node_rep st) ns (dt_kids t)"
  by (rule node_children_yields [OF assms])

theorem children_exactly_witness:
  "\<exists>ns. yields (children_next :: (_, _, infallible) iter_next) (node_children sample_root) ns \<and>
    list_all2 (node_rep (strings_new sample_strings)) ns (dt_kids sample_tree)"
  by (rule children_exactly [OF sample_root_rep])

text \<open>
  C14.  \<open>Node::descendants\<close> produces exactly the proper descendants in depth-first pre-order.
\<close>

theorem descendants_exactly:
  assumes "node_rep st nd t"
  shows "\<exists>ns. yields (descendants_next :: (_, _, 'e) iter_next) (node_descendants nd) ns \<and>
    list_all2 (node_rep st) ns (tl (preorder t))"
  by (rule node_descendants_yields [OF assms])

theorem descendants_exactly_witness:
  "\<exists>ns. yields (descendants_next :: (_, _, infallible) iter_next) (node_descendants sample_root) ns \<and>
    list_all2 (node_rep (strings_new sample_strings)) ns (tl (preorder sample_tree))"
  by (rule descendants_exactly [OF sample_root_rep])

text \<open>
  C15.  \<open>Node::properties\<close> produces exactly the properties of the node in order, and
  \<open>Node::property\<close> and \<open>Node::child\<close> are look-ups by name in them and in the children.
\<close>

theorem properties_and_lookups:
  assumes "node_rep st nd t"
  shows "yields (properties_next :: (_, _, 'e) iter_next) (node_properties nd) (map view_property (dt_props t)) \<and>
    (node_property nd name :: (_, 'e) res) =
      Ok (map_option (\<lambda>v. \<lparr>prop_name = name, prop_value = v\<rparr>) (map_of (dt_props t) name)) \<and>
    (\<exists>c. (node_child nd name :: (_, 'e) res) = Ok c \<and>
      rel_option (node_rep st) c (List.find (\<lambda>k. dt_name k = name) (dt_kids t)))"
  by (intro conjI node_properties_yields [OF assms] node_property_eq [OF assms] node_child_eq [OF assms])

theorem properties_and_lookups_witness:
  "(node_property sample_root (ascii ''reg'') :: (_, infallible) res) = Ok None"
  using properties_and_lookups [OF sample_root_rep, of "ascii ''reg''", where ?'e = infallible]
  by (simp add: sample_tree_def)

text \<open>
  C16.  The semantic validation accepts exactly the trees with a \<open>/cpus\<close> and a memory node, coherent
  cell counts and \<open>reg\<close> lengths at every node, usable memory ranges, and a well-formed
  \<open>/reserved-memory\<close>; on the others it returns an error and never panics.
\<close>

theorem semantics_accept_exactly:
  assumes "encodes st (sb_bytes sb) t" "length (sb_bytes sb) < USIZE_LIMIT"
  shows "(validate_semantics sb st = Ok () \<longleftrightarrow>
      required_nodes t \<and> addressing_ok t \<and> memory_ok t \<and> reserved_ok t) \<and>
    returns (validate_semantics sb st)"
  using validate_semantics_eq [OF assms] by (simp add: semantics_ok_def)

theorem semantics_accept_exactly_witness:
  "returns (validate_semantics \<lparr>sb_bytes = sample_structure\<rparr> (strings_new sample_strings))"
  using semantics_accept_exactly [of "strings_new sample_strings" "\<lparr>sb_bytes = sample_structure\<rparr>" sample_tree]
  by (simp add: sample_encodes sample_lengths)

section \<open>Header, names, cells and bytes\<close>

text \<open>
  C17.  \<open>Header::new\<close> accepts exactly the headers with the magic number whose decoded layout is well
  formed (supported version, aligned blocks within the blob, outside the header and disjoint), and
  returns that layout.
\<close>

theorem header_accepts_exactly:
  "header_new bs = Ok h \<longleftrightarrow>
     read_be_u32 bs Magic = FDT_MAGIC \<and> h = header_of bs \<and> header_wf (header_of bs)"
  by (rule header_new_eq_Ok)

text \<open>
  C18.  Names.  A property name is accepted exactly when its offset lies in the strings block and one to 31
  permitted characters and a NUL follow there; the name returned is those characters.  A node name is
  accepted exactly when it is a component of at most 31 permitted characters starting with a
  letter, optionally followed by an at-sign and a non-empty unit address.
\<close>

theorem names_exactly:
  assumes "length (str_bytes st) < USIZE_LIMIT"
  shows "(strings_validate_property_name st raw = Ok name \<longleftrightarrow>
      property_name_at (str_bytes st) (usize_from_u32 raw) name) \<and>
    returns (strings_validate_property_name st raw) \<and>
    (name_validate node_name = Ok () \<longleftrightarrow> node_name_ok node_name)"
  using validate_property_name_eq_Ok [OF assms] validate_property_name_returns [OF assms] name_validate_iff by blast

theorem names_exactly_witness:
  "property_name_at (str_bytes (strings_new sample_strings)) (usize_from_u32 12) (ascii ''reg'')"
  using names_exactly [OF sample_lengths(2), of 12] sample_names(4) by blast

text \<open>
  C20.  \<open>decode_cells_u64\<close> of any number of big-endian cells is their value when it fits 64 bits and
  nothing otherwise: leading zero cells are accepted and no overflow goes unnoticed.
\<close>

theorem decode_cells_exactly:
  "decode_cells_u64 bs =
     (if 4 dvd length bs \<and> be_value bs < 2 ^ 64 then Some (word_of_nat (be_value bs)) else None)"
  by (rule decode_cells_u64_eq)

text \<open>
  C21.  The reader reads back what an encoder wrote: after any prefix, \<open>read_u32\<close> and \<open>read_u64\<close>
  return the encoded value, \<open>read_nul_terminated\<close> the encoded string, and the reader has advanced
  past exactly their bytes.
\<close>

theorem reader_round_trip:
  assumes "length (rd_bytes r) < USIZE_LIMIT" "rd_offset r = length pre"
  shows "(rd_bytes r = pre @ u32_to_be_bytes w @ post \<longrightarrow> read_u32 r = Ok (w, r\<lparr>rd_offset := length pre + 4\<rparr>)) \<and>
    (rd_bytes r = pre @ u64_to_be_bytes v @ post \<longrightarrow> read_u64 r = Ok (v, r\<lparr>rd_offset := length pre + 8\<rparr>)) \<and>
    (rd_bytes r = pre @ s @ 0 # post \<and> 0 \<notin> set s \<longrightarrow>
      read_nul_terminated r = Ok (s, r\<lparr>rd_offset := length pre + length s + 1\<rparr>))"
proof -
  have ok: "reader_ok r" "remaining_bytes r = ys" if "rd_bytes r = pre @ ys" for ys
    using assms that by (auto simp: reader_ok_def remaining_bytes_def)
  have "position (\<lambda>b. b = 0) (s @ 0 # post) = Some (length s)" if "0 \<notin> set s"
    using that by (intro position_append_hit) auto
  then show ?thesis
    using ok assms(2) by (auto simp: read_u32_eq read_u64_eq read_nul_terminated_eq skip_def)
qed

theorem reader_round_trip_witness:
  "read_u32 \<lparr>rd_bytes = [7] @ u32_to_be_bytes 0xd00dfeed @ [9], rd_offset = 1\<rparr> =
     Ok (0xd00dfeed, \<lparr>rd_bytes = [7] @ u32_to_be_bytes 0xd00dfeed @ [9], rd_offset = 5\<rparr>)"
  using reader_round_trip [of "\<lparr>rd_bytes = [7] @ u32_to_be_bytes 0xd00dfeed @ [9], rd_offset = 1\<rparr>" "[7]" "0xd00dfeed" "[9]"]
  by (simp add: USIZE_LIMIT_def)

section \<open>Addresses and frames\<close>

text \<open>
  \<open>align_up\<close> gives the least frame boundary at or above an address, and nothing exactly when
  that boundary is not representable; \<open>align_down\<close> gives the greatest boundary at or below it.
\<close>

theorem frame_alignment:
  "(align_up a = Some b \<longleftrightarrow> frame_aligned b \<and> pa a \<le> pa b \<and> pa b < pa a + 4096) \<and>
   (align_up a = None \<longleftrightarrow> 2 ^ 64 - 4096 < pa a) \<and>
   frame_aligned (align_down a) \<and> pa (align_down a) \<le> pa a \<and> pa a < pa (align_down a) + 4096"
  using align_up_boundary align_up_None align_down_boundary by blast

text \<open>
  Two non-empty ranges overlap, for \<open>PhysRange::overlaps\<close> and for \<open>VirtRange::overlaps\<close>,
  exactly when some address is in both; and a range of a start and a size exists exactly when the
  size is not zero and the end does not wrap.
\<close>

theorem ranges_as_sets:
  assumes "phys_range_ok a" "phys_range_ok b" "virt_range_ok c" "virt_range_ok d"
  shows "(phys_overlaps a b \<longleftrightarrow> addrs a \<inter> addrs b \<noteq> {}) \<and>
    (virt_overlaps c d \<longleftrightarrow> vaddrs c \<inter> vaddrs d \<noteq> {}) \<and>
    ((\<exists>r. phys_range_from_start_size s n = Some r) \<longleftrightarrow> 0 < unat n \<and> pa s + unat n < 2 ^ 64)"
  using assms phys_overlaps_addrs virt_overlaps_vaddrs phys_range_from_start_size_ex by blast

section \<open>The start of the kernel\<close>

text \<open>
  C22.  The boot code.  Entered with translation off and its literal holding the high entry, in a layout
  as the linker script asserts it, the assembly ends, without a fault, at \<open>main\<close>: the hart number
  and the blob address are still in their registers, the stack and global pointers are set, the bss is
  zero, the root table holds exactly the identity and the high mapping of the kernel's gigapage, no
  other byte of memory has changed, and the image can be read, written and executed at both its
  addresses.  Any system in that memory is one that \<open>main\<close> may start from.
\<close>

theorem boot_code_hands_over:
  assumes "boot_layout_ok bl" "mc_satp (bt_machine st) = 0"
    and "load64 (mc_mem (bt_machine st)) (unat (bl_literal bl)) = bl_high_start bl"
  shows "\<exists>st'. boot_run bl st = Some (bl_main bl, st') \<and> handed_over bl st st' \<and>
    (\<forall>k x. x < image_size (bl_linker bl) \<longrightarrow>
       translate (mc_mem (bt_machine st')) (mc_satp (bt_machine st')) k (unat (lk_physical_start (bl_linker bl)) + x) =
         Some (unat (lk_physical_start (bl_linker bl)) + x) \<and>
       translate (mc_mem (bt_machine st')) (mc_satp (bt_machine st')) k (unat (lk_virtual_start (bl_linker bl)) + x) =
         Some (unat (lk_physical_start (bl_linker bl)) + x)) \<and>
    (\<forall>s :: 'w system. sy_machine s = bt_machine st' \<and> no_memory s \<longrightarrow> booted (bl_linker bl) s)"
proof -
  obtain st' where run: "boot_run bl st = Some (bl_main bl, st')" and over: "handed_over bl st st'"
    using boot_run_hands_over [OF assms] by blast
  then have "boot_mapped bl (bt_machine st')" by (simp add: handed_over_def)
  with run over show ?thesis
    using boot_identity [OF assms(1)] boot_alias [OF assms(1)] boot_mapped_booted [OF assms(1)] by metis
qed

theorem boot_code_hands_over_witness:
  "\<exists>st'. boot_run sample_boot_layout sample_boot_state = Some (0xFFFFFFFF80001100, st') \<and> bt_regs st' A1 = 0x90000000"
proof -
  obtain st' where "boot_run sample_boot_layout sample_boot_state = Some (bl_main sample_boot_layout, st')"
      "handed_over sample_boot_layout sample_boot_state st'"
    using boot_code_hands_over [OF sample_boot_starts] by blast
  then show ?thesis by (simp add: handed_over_def) (simp add: sample_boot_layout_def sample_boot_state_def)
qed



section \<open>Paging\<close>



text \<open>
  C26.  \<open>BootstrapPaging::map_fdt\<close> returns.  When it fails nothing has changed.  When it succeeds,
  loads at the address it gives read the blob: from there to the end of the five gigapages of the
  window, virtual addresses translate to the consecutive physical addresses from the blob on.  Only
  the root table is written, and the bootstrap tables stay usable.
\<close>

theorem map_fdt_window:
  assumes "boot_ok bp m"
  shows "case map_fdt bp dtb m of (r, m') \<Rightarrow>
    returns r \<and> boot_ok bp m' \<and> mc_satp m' = mc_satp m \<and>
    (\<forall>x. x div 4096 \<noteq> boot_root bp \<longrightarrow> mc_mem m' x = mc_mem m x) \<and> (\<forall>e. r = Err e \<longrightarrow> m' = m) \<and>
    (\<forall>v. r = Ok v \<longrightarrow> va v = 0xFFFFFFC000000000 + pa dtb mod 2 ^ 30 \<and>
       (\<forall>x. pa dtb mod 2 ^ 30 + x < 5 * 2 ^ 30 \<longrightarrow> translate (mc_mem m') (mc_satp m') Load (va v + x) = Some (pa dtb + x)))"
proof (cases "map_fdt bp dtb m")
  case (Pair r m')
  show ?thesis unfolding Pair prod.case by (rule map_fdt_spec [OF assms Pair])
qed

theorem map_fdt_window_witness: "returns (fst (map_fdt sample_boot_paging (PhysAddr 0x82000000) sample_boot_machine))"
  using map_fdt_window [OF sample_boot_ok, of "PhysAddr 0x82000000"] by (simp add: case_prod_beta)





section \<open>The heap and the global allocator\<close>

text \<open>
  C29.  \<open>KernelPaging::claim_heap\<close> gives the heap out at most once.  It keeps the address space well
  formed, and the heap it gives is empty, has at least one page behind it, and every page behind
  it is a page of the heap's range with a frame of its own.
\<close>

theorem claim_heap_once:
  assumes "address_space kp (m, ba)"
  shows "case claim_heap allocate (kp, m, ba) of (r, kp', m', ba') \<Rightarrow>
    returns r \<and> address_space kp' (m', ba') \<and>
    (\<forall>h. r = Ok h \<longrightarrow> \<not> kp_heap_claimed kp \<and> kp' = kp\<lparr>kp_heap_claimed := True\<rparr> \<and> heap_state kp' h (m', ba') \<and>
       hp_cursor h = VirtAddr HEAP_END \<and> hp_mapped_start h \<noteq> VirtAddr HEAP_END)"
proof -
  obtain r kp' m' ba' where run: "claim_heap allocate (kp, m, ba) = (r, kp', m', ba')" by (rule prod_cases4)
  show ?thesis unfolding run prod.case by (rule claim_heap_state [OF assms run])
qed

theorem claim_heap_once_witness: "returns (fst (claim_heap allocate (sample_paging, sample_machine, sample_allocator)))"
  using claim_heap_once [OF sample_space] by (simp add: case_prod_beta)

text \<open>
  C30.  Where three representable frames are available and the heap's slot of the root table is empty,
  an unclaimed heap can be claimed: two tables and one page are all it needs.
\<close>

theorem claim_heap_live:
  assumes "address_space kp (m, ba)" "\<not> kp_heap_claimed kp" "pte_at (mc_mem m) (kernel_root kp) 384 = 0"
    and "3 \<le> length (free_frames ba)" "\<forall>g\<in>set (take 3 (free_frames ba)). representable g"
  shows "\<exists>h. fst (claim_heap allocate (kp, m, ba)) = Ok h"
  by (rule claim_heap_succeeds [OF assms])

theorem claim_heap_live_witness: "\<exists>h. fst (claim_heap allocate (sample_paging, sample_machine, sample_allocator)) = Ok h"
  by (rule claim_heap_live [OF sample_space _ sample_slot_free sample_frames_usable]) (simp add: sample_paging_def)

text \<open>
  C31.  Blocks of the global allocator.  Over any history of requests and returned blocks, the blocks
  given are aligned as requested, lie in the heap below where it stood, do not overlap, and every byte
  of them is backed by a frame that is neither a page table nor available; the allocator's state
  stays well formed and the interrupt state of the hart is as it was.
\<close>

theorem global_allocator_blocks:
  assumes "kernel_serves k bs k'" "allocator_ok k" "kn_memory k = Some st"
  shows "allocator_ok k' \<and> kn_hart k' = kn_hart k \<and> sorted_wrt (\<lambda>x y. block_span x \<inter> block_span y = {}) bs \<and>
    (\<forall>x\<in>set bs. unat (snd x) mod unat (ly_align (fst x)) = 0 \<and>
       unat HEAP_START \<le> unat (snd x) \<and> unat (snd x) + unat (ly_size (fst x)) \<le> va (hp_cursor (ms_heap st)) \<and>
       (\<forall>a\<in>block_span x. \<exists>f. heap_byte (ms_paging st) (kn_machine k', ms_frames (the (kn_memory k'))) a f))"
  by (rule kernel_serves_blocks [OF assms])

theorem global_allocator_blocks_witness:
  "\<exists>k. kernel_serves sample_heap_kernel [(sample_layout, 0xFFFFFFE03FFFFFF0)] k \<and> allocator_ok k"
  using sample_serves global_allocator_blocks [OF _ sample_heap_kernel_ok(1,2)] by blast

section \<open>The process\<close>

text \<open>
  C32.  \<open>Image::parse\<close> accepts exactly the images with the magic number, consistent sizes, a base and
  an entry point within bounds and below the limit, and returns their fields; it never panics.
\<close>

theorem image_parse_exactly:
  "returns (image_parse bs limit) \<and>
   (image_parse bs limit = Ok img \<longleftrightarrow>
     (\<exists>base entry_at. image_ok bs (unat limit) (unat base) (unat entry_at) \<and>
        img = \<lparr>im_base = VirtAddr base, im_entry = VirtAddr entry_at, im_bytes = drop 32 bs\<rparr>))"
  using image_parse_returns image_parse_Ok by blast



section \<open>Traps, time and the timer\<close>



text \<open>
  C35.  User code cannot halt the kernel: a trap from user mode returns, or ends the process, unless it
  is a timer interrupt whose timer cannot be armed again.
\<close>

theorem user_traps_contained:
  assumes "from_user frame" "tf_cause frame \<noteq> TIMER_INTERRUPT \<or> fst (handle_interrupt pf h) = Ok ()"
  shows "fst (trap_handler pf frame h) \<noteq> Halted"
  using user_trap_not_fatal [OF assms(1), of pf h] assms(2) by blast

theorem user_traps_contained_witness: "fst (trap_handler sample_platform (sample_frame 0 13) sample_hart) \<noteq> Halted"
  by (rule user_traps_contained) (simp_all add: from_user_def sample_frame_def TIMER_INTERRUPT_def)

text \<open>
  C36.  System calls.  An environment call from user mode whose program counter can advance either ends
  the process with its argument as status, or continues after the instruction with only \<open>a0\<close>
  changed: to the outcome of writing one byte to the console, to the ticks taken in user mode, or to
  the error for an unknown number.  Nothing of the hart changes but the outside world.
\<close>

theorem system_calls_exactly:
  assumes "from_user frame" "tf_cause frame = USER_ECALL" "unat (tf_epc frame) + 4 < 2 ^ 64"
  shows "case trap_handler pf frame h of (out, h') \<Rightarrow>
    let number = tf_registers frame ! 17; argument = tf_registers frame ! 10 in
    if number = EXIT then out = ProcessExit argument \<and> h' = enable_interrupts h
    else \<exists>v. out = TrapReturn (frame\<lparr>tf_epc := tf_epc frame + 4, tf_registers := (tf_registers frame)[10 := v]\<rparr>) \<and>
      h' = h\<lparr>ht_world := ht_world h'\<rparr> \<and>
      (number = CONSOLE_WRITE_BYTE \<longrightarrow> v = (if 255 < unat argument then ERROR_INVALID_ARGUMENT
         else if fst (pf_ecall pf DBCN_EID DBCN_WRITE_BYTE_FID argument (ht_world h)) = 0 then 0 else ERROR_IO)) \<and>
      (number = TIMER_TICKS \<longrightarrow> v = ht_user_ticks h) \<and>
      (number \<notin> {CONSOLE_WRITE_BYTE, TIMER_TICKS} \<longrightarrow> v = ERROR_NOT_SUPPORTED \<and> h' = h)"
proof -
  let ?n = "tf_registers frame ! 17" and ?a = "tf_registers frame ! 10"
  obtain out h' where run: "handle_syscall pf ?n ?a h = (out, h')" by (cases "handle_syscall pf ?n ?a h")
  have t: "trap_handler pf frame h = (case (out, h') of
      (SyscallReturn v, h') \<Rightarrow> (TrapReturn (frame\<lparr>tf_epc := tf_epc frame + 4, tf_registers := (tf_registers frame)[10 := v]\<rparr>), h')
    | (SyscallExit status, h') \<Rightarrow> (ProcessExit status, h'))" using trap_ecall [OF assms, of pf h] run by simp
  have keep: "?n \<noteq> EXIT \<Longrightarrow> h' = h\<lparr>ht_world := ht_world h'\<rparr>" using handle_syscall_keeps [of pf ?n ?a h] run by simp
  show ?thesis
  proof (cases out)
    case (SyscallExit status)
    then have n: "?n = EXIT" using handle_syscall_exit [of pf ?n ?a h] run by auto
    then have "status = ?a" "h' = enable_interrupts h"
      using run SyscallExit by (auto simp: handle_syscall_def CONSOLE_WRITE_BYTE_def EXIT_def TIMER_TICKS_def process_idle_def)
    then show ?thesis using t n SyscallExit by simp
  next
    case (SyscallReturn v)
    then have n: "?n \<noteq> EXIT" using handle_syscall_exit [of pf ?n ?a h] run by auto
    have w: "v = (if 255 < unat ?a then ERROR_INVALID_ARGUMENT
        else if fst (pf_ecall pf DBCN_EID DBCN_WRITE_BYTE_FID ?a (ht_world h)) = 0 then 0 else ERROR_IO)" if "?n = CONSOLE_WRITE_BYTE"
      using handle_syscall_write [of ?a pf h] run that SyscallReturn
      by (cases "255 < unat ?a") (auto simp: handle_syscall_def word_less_nat_alt not_less)
    have u: "v = ht_user_ticks h" if "?n = TIMER_TICKS"
      using run that SyscallReturn by (auto simp: handle_syscall_def CONSOLE_WRITE_BYTE_def TIMER_TICKS_def user_timer_ticks_def)
    have o: "v = ERROR_NOT_SUPPORTED \<and> h' = h" if "?n \<noteq> CONSOLE_WRITE_BYTE" "?n \<noteq> TIMER_TICKS"
      using run that n SyscallReturn by (simp add: handle_syscall_def)
    have T: "trap_handler pf frame h =
        (TrapReturn (frame\<lparr>tf_epc := tf_epc frame + 4, tf_registers := (tf_registers frame)[10 := v]\<rparr>), h')"
      using t SyscallReturn by simp
    show ?thesis unfolding T prod.case Let_def if_not_P [OF n]
      by (intro exI [of _ v] conjI impI refl keep [OF n] w u) (use o in simp_all)
  qed
qed

theorem system_calls_exactly_witness:
  "\<exists>v. fst (trap_handler sample_platform (sample_frame 0 USER_ECALL) sample_hart) =
     TrapReturn ((sample_frame 0 USER_ECALL)\<lparr>tf_epc := 0x10004, tf_registers := (replicate 32 0)[10 := v]\<rparr>)"
proof -
  have "from_user (sample_frame 0 USER_ECALL)" "tf_cause (sample_frame 0 USER_ECALL) = USER_ECALL"
      "unat (tf_epc (sample_frame 0 USER_ECALL)) + 4 < 2 ^ 64"
    by (simp_all add: from_user_def sample_frame_def)
  from system_calls_exactly [OF this, where pf = sample_platform and h = sample_hart] show ?thesis
    by (auto simp: case_prod_beta Let_def sample_frame_def EXIT_def)
qed

text \<open>
  C37.  The interval of the timer is the period in ticks of the timebase, rounded up, and is refused
  exactly when it is zero or does not fit 64 bits; no product of the computation overflows.
\<close>

theorem interval_ticks_exactly:
  "interval_ticks hz d =
     (let n = (unat hz * as_nanos d + 999999999) div 1000000000 in
      if 0 < n \<and> n < 2 ^ 64 then Ok (word_of_nat n) else Err InvalidInterval)"
  by (rule interval_ticks_eq)


text \<open>
  C39.  The wait of \<open>run_kernel\<close> ends: once two timer interrupts have been served, it goes on, whatever
  the tick counter was when it started, also when it wraps.
\<close>

theorem wait_ends:
  assumes "timely pf h e1" "timely pf (after_event pf e1 h) e2"
  shows "(wait_for_ticks pf (timer_ticks h) (e1 # e2 # es) h :: (unit, Halt) res \<times> 'w hart) =
    (Ok (), after_event pf e2 (after_event pf e1 h))"
  by (rule wait_two_ticks [OF assms])

theorem wait_ends_witness:
  "fst (wait_for_ticks sample_platform 0xFFFFFFFFFFFFFFFF [sample_event, sample_event] sample_hart :: (unit, Halt) res \<times> sample_world hart) = Ok ()"
proof -
  have "timer_ticks sample_hart = 0xFFFFFFFFFFFFFFFF" by (simp add: timer_ticks_def sample_hart_def)
  with wait_ends [OF sample_timely, of "[]"] show ?thesis by simp
qed

section \<open>A running process\<close>

text \<open>
  C19.  The tick counters.  Over any history of traps that return, between which the outside world may
  do anything, the tick counter advances by the number of timer interrupts and the user tick counter by
  those that came from user mode, both modulo the 64-bit range, and nothing else of the hart changes but the world.
\<close>

theorem ticks_count_interrupts:
  assumes "traps pf h ks h'"
  shows "h' = h\<lparr>ht_world := ht_world h',
    ht_ticks := ht_ticks h + word_of_nat (length (filter (\<lambda>k. k \<noteq> OtherTrap) ks)),
    ht_user_ticks := ht_user_ticks h + word_of_nat (length (filter (\<lambda>k. k = UserTimer) ks))\<rparr>"
  using traps_hart [OF assms] unfolding ticks_count .

theorem ticks_count_interrupts_witness:
  "let h' = sample_hart\<lparr>ht_world := (1000, [101000]), ht_ticks := 0, ht_user_ticks := 1\<rparr> in
   traps sample_platform sample_hart [UserTimer] h' \<and> ht_ticks h' = ht_ticks sample_hart + 1 \<and> ht_user_ticks h' = 1"
  using sample_user_tick ticks_count_interrupts [OF sample_user_tick] by (simp add: Let_def sample_hart_def)

text \<open>
  C23.  The embedded program.  However the firmware behaves, and whenever timer interrupts arrive before its
  calls, it exits with status 0 or 2, or the kernel halts; it waits forever only when the interrupts
  between its first reading of the ticks and the last are fewer than three (or wrap the counter).  Status 0
  means that there were at least three.  It never exits with another status, never faults and never
  reaches the trapping instruction after its exit.  Where the firmware accepts every call and the
  time counter does not overflow, three interrupts make it exit with status 0.
\<close>

theorem init_program_ends:
  assumes "user_ok frame" "call_ok pc"
  shows "case user_main pf pc intr rounds (frame, h) of (r, frame', h') \<Rightarrow>
    let n = length (concat rounds) in
    ((\<exists>e. r = Err e \<and> (e = KernelHalted \<or> e = Exited 2 \<or> e = Exited 0 \<and> 3 \<le> n)) \<or>
     r = Diverge \<and> \<not> (3 \<le> n \<and> n < 2 ^ 64)) \<and>
    (dependable pf W ((\<Union>i. set (intr i)) \<union> set (concat rounds)) h \<and> 3 \<le> n \<and> n < 2 ^ 64 \<longrightarrow> r = Err (Exited 0))"
proof -
  obtain r frame' h' where run: "user_main pf pc intr rounds (frame, h) = (r, frame', h')" by (rule prod_cases3)
  show ?thesis
    unfolding run prod.case Let_def possible_end_def [symmetric]
    using user_main_ends [OF assms run] user_main_live [OF assms run] by blast
qed

theorem init_program_ends_witness:
  "fst (user_main sample_platform 0x10000 (\<lambda>_. [sample_passes]) [[sample_passes], [], [sample_passes, sample_passes]]
     (user_context_new (VirtAddr 0x10000) (VirtAddr USER_STACK_TOP), sample_hart)) = Err (Exited 0)"
proof -
  have "user_ok (user_context_new (VirtAddr 0x10000) (VirtAddr USER_STACK_TOP))" "call_ok 0x10000"
    by (simp_all add: user_ok_def from_user_def user_context_new_def INITIAL_USER_STATUS_def SUPERVISOR_ORIGIN_def call_ok_def)
  from init_program_ends [OF this, where pf = sample_platform and h = sample_hart and W = "\<lambda>w. unat (fst w) \<le> 1001000"
      and intr = "\<lambda>_. [sample_passes]" and rounds = "[[sample_passes], [], [sample_passes, sample_passes]]"]
  show ?thesis using sample_dependable by (simp add: case_prod_beta Let_def)
qed

section \<open>Log records\<close>


end
